(* ===== verification/Kv_Prelude.thy ===== *)
theory Kv_Prelude
  imports Main "HOL-Library.Word" "HOL-Library.List_Lexorder" "HOL-Library.Sublist"
begin

text \<open>
  Shared material of the development: the names of Rust's machine types, the
  big-endian byte conversions of the standard library
  (\<^verbatim>\<open>u64::to_be_bytes\<close>, \<^verbatim>\<open>u64::from_be_bytes\<close> and their \<^verbatim>\<open>u32\<close>
  versions), and generic facts on the lexicographic order of byte strings.
  \<^verbatim>\<open>Vec<u8>\<close> and \<^verbatim>\<open>&[u8]\<close> are lists of 8-bit words; Rust compares them
  lexicographically, which is the list order of \<open>List_Lexorder\<close>.
  \<^verbatim>\<open>Result<T, E>\<close> is the sum \<open>'e + 'a\<close> with the error on the left.
\<close>

section \<open>Machine types\<close>

type_synonym u8 = "8 word"
type_synonym u32 = "32 word"
type_synonym u64 = "64 word"
type_synonym bytes = "u8 list"

named_theorems codec_simps \<open>encoders, decoders and their round trips\<close>
named_theorems view_simps \<open>how a storage batch changes the logical contents\<close>

section \<open>Big-endian conversions\<close>

fun be_bytes :: "nat \<Rightarrow> nat \<Rightarrow> bytes" where
  "be_bytes 0 x = []"
| "be_bytes (Suc n) x = be_bytes n (x div 256) @ [word_of_nat x]"

definition be_nat :: "bytes \<Rightarrow> nat" where
  "be_nat bs = foldl (\<lambda>a b. a * 256 + unat b) 0 bs"

definition u64_to_be_bytes :: "u64 \<Rightarrow> bytes" where
  "u64_to_be_bytes x = be_bytes 8 (unat x)"

definition u64_from_be_bytes :: "bytes \<Rightarrow> u64" where
  "u64_from_be_bytes bs = word_of_nat (be_nat bs)"

definition u32_to_be_bytes :: "u32 \<Rightarrow> bytes" where
  "u32_to_be_bytes x = be_bytes 4 (unat x)"

definition u32_from_be_bytes :: "bytes \<Rightarrow> u32" where
  "u32_from_be_bytes bs = word_of_nat (be_nat bs)"

text \<open>The slice \<^verbatim>\<open>bytes[a..b]\<close>, used where the code has checked the bounds.\<close>

definition slice :: "nat \<Rightarrow> nat \<Rightarrow> 'a list \<Rightarrow> 'a list" where
  "slice a b xs = take (b - a) (drop a xs)"

subsection \<open>Facts on the conversions\<close>

lemma be_nat_Nil [simp]: "be_nat [] = 0"
  by (simp add: be_nat_def)

lemma be_nat_snoc [simp]: "be_nat (bs @ [b]) = be_nat bs * 256 + unat b"
  by (simp add: be_nat_def)

lemma be_nat_Cons: "be_nat (b # bs) = unat b * 256 ^ length bs + be_nat bs"
  by (induction bs rule: rev_induct) (simp_all add: be_nat_def algebra_simps)

lemma be_nat_append: "be_nat (xs @ ys) = be_nat xs * 256 ^ length ys + be_nat ys"
  by (induction xs) (simp_all add: be_nat_Cons power_add algebra_simps)

lemma length_be_bytes [simp]: "length (be_bytes n x) = n"
  by (induction n arbitrary: x) simp_all

lemma unat_u8_less: "unat (b :: u8) < 256"
  using unsigned_less [where ?'a = nat and w = b] by simp

lemma be_nat_bound: "be_nat bs < 256 ^ length bs"
proof (induction bs rule: rev_induct)
  case (snoc b bs)
  have "be_nat bs * 256 + unat b < (be_nat bs + 1) * 256"
    using unat_u8_less [of b] by simp
  also have "\<dots> \<le> 256 ^ length bs * 256"
    using snoc by (intro mult_le_mono1) simp
  finally show ?case by (simp add: mult.commute)
qed simp

lemma be_nat_be_bytes: "x < 256 ^ n \<Longrightarrow> be_nat (be_bytes n x) = x"
proof (induction n arbitrary: x)
  case (Suc n)
  have "x div 256 < 256 ^ n"
    using Suc.prems by (simp add: less_mult_imp_div_less mult.commute)
  moreover have "unat (word_of_nat x :: u8) = x mod 256"
    by (simp add: unat_of_nat)
  ultimately show ?case
    using Suc.IH by (simp add: div_mult_mod_eq)
qed simp

lemma be_bytes_be_nat: "be_bytes (length bs) (be_nat bs) = bs"
proof (induction bs rule: rev_induct)
  case (snoc b bs)
  have "(be_nat bs * 256 + unat b) div 256 = be_nat bs"
    using unat_u8_less [of b] by simp
  moreover have "(word_of_nat (be_nat bs * 256 + unat b) :: u8) = b"
    by (simp only: word_unat_eq_iff unat_of_nat) (simp add: unat_u8_less [of b])
  ultimately show ?case
    using snoc by simp
qed simp

lemma length_u64_to_be_bytes [simp]: "length (u64_to_be_bytes x) = 8"
  by (simp add: u64_to_be_bytes_def)

lemma length_u32_to_be_bytes [simp]: "length (u32_to_be_bytes x) = 4"
  by (simp add: u32_to_be_bytes_def)

lemma unat_u64_less: "unat (x :: u64) < 256 ^ 8"
  using unsigned_less [where ?'a = nat and w = x] by simp

lemma unat_u32_less: "unat (x :: u32) < 256 ^ 4"
  using unsigned_less [where ?'a = nat and w = x] by simp

lemma be_nat_u64 [codec_simps]: "be_nat (u64_to_be_bytes x) = unat x"
  by (simp only: u64_to_be_bytes_def be_nat_be_bytes [OF unat_u64_less])

lemma be_nat_u32 [codec_simps]: "be_nat (u32_to_be_bytes x) = unat x"
  by (simp only: u32_to_be_bytes_def be_nat_be_bytes [OF unat_u32_less])

lemma u64_from_to_be_bytes [simp, codec_simps]: "u64_from_be_bytes (u64_to_be_bytes x) = x"
  by (simp add: u64_from_be_bytes_def be_nat_u64)

lemma u32_from_to_be_bytes [simp, codec_simps]: "u32_from_be_bytes (u32_to_be_bytes x) = x"
  by (simp add: u32_from_be_bytes_def be_nat_u32)

lemma u64_to_from_be_bytes [codec_simps]:
  assumes "length bs = 8"
  shows "u64_to_be_bytes (u64_from_be_bytes bs) = bs"
proof -
  have "unat (u64_from_be_bytes bs) = be_nat bs"
    using be_nat_bound [of bs] assms by (simp add: u64_from_be_bytes_def unat_of_nat)
  then show ?thesis
    using be_bytes_be_nat [of bs] assms by (simp add: u64_to_be_bytes_def)
qed

lemma u64_to_be_bytes_inject [simp]: "u64_to_be_bytes x = u64_to_be_bytes y \<longleftrightarrow> x = y"
  by (metis u64_from_to_be_bytes)

text \<open>Code equations that stay on words: the definitions above count in \<open>nat\<close>, which is
  convenient for proofs and hopeless to evaluate on 64 bits.\<close>

lemma be_bytes_drop_bit:
  "be_bytes n (unat (x :: 'b::len word)) = map (\<lambda>i. ucast (drop_bit (8 * i) x)) (rev [0..<n])"
proof (induction n arbitrary: x)
  case (Suc n)
  have "unat x div 256 = unat (drop_bit 8 x)"
    by (simp only: unat_drop_bit_eq) (simp add: drop_bit_eq_div)
  then have "be_bytes (Suc n) (unat x) = map (\<lambda>i. ucast (drop_bit (8 * Suc i) x)) (rev [0..<n]) @ [ucast x]"
    using Suc [of "drop_bit 8 x"] by (simp add: add.commute)
  moreover have "rev [0..<Suc n] = map Suc (rev [0..<n]) @ [0]"
    by (simp only: upt_conv_Cons rev_map [symmetric] map_Suc_upt) simp
  ultimately show ?case by simp
qed simp

lemma u64_to_be_bytes_code [code]:
  "u64_to_be_bytes x = map (\<lambda>i. ucast (drop_bit i x)) [56, 48, 40, 32, 24, 16, 8, 0]"
  by (simp only: u64_to_be_bytes_def be_bytes_drop_bit) (simp add: upt_rec)

lemma u32_to_be_bytes_code [code]:
  "u32_to_be_bytes x = map (\<lambda>i. ucast (drop_bit i x)) [24, 16, 8, 0]"
  by (simp only: u32_to_be_bytes_def be_bytes_drop_bit) (simp add: upt_rec)

lemma of_nat_be_nat: "(word_of_nat (be_nat bs) :: 'b::len word) = foldl (\<lambda>a b. a * 256 + ucast b) 0 bs"
  by (induction bs rule: rev_induct) (simp_all)

lemma u64_from_be_bytes_code [code]: "u64_from_be_bytes bs = foldl (\<lambda>a b. a * 256 + ucast b) 0 bs"
  by (simp add: u64_from_be_bytes_def of_nat_be_nat)

lemma u32_from_be_bytes_code [code]: "u32_from_be_bytes bs = foldl (\<lambda>a b. a * 256 + ucast b) 0 bs"
  by (simp add: u32_from_be_bytes_def of_nat_be_nat)
section \<open>The lexicographic order on byte strings\<close>

lemma append_less_same_prefix [simp]:
  fixes a b k :: "'a :: linorder list"
  shows "k @ a < k @ b \<longleftrightarrow> a < b"
  by (induction k) simp_all

lemma append_le_same_prefix [simp]:
  fixes a b k :: "'a :: linorder list"
  shows "k @ a \<le> k @ b \<longleftrightarrow> a \<le> b"
  by (induction k) simp_all

lemma be_nat_less_iff:
  assumes "length xs = length ys"
  shows "xs < ys \<longleftrightarrow> be_nat xs < be_nat ys"
  using assms
proof (induction xs ys rule: list_induct2)
  case (Cons x xs y ys)
  have bx: "be_nat xs < 256 ^ length ys" and by': "be_nat ys < 256 ^ length ys"
    using be_nat_bound [of xs] be_nat_bound [of ys] Cons.hyps by simp_all
  consider "x < y" | "x = y" | "y < x" by (rule linorder_less_linear [THEN disjE]) auto
  then show ?case
  proof cases
    case 1
    then have "(unat x + 1) * 256 ^ length ys \<le> unat y * 256 ^ length ys"
      by (intro mult_le_mono1) (simp add: word_less_nat_alt)
    with 1 bx show ?thesis
      using Cons.hyps by (simp add: be_nat_Cons)
  next
    case 2
    then show ?thesis using Cons by (simp add: be_nat_Cons)
  next
    case 3
    then have "(unat y + 1) * 256 ^ length ys \<le> unat x * 256 ^ length ys"
      by (intro mult_le_mono1) (simp add: word_less_nat_alt)
    with 3 by' show ?thesis
      using Cons.hyps by (auto simp add: be_nat_Cons)
  qed
qed simp

lemma u64_to_be_bytes_less [simp]: "u64_to_be_bytes x < u64_to_be_bytes y \<longleftrightarrow> x < y"
  by (simp add: be_nat_less_iff be_nat_u64 word_less_nat_alt)

lemma u64_to_be_bytes_le [simp]: "u64_to_be_bytes x \<le> u64_to_be_bytes y \<longleftrightarrow> x \<le> y"
  by (simp add: linorder_not_less [symmetric])

text \<open>A string between two strings with a common prefix has that prefix.\<close>

lemma between_prefix:
  fixes k a b y :: "'a :: linorder list"
  assumes "k @ a \<le> y" and "y \<le> k @ b"
  shows "prefix k y"
  using assms
proof (induction k arbitrary: y)
  case (Cons c k)
  then show ?case by (cases y) auto
qed simp

text \<open>Strings of which neither is a prefix of the other compare the same whatever follows.\<close>

lemma append_less_no_prefix:
  fixes a b :: "'a :: linorder list"
  assumes "\<not> prefix a b" "\<not> prefix b a"
  shows "a @ x < b @ y \<longleftrightarrow> a < b"
  using assms
proof (induction a arbitrary: b)
  case (Cons c a)
  then show ?case by (cases b) auto
qed simp

lemma strict_sorted_snoc:
  assumes "sorted_wrt (<) xs" "xs \<noteq> [] \<Longrightarrow> last xs < x"
  shows "sorted_wrt (<) (xs @ [x :: 'a :: linorder])"
  using assms
proof (cases xs rule: rev_cases)
  case (snoc ys y)
  with assms show ?thesis by (fastforce simp: sorted_wrt_append)
qed simp

lemma find_SomeD: "find P xs = Some x \<Longrightarrow> x \<in> set xs \<and> P x"
  by (induction xs) (auto split: if_splits)

lemma option_eqI: "(\<And>v. x = Some v \<longleftrightarrow> y = Some v) \<Longrightarrow> x = y"
  by (cases x; cases y) auto

end
