(* ===== verification/Fjall_Engine.thy ===== *)
theory Fjall_Engine
  imports Kv_Prelude
begin

text \<open>
  The interface of the third-party storage engine. The repository stores everything in
  the crate \<^verbatim>\<open>fjall\<close>, whose sources are not part of it, so the engine is a
  parameter of every definition that touches storage: a record \<open>'s env\<close> of the calls the
  code makes, over an engine state \<open>'s\<close> nothing is assumed of. The wall clock
  \<^verbatim>\<open>SystemTime::now\<close> is read through the same record. Every call may fail, at any time:
  that is the \<open>Inl\<close> of its result.

  What the code relies on is the locale \<open>fjall\<close>: its parameter \<open>view\<close> gives the logical
  contents of an engine state, reads return the contents and keep them, an ordered scan
  yields the entries in key order up to its first error, and a batch is atomic. The
  locale \<open>fjall_reliable\<close> adds that no call fails. Both are interpreted on an in-memory
  engine (\<open>mem_env\<close>), and \<open>fjall\<close> also on one that follows a schedule of faults
  (\<open>flaky_env\<close>).
\<close>

section \<open>The calls of the engine\<close>

text \<open>The code never inspects an engine error, it only displays it.\<close>

datatype fjall_error = Fjall_Error string

text \<open>The handles \<^verbatim>\<open>p_default\<close>, \<^verbatim>\<open>p_lock\<close> and \<^verbatim>\<open>p_write\<close> of a \<^verbatim>\<open>StorageEngine\<close>.\<close>

datatype partition = P_Default | P_Lock | P_Write

datatype batch_op = Insert partition bytes bytes | Remove partition bytes

type_synonym batch = "batch_op list"
type_synonym view = "partition \<Rightarrow> bytes \<Rightarrow> bytes option"
type_synonym items = "(fjall_error + bytes \<times> bytes) list"

record 's env =
  fj_get :: "partition \<Rightarrow> bytes \<Rightarrow> 's \<Rightarrow> (fjall_error + bytes option) \<times> 's"
  fj_range_from :: "partition \<Rightarrow> bytes \<Rightarrow> 's \<Rightarrow> items \<times> 's"
  fj_iter :: "partition \<Rightarrow> 's \<Rightarrow> items \<times> 's"
  fj_commit :: "batch \<Rightarrow> 's \<Rightarrow> (fjall_error + unit) \<times> 's"
  sys_now :: "'s \<Rightarrow> u64 \<times> 's"

section \<open>The documented behaviour\<close>

fun apply_op :: "view \<Rightarrow> batch_op \<Rightarrow> view" where
  "apply_op v (Insert p k x) = v(p := (v p)(k \<mapsto> x))"
| "apply_op v (Remove p k) = v(p := (v p)(k := None))"

definition apply_batch :: "batch \<Rightarrow> view \<Rightarrow> view" where
  "apply_batch b v = foldl apply_op v b"

text \<open>The items an iterator hands out, compared with the entries it should yield: they
  agree up to the first error.\<close>

fun yields :: "('e + 'a) list \<Rightarrow> 'a list \<Rightarrow> bool" where
  "yields [] xs \<longleftrightarrow> xs = []"
| "yields (Inl e # ys) xs \<longleftrightarrow> True"
| "yields (Inr y # ys) xs \<longleftrightarrow> (case xs of [] \<Rightarrow> False | x # xs' \<Rightarrow> x = y \<and> yields ys xs')"

text \<open>The entries of a partition from \<open>lo\<close> on, in key order.\<close>

definition scan_of :: "(bytes \<Rightarrow> bytes option) \<Rightarrow> bytes \<Rightarrow> (bytes \<times> bytes) list \<Rightarrow> bool" where
  "scan_of m lo kvs \<longleftrightarrow> sorted_wrt (<) (map fst kvs) \<and>
     (\<forall>k x. (k, x) \<in> set kvs \<longleftrightarrow> lo \<le> k \<and> m k = Some x)"

lemma apply_batch_Nil [simp, view_simps]: "apply_batch [] v = v"
  by (simp add: apply_batch_def)

lemma apply_batch_Cons [simp, view_simps]: "apply_batch (x # b) v = apply_batch b (apply_op v x)"
  by (simp add: apply_batch_def)

lemma apply_batch_append [simp, view_simps]:
  "apply_batch (a @ b) v = apply_batch b (apply_batch a v)"
  by (simp add: apply_batch_def)

lemma yields_map_Inr [simp]: "yields (map Inr xs) ys \<longleftrightarrow> xs = ys"
  by (induction xs arbitrary: ys) (auto split: list.splits)

lemma yields_Inr_Cons [simp]: "yields (Inr y # ys) (x # xs) \<longleftrightarrow> x = y \<and> yields ys xs"
  by simp

lemma scan_of_sorted: "scan_of m lo kvs \<Longrightarrow> sorted_wrt (<) (map fst kvs)"
  by (simp add: scan_of_def)

lemma scan_of_mem: "scan_of m lo kvs \<Longrightarrow> (k, x) \<in> set kvs \<longleftrightarrow> lo \<le> k \<and> m k = Some x"
  by (simp add: scan_of_def)

text \<open>The entries of a scan are determined by the contents.\<close>

lemma sorted_wrt_less_fst_unique:
  fixes xs ys :: "('a :: linorder \<times> 'b) list"
  assumes "sorted_wrt (<) (map fst xs)" "sorted_wrt (<) (map fst ys)" "set xs = set ys"
  shows "xs = ys"
proof -
  have d: "distinct (map fst xs)" "distinct (map fst ys)"
    using assms(1,2) by (simp_all add: strict_sorted_iff)
  have "map fst xs = map fst ys"
    by (rule sorted_distinct_set_unique)
       (use assms d in \<open>simp_all add: strict_sorted_iff\<close>)
  with d assms(3) show ?thesis
    by (metis distinct_map inj_on_map_eq_map sup.idem)
qed

lemma scan_of_unique: "scan_of m lo xs \<Longrightarrow> scan_of m lo ys \<Longrightarrow> xs = ys"
  by (rule sorted_wrt_less_fst_unique) (auto simp: scan_of_def)

locale fjall =
  fixes E :: "'s env" and view :: "'s \<Rightarrow> view"
  assumes get_keeps: "fj_get E p k s = (r, s') \<Longrightarrow> view s' = view s"
    and get_value: "fj_get E p k s = (Inr v, s') \<Longrightarrow> v = view s p k"
    and range_keeps: "fj_range_from E p lo s = (its, s') \<Longrightarrow> view s' = view s"
    and range_yields: "fj_range_from E p lo s = (its, s') \<Longrightarrow>
      \<exists>kvs. yields its kvs \<and> scan_of (view s p) lo kvs"
    and iter_keeps: "fj_iter E p s = (its, s') \<Longrightarrow> view s' = view s"
    and iter_yields: "fj_iter E p s = (its, s') \<Longrightarrow>
      \<exists>kvs. yields its kvs \<and> scan_of (view s p) [] kvs"
    and commit_ok: "fj_commit E b s = (Inr u, s') \<Longrightarrow> view s' = apply_batch b (view s)"
    and commit_err: "fj_commit E b s = (Inl e, s') \<Longrightarrow> view s' = view s"
    and now_keeps: "sys_now E s = (n, s') \<Longrightarrow> view s' = view s"

locale fjall_reliable = fjall +
  assumes get_total: "\<exists>v s'. fj_get E p k s = (Inr v, s')"
    and range_total: "\<exists>kvs s'. fj_range_from E p lo s = (map Inr kvs, s')"
    and iter_total: "\<exists>kvs s'. fj_iter E p s = (map Inr kvs, s')"
    and commit_total: "\<exists>s'. fj_commit E b s = (Inr (), s')"
begin

lemma get_reliable:
  obtains s' where "fj_get E p k s = (Inr (view s p k), s')" and "view s' = view s"
  using get_total [of p k s] get_value get_keeps by blast

lemma range_reliable:
  obtains kvs s' where "fj_range_from E p lo s = (map Inr kvs, s')"
    and "scan_of (view s p) lo kvs" and "view s' = view s"
  using range_total [of p lo s] range_yields range_keeps by fastforce

lemma iter_reliable:
  obtains kvs s' where "fj_iter E p s = (map Inr kvs, s')"
    and "scan_of (view s p) [] kvs" and "view s' = view s"
  using iter_total [of p s] iter_yields iter_keeps by fastforce

lemma commit_reliable:
  obtains s' where "fj_commit E b s = (Inr (), s')" and "view s' = apply_batch b (view s)"
  using commit_total [of b s] commit_ok by blast

lemma get_never_fails: "fj_get E p k s \<noteq> (Inl e, s')"
  using get_total [of p k s] by auto

end

section \<open>An in-memory engine\<close>

record mem_db =
  m_parts :: "partition \<Rightarrow> (bytes \<times> bytes) list"
  m_clock :: "u64 list"
  m_faults :: "bool list"

definition mem_view :: "mem_db \<Rightarrow> view" where
  "mem_view d p = map_of (m_parts d p)"

definition mem_entries :: "(bytes \<times> bytes) list \<Rightarrow> (bytes \<times> bytes) list" where
  "mem_entries kvs = map (\<lambda>k. (k, the (map_of kvs k))) (sort (remdups (map fst kvs)))"

definition mem_get :: "partition \<Rightarrow> bytes \<Rightarrow> mem_db \<Rightarrow> (fjall_error + bytes option) \<times> mem_db" where
  "mem_get p k d = (Inr (map_of (m_parts d p) k), d)"

definition mem_range_from :: "partition \<Rightarrow> bytes \<Rightarrow> mem_db \<Rightarrow> items \<times> mem_db" where
  "mem_range_from p lo d =
     (map Inr (filter (\<lambda>kv. lo \<le> fst kv) (mem_entries (m_parts d p))), d)"

definition mem_iter :: "partition \<Rightarrow> mem_db \<Rightarrow> items \<times> mem_db" where
  "mem_iter p d = (map Inr (mem_entries (m_parts d p)), d)"

fun mem_op :: "mem_db \<Rightarrow> batch_op \<Rightarrow> mem_db" where
  "mem_op d (Insert p k x) = d\<lparr>m_parts := (m_parts d)(p := (k, x) # m_parts d p)\<rparr>"
| "mem_op d (Remove p k) =
     d\<lparr>m_parts := (m_parts d)(p := filter (\<lambda>kv. fst kv \<noteq> k) (m_parts d p))\<rparr>"

definition mem_commit :: "batch \<Rightarrow> mem_db \<Rightarrow> (fjall_error + unit) \<times> mem_db" where
  "mem_commit b d = (Inr (), foldl mem_op d b)"

fun mem_now :: "mem_db \<Rightarrow> u64 \<times> mem_db" where
  "mem_now d = (case m_clock d of [] \<Rightarrow> (0, d) | n # ns \<Rightarrow> (n, d\<lparr>m_clock := ns\<rparr>))"

definition mem_env :: "mem_db env" where
  "mem_env = \<lparr>fj_get = mem_get, fj_range_from = mem_range_from, fj_iter = mem_iter,
     fj_commit = mem_commit, sys_now = mem_now\<rparr>"

text \<open>The same engine driven by a schedule of faults: each call takes one entry of the
  schedule and fails when it is \<open>True\<close>.\<close>

definition flaky :: "(mem_db \<Rightarrow> (fjall_error + 'a) \<times> mem_db) \<Rightarrow> mem_db \<Rightarrow> (fjall_error + 'a) \<times> mem_db" where
  "flaky f d = (case m_faults d of [] \<Rightarrow> f d
     | b # bs \<Rightarrow> if b then (Inl (Fjall_Error ''io''), d\<lparr>m_faults := bs\<rparr>) else f (d\<lparr>m_faults := bs\<rparr>))"

definition flaky_items :: "(mem_db \<Rightarrow> items \<times> mem_db) \<Rightarrow> mem_db \<Rightarrow> items \<times> mem_db" where
  "flaky_items f d = (case m_faults d of [] \<Rightarrow> f d
     | b # bs \<Rightarrow> if b then ([Inl (Fjall_Error ''io'')], d\<lparr>m_faults := bs\<rparr>) else f (d\<lparr>m_faults := bs\<rparr>))"

definition flaky_env :: "mem_db env" where
  "flaky_env = \<lparr>fj_get = (\<lambda>p k. flaky (mem_get p k)),
     fj_range_from = (\<lambda>p lo. flaky_items (mem_range_from p lo)),
     fj_iter = (\<lambda>p. flaky_items (mem_iter p)),
     fj_commit = (\<lambda>b. flaky (mem_commit b)), sys_now = mem_now\<rparr>"

lemmas mem_env_defs = mem_env_def mem_get_def mem_range_from_def mem_iter_def mem_commit_def

lemma map_of_m_parts: "map_of (m_parts d p) = mem_view d p"
  by (simp add: mem_view_def)

lemma scan_of_mem_entries: "scan_of (map_of kvs) [] (mem_entries kvs)"
proof -
  have "(k, x) \<in> set (mem_entries kvs) \<longleftrightarrow> map_of kvs k = Some x" for k x
  proof -
    have "(k, x) \<in> set (mem_entries kvs) \<longleftrightarrow> k \<in> dom (map_of kvs) \<and> x = the (map_of kvs k)"
      by (auto simp: mem_entries_def dom_map_of_conv_image_fst)
    then show ?thesis by auto
  qed
  then show ?thesis
    by (simp add: scan_of_def mem_entries_def comp_def strict_sorted_iff)
qed

lemma scan_of_filter: "scan_of m [] kvs \<Longrightarrow> scan_of m lo (filter (\<lambda>kv. lo \<le> fst kv) kvs)"
  by (auto simp: scan_of_def filter_map [unfolded comp_def, symmetric] sorted_wrt_filter)

lemma map_of_filter_neq:
  "map_of (filter (\<lambda>kv. fst kv \<noteq> k) kvs) = (map_of kvs)(k := None)"
  by (induction kvs) (auto simp: fun_eq_iff)

lemma mem_view_op [simp]: "mem_view (mem_op d x) = apply_op (mem_view d) x"
  by (cases x) (auto simp: mem_view_def map_of_filter_neq fun_eq_iff)

lemma mem_view_ops [simp]: "mem_view (foldl mem_op d b) = apply_batch b (mem_view d)"
  by (induction b arbitrary: d) simp_all

lemma mem_view_more [simp]:
  "mem_view (d\<lparr>m_clock := c\<rparr>) = mem_view d" "mem_view (d\<lparr>m_faults := f\<rparr>) = mem_view d"
  by (simp_all add: mem_view_def fun_eq_iff)

lemma scan_of_mem_view [simp]:
  "scan_of (mem_view d p) [] (mem_entries (m_parts d p))"
  "scan_of (mem_view d p) lo (filter (\<lambda>kv. lo \<le> fst kv) (mem_entries (m_parts d p)))"
  by (simp_all add: mem_view_def scan_of_mem_entries scan_of_filter)

interpretation mem: fjall_reliable mem_env mem_view
  by unfold_locales (auto simp: mem_env_defs map_of_m_parts split: list.splits)

interpretation flaky: fjall flaky_env mem_view
  by unfold_locales
     (auto simp: flaky_env_def flaky_def flaky_items_def mem_env_defs map_of_m_parts
        intro: scan_of_mem_view split: list.splits if_splits)

end
