(* ===== verification/Mvcc_Codec.thy ===== *)
theory Mvcc_Codec
  imports Fjall_Engine
begin

unbundle bit_operations_syntax

text \<open>
  The byte formats of the storage crate: versioned keys (\<^verbatim>\<open>storage/src/mvcc/key.rs\<close>),
  write records (\<^verbatim>\<open>storage/src/mvcc/mod.rs\<close>) and locks (\<^verbatim>\<open>storage/src/lock.rs\<close>).

  Two interfaces are stated as locales. \<open>byte_codec\<close> is what the rest of the storage
  relies on for a value stored in a partition (decoding undoes encoding), with the facts
  on a partition read through its decoder. \<open>versioned_keys\<close> is what the MVCC scans rely
  on: encoding and decoding are inverse, later timestamps of one key sort first, and
  between two versions of a key lie only keys that extend it or that it extends. From
  these laws follows the fact every scan of the program needs, \<open>versions_scan\<close>: on a
  partition whose user keys are prefix-free, the entries a scan meets before it leaves
  the key are exactly the versions of the key up to the seek timestamp, newest first.
\<close>

section \<open>Versioned keys\<close>

datatype KeyError = TooShort

definition key_encode :: "bytes \<Rightarrow> u64 \<Rightarrow> bytes" where
  "key_encode user_key ts = user_key @ u64_to_be_bytes (NOT ts)"

definition key_decode :: "bytes \<Rightarrow> KeyError + bytes \<times> u64" where
  "key_decode encoded =
     (if length encoded < 8 then Inl TooShort
      else let split_idx = length encoded - 8;
               user_key = take split_idx encoded;
               inverted_ts = u64_from_be_bytes (drop split_idx encoded)
           in Inr (user_key, NOT inverted_ts))"

section \<open>Write records and locks\<close>

datatype OpType = Put | Delete | Rollback

text \<open>The discriminants of the \<^verbatim>\<open>enum\<close>, as \<^verbatim>\<open>op as u8\<close> gives them.\<close>

fun op_byte :: "OpType \<Rightarrow> u8" where
  "op_byte Put = 0"
| "op_byte Delete = 1"
| "op_byte Rollback = 2"

record WriteRecord =
  wr_start_ts :: u64
  wr_op :: OpType

definition wr_new :: "u64 \<Rightarrow> OpType \<Rightarrow> WriteRecord" where
  "wr_new start_ts op = \<lparr>wr_start_ts = start_ts, wr_op = op\<rparr>"

definition wr_to_bytes :: "WriteRecord \<Rightarrow> bytes" where
  "wr_to_bytes w = op_byte (wr_op w) # u64_to_be_bytes (wr_start_ts w)"

definition wr_from_bytes :: "bytes \<Rightarrow> WriteRecord option" where
  "wr_from_bytes bs =
     (if length bs < 9 then None
      else let start_ts = u64_from_be_bytes (slice 1 9 bs) in
        if bs ! 0 = 0 then Some \<lparr>wr_start_ts = start_ts, wr_op = Put\<rparr>
        else if bs ! 0 = 1 then Some \<lparr>wr_start_ts = start_ts, wr_op = Delete\<rparr>
        else if bs ! 0 = 2 then Some \<lparr>wr_start_ts = start_ts, wr_op = Rollback\<rparr>
        else None)"

datatype LockError = DecodeError string

record Lock =
  lock_primary_key :: bytes
  lock_start_ts :: u64
  lock_ttl :: u64
  lock_op :: OpType

definition lock_new :: "bytes \<Rightarrow> u64 \<Rightarrow> u64 \<Rightarrow> OpType \<Rightarrow> Lock" where
  "lock_new primary_key start_ts ttl op =
     \<lparr>lock_primary_key = primary_key, lock_start_ts = start_ts, lock_ttl = ttl, lock_op = op\<rparr>"

definition lock_to_bytes :: "Lock \<Rightarrow> bytes" where
  "lock_to_bytes l =
     [op_byte (lock_op l)] @ u64_to_be_bytes (lock_start_ts l) @ u64_to_be_bytes (lock_ttl l) @
     u32_to_be_bytes (word_of_nat (length (lock_primary_key l))) @ lock_primary_key l"

definition lock_from_bytes :: "bytes \<Rightarrow> LockError + Lock" where
  "lock_from_bytes bs =
     (if length bs < 21 then Inl (DecodeError ''Payload too short'')
      else if bs ! 0 \<noteq> 0 \<and> bs ! 0 \<noteq> 1 then Inl (DecodeError ''Invalid OpType byte'')
      else
        let op = (if bs ! 0 = 0 then Put else Delete);
            start_ts = u64_from_be_bytes (slice 1 9 bs);
            ttl = u64_from_be_bytes (slice 9 17 bs);
            primary_len = unat (u32_from_be_bytes (slice 17 21 bs))
        in if length bs < 21 + primary_len then Inl (DecodeError ''Truncated primary key bytes'')
           else Inr \<lparr>lock_primary_key = slice 21 (21 + primary_len) bs, lock_start_ts = start_ts,
                     lock_ttl = ttl, lock_op = op\<rparr>)"

definition lock_decode :: "bytes \<Rightarrow> Lock option" where
  "lock_decode bs = (case lock_from_bytes bs of Inl _ \<Rightarrow> None | Inr l \<Rightarrow> Some l)"

text \<open>The locks the format can hold: the operation is a put or a delete, and the length of
  the primary key fits the \<^verbatim>\<open>u32\<close> length field.\<close>

definition valid_lock :: "Lock \<Rightarrow> bool" where
  "valid_lock l \<longleftrightarrow> lock_op l \<noteq> Rollback \<and> length (lock_primary_key l) < 2 ^ 32"

section \<open>The interface of a stored value\<close>

text \<open>A partition read through the decoder of its values.\<close>

definition typed :: "(bytes \<Rightarrow> 'a option) \<Rightarrow> (bytes \<Rightarrow> bytes option) \<Rightarrow> bytes \<Rightarrow> 'a option" where
  "typed from m k = Option.bind (m k) from"

locale byte_codec =
  fixes to_bytes :: "'a \<Rightarrow> bytes" and from_bytes :: "bytes \<Rightarrow> 'a option" and valid :: "'a \<Rightarrow> bool"
  assumes from_to: "valid x \<Longrightarrow> from_bytes (to_bytes x) = Some x"
    and from_valid: "from_bytes bs = Some x \<Longrightarrow> valid x"
begin

lemma to_bytes_inject: "valid x \<Longrightarrow> valid y \<Longrightarrow> to_bytes x = to_bytes y \<longleftrightarrow> x = y"
  by (metis from_to option.inject)

lemma typed_insert:
  "valid x \<Longrightarrow> typed from_bytes (m(k \<mapsto> to_bytes x)) = (typed from_bytes m)(k \<mapsto> x)"
  by (auto simp: typed_def from_to fun_eq_iff)

lemma typed_remove: "typed from_bytes (m(k := None)) = (typed from_bytes m)(k := None)"
  by (auto simp: typed_def fun_eq_iff)

lemma typed_valid: "typed from_bytes m k = Some x \<Longrightarrow> valid x"
  by (auto simp: typed_def from_valid bind_eq_Some_conv)

end

lemma nth_0_op_byte [simp]:
  "op_byte op = 0 \<longleftrightarrow> op = Put" "op_byte op = 1 \<longleftrightarrow> op = Delete" "op_byte op = 2 \<longleftrightarrow> op = Rollback"
  by (cases op; simp)+

lemma wr_from_to_bytes [simp, codec_simps]: "wr_from_bytes (wr_to_bytes w) = Some w"
  by (cases "wr_op w")
     (auto simp: wr_from_bytes_def wr_to_bytes_def slice_def Let_def intro: WriteRecord.equality)

lemma lock_from_to_bytes [codec_simps]:
  assumes "valid_lock l"
  shows "lock_from_bytes (lock_to_bytes l) = Inr l"
proof -
  let ?bs = "lock_to_bytes l"
  have len: "length ?bs = 21 + length (lock_primary_key l)"
    by (simp add: lock_to_bytes_def)
  have parts: "slice 1 9 ?bs = u64_to_be_bytes (lock_start_ts l)"
    "slice 9 17 ?bs = u64_to_be_bytes (lock_ttl l)"
    "slice 17 21 ?bs = u32_to_be_bytes (word_of_nat (length (lock_primary_key l)))"
    "slice 21 (21 + length (lock_primary_key l)) ?bs = lock_primary_key l"
    by (simp_all add: lock_to_bytes_def slice_def)
  have "unat (word_of_nat (length (lock_primary_key l)) :: u32) = length (lock_primary_key l)"
    using assms by (simp add: valid_lock_def unat_of_nat)
  moreover have "?bs ! 0 = op_byte (lock_op l)"
    by (simp add: lock_to_bytes_def)
  ultimately show ?thesis
    using assms len parts
    by (cases "lock_op l") (auto simp: lock_from_bytes_def valid_lock_def Let_def)
qed

lemma length_slice: "length (slice a b xs) = min (b - a) (length xs - a)"
  by (simp add: slice_def)

lemma lock_from_bytes_valid: "lock_from_bytes bs = Inr l \<Longrightarrow> valid_lock l"
  using unat_u32_less [of "u32_from_be_bytes (slice 17 21 bs)"]
  by (auto simp: lock_from_bytes_def valid_lock_def Let_def length_slice split: if_splits)

interpretation wrc: byte_codec wr_to_bytes wr_from_bytes "\<lambda>_. True"
  by unfold_locales simp_all

interpretation lockc: byte_codec lock_to_bytes lock_decode valid_lock
  by unfold_locales
     (auto simp: lock_decode_def lock_from_to_bytes lock_from_bytes_valid split: sum.splits)

lemma lock_decode_Some: "lock_decode bs = Some l \<longleftrightarrow> lock_from_bytes bs = Inr l"
  by (auto simp: lock_decode_def split: sum.splits)

lemma lock_from_bytes_rollback:
  "lock_op l = Rollback \<Longrightarrow> lock_from_bytes (lock_to_bytes l) = Inl (DecodeError ''Invalid OpType byte'')"
  by (simp add: lock_from_bytes_def lock_to_bytes_def)

section \<open>The interface of versioned keys\<close>

text \<open>No key is a proper prefix of another.\<close>

definition prefix_free :: "bytes set \<Rightarrow> bool" where
  "prefix_free K \<longleftrightarrow> (\<forall>k \<in> K. \<forall>k' \<in> K. prefix k k' \<longrightarrow> k = k')"

text \<open>The partition holds only versions of keys of \<open>K\<close>.\<close>

definition keyed_by :: "bytes set \<Rightarrow> (bytes \<Rightarrow> 'a option) \<Rightarrow> bool" where
  "keyed_by K m \<longleftrightarrow> (\<forall>ek \<in> dom m. \<exists>k \<in> K. \<exists>t. ek = key_encode k t)"

text \<open>The versions of one key a scan meets before it leaves the key.\<close>

fun versions :: "bytes \<Rightarrow> (bytes \<times> bytes) list \<Rightarrow> (u64 \<times> bytes) list" where
  "versions k [] = []"
| "versions k ((ek, b) # kvs) =
     (case key_decode ek of
        Inl _ \<Rightarrow> []
      | Inr (k', t) \<Rightarrow> if k' = k then (t, b) # versions k kvs else [])"

locale versioned_keys =
  fixes enc :: "bytes \<Rightarrow> u64 \<Rightarrow> bytes" and dec :: "bytes \<Rightarrow> KeyError + bytes \<times> u64"
  assumes dec_enc: "dec (enc k t) = Inr (k, t)"
    and dec_Inr: "dec ek = Inr (k, t) \<Longrightarrow> ek = enc k t"
    and enc_le: "enc k t \<le> enc k u \<longleftrightarrow> u \<le> t"
    and enc_between: "enc k t \<le> enc k' u \<Longrightarrow> enc k' u \<le> enc k t' \<Longrightarrow> prefix k k' \<or> prefix k' k"
    and enc_less_other: "\<not> prefix k k' \<Longrightarrow> \<not> prefix k' k \<Longrightarrow> enc k t < enc k' u \<longleftrightarrow> k < k'"
begin

lemma enc_inject: "enc k t = enc k' u \<longleftrightarrow> k = k' \<and> t = u"
  by (metis Inr_inject Pair_inject dec_enc)

lemma enc_less: "enc k t < enc k u \<longleftrightarrow> u < t"
  by (simp add: enc_le enc_inject order_less_le) auto

lemma between_same_key:
  assumes "prefix_free K" "k \<in> K" "k' \<in> K" "enc k t \<le> enc k' u" "enc k' u \<le> enc k t'"
  shows "k' = k"
  using assms enc_between [of k t k' u t'] by (auto simp: prefix_free_def)

lemma enc_order:
  assumes "prefix_free K" "k \<in> K" "k' \<in> K"
  shows "enc k t < enc k' u \<longleftrightarrow> k < k' \<or> k = k' \<and> u < t"
proof (cases "k = k'")
  case False
  with assms have "\<not> prefix k k'" "\<not> prefix k' k"
    by (auto simp: prefix_free_def)
  with False show ?thesis by (simp add: enc_less_other)
qed (simp add: enc_less)

end

lemma length_key_encode: "length (key_encode k t) = length k + 8"
  by (simp add: key_encode_def)

lemma key_decode_encode [simp, codec_simps]: "key_decode (key_encode k t) = Inr (k, t)"
  by (simp add: key_decode_def key_encode_def Let_def)

lemma key_decode_Inr: "key_decode ek = Inr (k, t) \<Longrightarrow> ek = key_encode k t"
  by (auto simp: key_decode_def key_encode_def Let_def u64_to_from_be_bytes split: if_splits)

lemma uint_not_u64: "uint (NOT (x :: u64)) = 2 ^ 64 - 1 - uint x"
proof -
  have "uint (NOT x) = (- uint x - 1 + 2 ^ 64) mod 2 ^ 64"
    by (simp only: mod_add_self2)
       (simp add: unsigned_not_eq take_bit_eq_mod not_int_def del: not_eq_complement)
  also have "\<dots> = - uint x - 1 + 2 ^ 64"
  proof (rule mod_pos_pos_trivial)
    show "0 \<le> - uint x - 1 + 2 ^ 64" using uint_lt2p [of x] by simp
    show "- uint x - 1 + 2 ^ 64 < (2 :: int) ^ 64" using uint_ge_0 [of x] by linarith
  qed
  finally show ?thesis by simp
qed

lemma key_encode_le: "key_encode k t \<le> key_encode k u \<longleftrightarrow> u \<le> t"
  by (simp add: key_encode_def word_le_def uint_not_u64)

lemma key_encode_between:
  assumes "key_encode k t \<le> key_encode k' u" "key_encode k' u \<le> key_encode k t'"
  shows "prefix k k' \<or> prefix k' k"
proof -
  have "prefix k (k' @ u64_to_be_bytes (NOT u))"
    using assms between_prefix unfolding key_encode_def by blast
  then show ?thesis
    by (metis prefixI prefix_same_cases)
qed

lemma key_encode_less_other:
  "\<not> prefix k k' \<Longrightarrow> \<not> prefix k' k \<Longrightarrow> key_encode k t < key_encode k' u \<longleftrightarrow> k < k'"
  by (simp add: key_encode_def append_less_no_prefix)

interpretation vk: versioned_keys key_encode key_decode
  by unfold_locales
     (simp_all add: key_decode_Inr key_encode_le key_encode_between key_encode_less_other)

lemmas key_encode_inject [simp] = vk.enc_inject
lemmas key_encode_less = vk.enc_less

section \<open>Scanning the versions of a key\<close>

lemma versions_eq:
  "versions k kvs =
     map (\<lambda>(ek, b). (snd (projr (key_decode ek)), b))
       (takeWhile (\<lambda>(ek, b). \<exists>t. key_decode ek = Inr (k, t)) kvs)"
  by (induction k kvs rule: versions.induct) (auto split: sum.splits)

lemma takeWhile_mem_sorted:
  assumes "sorted_wrt (<) (map fst xs)" "x \<in> set xs"
    and "\<And>y. y \<in> set xs \<Longrightarrow> fst y \<le> fst x \<Longrightarrow> P y"
  shows "(x :: 'a :: linorder \<times> 'b) \<in> set (takeWhile P xs)"
  using assms
proof (induction xs)
  case (Cons y ys)
  show ?case
  proof (cases "x = y")
    case False
    then have "x \<in> set ys" and "fst y \<le> fst x"
      using Cons.prems by (auto simp: less_imp_le)
    moreover from this have "P y" using Cons.prems by simp
    ultimately show ?thesis using Cons by auto
  qed (use Cons.prems in auto)
qed simp

lemma versions_mem:
  "(t, b) \<in> set (versions k kvs) \<Longrightarrow> (key_encode k t, b) \<in> set kvs"
proof (induction k kvs rule: versions.induct)
  case (2 k ek c kvs)
  from "2.prems" obtain u where u: "key_decode ek = Inr (k, u)"
    by (cases "key_decode ek") (auto split: if_splits)
  with "2.prems" consider "t = u" "b = c" | "(t, b) \<in> set (versions k kvs)"
    by auto
  then show ?case
    using "2.IH" [OF u] key_decode_Inr [OF u] by cases simp_all
qed simp

lemma versions_sorted:
  assumes "sorted_wrt (<) (map fst kvs)"
  shows "sorted_wrt (>) (map fst (versions k kvs))"
  using assms
proof (induction k kvs rule: versions.induct)
  case (2 k ek b kvs)
  show ?case
  proof (cases "\<exists>u. key_decode ek = Inr (k, u)")
    case True
    then obtain u where u: "key_decode ek = Inr (k, u)" ..
    have "t < u" if "(t, c) \<in> set (versions k kvs)" for t c
      using versions_mem [OF that] "2.prems" key_decode_Inr [OF u]
      by (force simp: key_encode_less)
    then show ?thesis
      using u "2.IH" [OF u] "2.prems" by auto
  qed (auto split: sum.splits)
qed simp

lemma versions_scan:
  assumes pf: "prefix_free K" and k: "k \<in> K" and m: "keyed_by K m"
    and scan: "scan_of m (key_encode k ts) kvs"
  shows "set (versions k kvs) = {(t, b). t \<le> ts \<and> m (key_encode k t) = Some b}"
    and "sorted_wrt (>) (map fst (versions k kvs))"
proof -
  show "sorted_wrt (>) (map fst (versions k kvs))"
    using versions_sorted scan_of_sorted [OF scan] .
  have "(t, b) \<in> set (versions k kvs)" if "t \<le> ts" "m (key_encode k t) = Some b" for t b
  proof -
    let ?x = "(key_encode k t, b)"
    have "?x \<in> set kvs"
      using that by (simp add: scan_of_mem [OF scan] key_encode_le)
    then have "?x \<in> set (takeWhile (\<lambda>(ek, b). \<exists>t. key_decode ek = Inr (k, t)) kvs)"
    proof (rule takeWhile_mem_sorted [OF scan_of_sorted [OF scan]])
      fix y assume "y \<in> set kvs" "fst y \<le> fst ?x"
      moreover obtain ek c where y: "y = (ek, c)" by force
      ultimately have ek: "key_encode k ts \<le> ek" "ek \<le> key_encode k t" "m ek = Some c"
        by (auto simp: scan_of_mem [OF scan])
      then obtain k' u where "k' \<in> K" "ek = key_encode k' u"
        using m by (fastforce simp: keyed_by_def)
      then have "ek = key_encode k u"
        using vk.between_same_key [OF pf k] ek by blast
      then show "case y of (ek, b) \<Rightarrow> \<exists>t. key_decode ek = Inr (k, t)"
        by (simp add: y)
    qed
    then show ?thesis
      by (force simp: versions_eq)
  qed
  then show "set (versions k kvs) = {(t, b). t \<le> ts \<and> m (key_encode k t) = Some b}"
    by (auto dest!: versions_mem simp: scan_of_mem [OF scan] key_encode_le)
qed

section \<open>Properties of the encodings\<close>

text \<open>C40. Versioned keys: decoding inverts encoding in both directions (every byte string that
  decodes is the encoding of what it decodes to), and the versions of a key sort from the
  newest to the oldest.\<close>

theorem key_codec:
  "(key_decode ek = Inr (k, t) \<longleftrightarrow> ek = key_encode k t) \<and> (key_encode k t < key_encode k u \<longleftrightarrow> u < t)"
  by (auto simp: key_encode_less dest: key_decode_Inr)

text \<open>Versioned keys of a set in which no key is a prefix of another sort by key first, then
  from the newest version to the oldest; the versions of a key are contiguous.\<close>

lemma key_order:
  assumes "prefix_free K" "k \<in> K" "k' \<in> K"
  shows "key_encode k t < key_encode k' u \<longleftrightarrow> k < k' \<or> k = k' \<and> u < t"
  by (rule vk.enc_order [OF assms])

lemma key_order_example: "key_encode [1, 2] 7 < key_encode [1, 3] 9 \<longleftrightarrow> [1, 2] < [1, 3 :: u8] \<or> [1, 2] = [1, 3 :: u8] \<and> (9 :: u64) < 7"
  by (rule key_order [of "{[1, 2], [1, 3]}"]) (auto simp: prefix_free_def)

text \<open>Locks survive their byte representation exactly when they are locks of puts or deletes and
  the length of the primary key fits its four-byte field.\<close>

lemma lock_codec: "lock_from_bytes (lock_to_bytes l) = Inr l \<longleftrightarrow> valid_lock l"
  using lock_from_to_bytes lock_from_bytes_valid by blast

text \<open>Write records survive their byte representation.\<close>

lemma write_record_codec: "wr_from_bytes (wr_to_bytes r) = Some r \<and> length (wr_to_bytes r) = 9"
  by (intro conjI wr_from_to_bytes) (simp add: wr_to_bytes_def)

end
