(* ===== verification/Mvcc_State.thy ===== *)
theory Mvcc_State
  imports Mvcc_Codec
begin

text \<open>
  The abstract state of the store and how engine contents represent it. The three
  partitions of a \<^verbatim>\<open>StorageEngine\<close> stand for the locks by key, the write records by key
  and commit timestamp, and the values by key and start timestamp (\<open>mvcc\<close>, \<open>abs_mvcc\<close>).
  \<open>wf_store K\<close> is the well-formedness every operation relies on: all stored records
  decode, and all keys, also the primary keys of locks, belong to \<open>K\<close>; \<open>good_keys\<close> asks
  that \<open>K\<close> is prefix-free (the encoding of versioned keys does not separate a key from
  its extensions) and that its keys fit the length field of a lock. The rest of the
  theory says how each batch of the code acts on the abstract state.
\<close>

section \<open>Abstract state\<close>

record mvcc =
  m_locks :: "bytes \<Rightarrow> Lock option"
  m_writes :: "bytes \<times> u64 \<Rightarrow> WriteRecord option"
  m_vals :: "bytes \<times> u64 \<Rightarrow> bytes option"

definition abs_mvcc :: "view \<Rightarrow> mvcc" where
  "abs_mvcc v =
     \<lparr>m_locks = typed lock_decode (v P_Lock),
      m_writes = (\<lambda>(k, t). typed wr_from_bytes (v P_Write) (key_encode k t)),
      m_vals = (\<lambda>(k, t). v P_Default (key_encode k t))\<rparr>"

definition good_keys :: "bytes set \<Rightarrow> bool" where
  "good_keys K \<longleftrightarrow> prefix_free K \<and> (\<forall>k \<in> K. length k < 2 ^ 32)"

definition wf_store :: "bytes set \<Rightarrow> view \<Rightarrow> bool" where
  "wf_store K v \<longleftrightarrow>
     keyed_by K (v P_Write) \<and>
     (\<forall>ek b. v P_Write ek = Some b \<longrightarrow> wr_from_bytes b \<noteq> None) \<and>
     (\<forall>k b. v P_Lock k = Some b \<longrightarrow>
        k \<in> K \<and> (\<exists>l. lock_from_bytes b = Inr l \<and> lock_primary_key l \<in> K))"

section \<open>Reading the abstract state\<close>

lemma good_keysD:
  assumes "good_keys K"
  shows "prefix_free K" and "k \<in> K \<Longrightarrow> length k < 2 ^ 32"
  using assms by (auto simp: good_keys_def)

lemma m_locks_abs: "m_locks (abs_mvcc v) = typed lock_decode (v P_Lock)"
  by (simp add: abs_mvcc_def)

lemma m_writes_abs: "m_writes (abs_mvcc v) (k, t) = typed wr_from_bytes (v P_Write) (key_encode k t)"
  by (simp add: abs_mvcc_def)

lemma m_vals_abs: "m_vals (abs_mvcc v) (k, t) = v P_Default (key_encode k t)"
  by (simp add: abs_mvcc_def)

lemma wf_keyed: "wf_store K v \<Longrightarrow> keyed_by K (v P_Write)"
  by (simp add: wf_store_def)

lemma wf_store_lockD:
  "wf_store K v \<Longrightarrow> v P_Lock k = Some b \<Longrightarrow>
   k \<in> K \<and> (\<exists>l. lock_from_bytes b = Inr l \<and> lock_primary_key l \<in> K)"
  unfolding wf_store_def by blast

lemma wf_store_writeD: "wf_store K v \<Longrightarrow> v P_Write ek = Some b \<Longrightarrow> \<exists>r. wr_from_bytes b = Some r"
  unfolding wf_store_def by blast

lemma wf_lock:
  assumes "wf_store K v" "v P_Lock k = Some b"
  obtains l where "lock_from_bytes b = Inr l" "m_locks (abs_mvcc v) k = Some l"
    "k \<in> K" "lock_primary_key l \<in> K" "valid_lock l"
  using assms lock_from_bytes_valid
  by (fastforce simp: wf_store_def m_locks_abs typed_def lock_decode_def)

lemma wf_lock_None: "v P_Lock k = None \<Longrightarrow> m_locks (abs_mvcc v) k = None"
  by (simp add: m_locks_abs typed_def)

lemma m_locks_SomeD:
  assumes "m_locks (abs_mvcc v) k = Some l"
  obtains b where "v P_Lock k = Some b" "lock_from_bytes b = Inr l"
  using assms by (auto simp: m_locks_abs typed_def bind_eq_Some_conv lock_decode_Some)

lemma wf_m_locks:
  assumes "wf_store K v" "m_locks (abs_mvcc v) k = Some l"
  shows "k \<in> K" "lock_primary_key l \<in> K" "valid_lock l"
proof -
  from assms(2) obtain b where "v P_Lock k = Some b" "lock_from_bytes b = Inr l"
    by (rule m_locks_SomeD)
  with wf_store_lockD [OF assms(1)] show "k \<in> K" "lock_primary_key l \<in> K" "valid_lock l"
    by (fastforce dest: lock_from_bytes_valid)+
qed

lemma wf_write:
  assumes "wf_store K v" "v P_Write ek = Some b"
  obtains k t r where "k \<in> K" "ek = key_encode k t" "wr_from_bytes b = Some r"
    "m_writes (abs_mvcc v) (k, t) = Some r"
proof -
  from assms obtain r where r: "wr_from_bytes b = Some r"
    using wf_store_writeD by blast
  moreover obtain k t where "k \<in> K" "ek = key_encode k t"
    using assms by (fastforce simp: wf_store_def keyed_by_def)
  ultimately show ?thesis
    using assms(2) by (intro that) (auto simp: m_writes_abs typed_def bind_eq_Some_conv)
qed

section \<open>The records of a key a scan meets\<close>

definition records :: "bytes \<Rightarrow> (bytes \<times> bytes) list \<Rightarrow> (u64 \<times> WriteRecord) list" where
  "records k kvs = map (\<lambda>(t, b). (t, the (wr_from_bytes b))) (versions k kvs)"

lemma records_scan:
  assumes "good_keys K" "k \<in> K" "wf_store K v" "scan_of (v P_Write) (key_encode k ts) kvs"
  shows "set (records k kvs) = {(t, r). t \<le> ts \<and> m_writes (abs_mvcc v) (k, t) = Some r}"
    and "sorted_wrt (>) (map fst (records k kvs))"
proof -
  note vs = versions_scan [OF good_keysD(1) [OF assms(1)] assms(2) wf_keyed [OF assms(3)] assms(4)]
  have "map fst (records k kvs) = map fst (versions k kvs)"
    by (simp add: records_def case_prod_unfold)
  with vs(2) show "sorted_wrt (>) (map fst (records k kvs))" by simp
  note * = wf_store_writeD [OF assms(3)]
  show "set (records k kvs) = {(t, r). t \<le> ts \<and> m_writes (abs_mvcc v) (k, t) = Some r}"
    (is "_ = ?S")
  proof (rule set_eqI)
    fix x :: "u64 \<times> WriteRecord"
    obtain t r where x: "x = (t, r)" by force
    have "x \<in> set (records k kvs) \<longleftrightarrow>
        (\<exists>b. t \<le> ts \<and> v P_Write (key_encode k t) = Some b \<and> r = the (wr_from_bytes b))"
      by (auto simp: records_def vs(1) x image_iff)
    also have "\<dots> \<longleftrightarrow> x \<in> ?S"
      by (force simp: x m_writes_abs typed_def bind_eq_Some_conv dest: *)
    finally show "x \<in> set (records k kvs) \<longleftrightarrow> x \<in> ?S" .
  qed
qed

text \<open>A scan from \<^verbatim>\<open>u64::MAX\<close> meets every record of the key.\<close>

lemma u64_le_max [simp]: "(t :: u64) \<le> -1"
  by (rule word_n1_ge)

lemma records_scan_all:
  assumes "good_keys K" "k \<in> K" "wf_store K v" "scan_of (v P_Write) (key_encode k (-1)) kvs"
  shows "set (records k kvs) = {(t, r). m_writes (abs_mvcc v) (k, t) = Some r}"
  using records_scan(1) [OF assms] by simp

lemma scan_decodes:
  assumes "wf_store K v" "scan_of (v P_Write) lo kvs" "(ek, b) \<in> set kvs"
  shows "\<exists>k t r. key_decode ek = Inr (k, t) \<and> wr_from_bytes b = Some r"
proof -
  have "v P_Write ek = Some b"
    using assms(2,3) by (simp add: scan_of_mem)
  then show ?thesis
    by (rule wf_write [OF assms(1)]) simp
qed

text \<open>All entries of a list decode: the form in which the loops use \<open>scan_decodes\<close>.\<close>

definition decodes :: "(bytes \<times> bytes) list \<Rightarrow> bool" where
  "decodes kvs \<longleftrightarrow> (\<forall>(ek, b) \<in> set kvs. \<exists>k t r. key_decode ek = Inr (k, t) \<and> wr_from_bytes b = Some r)"

lemma scan_of_decodes: "wf_store K v \<Longrightarrow> scan_of (v P_Write) lo kvs \<Longrightarrow> decodes kvs"
  using scan_decodes by (fastforce simp: decodes_def)

lemma decodes_ConsE:
  assumes "decodes (kv # kvs)"
  obtains ek b k t r where "kv = (ek, b)" "key_decode ek = Inr (k, t)" "wr_from_bytes b = Some r"
    "decodes kvs"
  using assms by (cases kv) (auto simp: decodes_def)

lemma records_Nil [simp]: "records k [] = []"
  by (simp add: records_def)

lemma records_Cons [simp]:
  assumes "key_decode ek = Inr (k', t)" "wr_from_bytes b = Some r"
  shows "records k ((ek, b) # kvs) = (if k' = k then (t, r) # records k kvs else [])"
  using assms by (simp add: records_def)

section \<open>What a batch does to the abstract state\<close>

definition set_lock :: "bytes \<Rightarrow> Lock option \<Rightarrow> mvcc \<Rightarrow> mvcc" where
  "set_lock k l m = m\<lparr>m_locks := (m_locks m)(k := l)\<rparr>"

definition put_write :: "bytes \<Rightarrow> u64 \<Rightarrow> WriteRecord \<Rightarrow> mvcc \<Rightarrow> mvcc" where
  "put_write k t r m = m\<lparr>m_writes := (m_writes m)((k, t) \<mapsto> r)\<rparr>"

definition put_val :: "bytes \<Rightarrow> u64 \<Rightarrow> bytes \<Rightarrow> mvcc \<Rightarrow> mvcc" where
  "put_val k t x m = m\<lparr>m_vals := (m_vals m)((k, t) \<mapsto> x)\<rparr>"

lemma m_set_lock [simp]:
  "m_locks (set_lock k l m) = (m_locks m)(k := l)"
  "m_writes (set_lock k l m) = m_writes m" "m_vals (set_lock k l m) = m_vals m"
  by (simp_all add: set_lock_def)

lemma m_put_write [simp]:
  "m_writes (put_write k t r m) = (m_writes m)((k, t) \<mapsto> r)"
  "m_locks (put_write k t r m) = m_locks m" "m_vals (put_write k t r m) = m_vals m"
  by (simp_all add: put_write_def)

lemma m_put_val [simp]:
  "m_vals (put_val k t x m) = (m_vals m)((k, t) \<mapsto> x)"
  "m_locks (put_val k t x m) = m_locks m" "m_writes (put_val k t x m) = m_writes m"
  by (simp_all add: put_val_def)

lemma abs_insert_lock [view_simps]:
  "valid_lock l \<Longrightarrow> abs_mvcc (apply_op v (Insert P_Lock k (lock_to_bytes l))) = set_lock k (Some l) (abs_mvcc v)"
  by (simp add: abs_mvcc_def set_lock_def lockc.typed_insert)

lemma abs_remove_lock [view_simps]:
  "abs_mvcc (apply_op v (Remove P_Lock k)) = set_lock k None (abs_mvcc v)"
  by (simp add: abs_mvcc_def set_lock_def lockc.typed_remove)

lemma abs_insert_write [view_simps]:
  "abs_mvcc (apply_op v (Insert P_Write (key_encode k t) (wr_to_bytes r))) = put_write k t r (abs_mvcc v)"
  by (auto simp: abs_mvcc_def put_write_def wrc.typed_insert fun_eq_iff)

lemma abs_insert_val [view_simps]:
  "abs_mvcc (apply_op v (Insert P_Default (key_encode k t) x)) = put_val k t x (abs_mvcc v)"
  by (auto simp: abs_mvcc_def put_val_def fun_eq_iff)

lemma wf_insert_lock [view_simps]:
  "wf_store K v \<Longrightarrow> k \<in> K \<Longrightarrow> lock_primary_key l \<in> K \<Longrightarrow> valid_lock l \<Longrightarrow>
   wf_store K (apply_op v (Insert P_Lock k (lock_to_bytes l)))"
  by (auto simp: wf_store_def lock_from_to_bytes)

lemma wf_remove_lock [view_simps]: "wf_store K v \<Longrightarrow> wf_store K (apply_op v (Remove P_Lock k))"
  by (auto simp: wf_store_def split: if_splits)

lemma wf_insert_write [view_simps]:
  "wf_store K v \<Longrightarrow> k \<in> K \<Longrightarrow> wf_store K (apply_op v (Insert P_Write (key_encode k t) (wr_to_bytes r)))"
  by (auto simp: wf_store_def keyed_by_def)

lemma wf_remove_write [view_simps]: "wf_store K v \<Longrightarrow> wf_store K (apply_op v (Remove P_Write ek))"
  by (auto simp: wf_store_def keyed_by_def split: if_splits)

lemma wf_insert_val [view_simps]: "wf_store K v \<Longrightarrow> wf_store K (apply_op v (Insert P_Default ek x))"
  by (auto simp: wf_store_def)

lemma wf_remove_val [view_simps]: "wf_store K v \<Longrightarrow> wf_store K (apply_op v (Remove P_Default ek))"
  by (auto simp: wf_store_def)

section \<open>Stores of the in-memory engine\<close>

text \<open>Executable forms of the conditions on keys and stores, for evaluating the model.\<close>

definition good_key_list :: "bytes list \<Rightarrow> bool" where
  "good_key_list ks \<longleftrightarrow> list_all (\<lambda>k. length k < 2 ^ 32 \<and> list_all (\<lambda>k'. prefix k k' \<longrightarrow> k = k') ks) ks"

lemma good_key_list: "good_key_list ks \<Longrightarrow> good_keys (set ks)"
  by (auto simp: good_key_list_def good_keys_def prefix_free_def list_all_iff)

definition wf_mem :: "bytes list \<Rightarrow> mem_db \<Rightarrow> bool" where
  "wf_mem ks d \<longleftrightarrow>
     list_all (\<lambda>(ek, b). (case key_decode ek of Inl _ \<Rightarrow> False | Inr (k, _) \<Rightarrow> k \<in> set ks) \<and>
        wr_from_bytes b \<noteq> None) (m_parts d P_Write) \<and>
     list_all (\<lambda>(k, b). k \<in> set ks \<and>
        (case lock_from_bytes b of Inl _ \<Rightarrow> False | Inr l \<Rightarrow> lock_primary_key l \<in> set ks)) (m_parts d P_Lock)"

lemma wf_mem:
  assumes "wf_mem ks d"
  shows "wf_store (set ks) (mem_view d)"
proof -
  have w: "(\<exists>k \<in> set ks. \<exists>t. ek = key_encode k t) \<and> wr_from_bytes b \<noteq> None"
    if "mem_view d P_Write ek = Some b" for ek b
  proof -
    have "(ek, b) \<in> set (m_parts d P_Write)" using that by (simp add: mem_view_def map_of_SomeD)
    with assms have "case key_decode ek of Inl _ \<Rightarrow> False | Inr (k, _) \<Rightarrow> k \<in> set ks" "wr_from_bytes b \<noteq> None"
      by (auto simp: wf_mem_def list_all_iff)
    then show ?thesis by (cases "key_decode ek") (auto dest: key_decode_Inr)
  qed
  have l: "k \<in> set ks \<and> (\<exists>l. lock_from_bytes b = Inr l \<and> lock_primary_key l \<in> set ks)"
    if "mem_view d P_Lock k = Some b" for k b
  proof -
    have "(k, b) \<in> set (m_parts d P_Lock)" using that by (simp add: mem_view_def map_of_SomeD)
    with assms have "k \<in> set ks"
        "case lock_from_bytes b of Inl _ \<Rightarrow> False | Inr l \<Rightarrow> lock_primary_key l \<in> set ks"
      by (auto simp: wf_mem_def list_all_iff)
    then show ?thesis by (cases "lock_from_bytes b") auto
  qed
  from w l show ?thesis unfolding wf_store_def keyed_by_def by blast
qed

definition mem_init :: "u64 list \<Rightarrow> mem_db" where
  "mem_init clock = \<lparr>m_parts = (\<lambda>_. []), m_clock = clock, m_faults = []\<rparr>"

lemma mem_init_empty:
  "m_locks (abs_mvcc (mem_view (mem_init c))) k = None"
  "m_writes (abs_mvcc (mem_view (mem_init c))) kt = None"
  "m_vals (abs_mvcc (mem_view (mem_init c))) kt = None"
  by (cases kt; simp add: abs_mvcc_def mem_view_def mem_init_def typed_def)+

lemma wf_mem_init: "wf_store K (mem_view (mem_init c))"
  by (simp add: wf_store_def keyed_by_def mem_view_def mem_init_def)

end
