(* ===== verification/Storage_Engine.thy ===== *)
theory Storage_Engine
  imports Mvcc_State
begin

text \<open>
  \<^verbatim>\<open>storage/src/engine.rs\<close> and \<^verbatim>\<open>storage/src/config.rs\<close>: the configuration handed to
  the engine, committing a batch, the garbage collector and the three region queries
  (keys in a range, statistics, median key). Facts on the region queries are here; what
  the collector does to reads is in \<open>Storage_Gc\<close>.
\<close>

section \<open>Configuration\<close>

record StorageConfig =
  max_memtable_size_bytes :: u32
  flush_workers :: nat
  compaction_workers :: nat
  async_journal_flush_ms :: "u64 option"

definition storage_config_default :: StorageConfig where
  "storage_config_default =
     \<lparr>max_memtable_size_bytes = 64 * 1024 * 1024, flush_workers = 2, compaction_workers = 4,
      async_journal_flush_ms = Some 10\<rparr>"

text \<open>The options \<^verbatim>\<open>open_with_config\<close> passes to the engine before it opens the keyspace.\<close>

record KeyspaceOptions =
  ko_flush_workers :: nat
  ko_compaction_workers :: nat
  ko_max_write_buffer_size :: u64
  ko_max_journaling_size :: u64
  ko_fsync_ms :: "16 word option"
  ko_max_memtable_size :: u32

definition keyspace_options :: "StorageConfig \<Rightarrow> KeyspaceOptions" where
  "keyspace_options config =
     \<lparr>ko_flush_workers = flush_workers config,
      ko_compaction_workers = compaction_workers config,
      ko_max_write_buffer_size = ucast (max_memtable_size_bytes config) * 4,
      ko_max_journaling_size = max (ucast (max_memtable_size_bytes config) * 8) (24 * 1024 * 1024),
      ko_fsync_ms = map_option ucast (async_journal_flush_ms config),
      ko_max_memtable_size = max_memtable_size_bytes config\<rparr>"

section \<open>Batches\<close>

datatype StorageError = Storage_Fjall fjall_error | MissingPartition string

definition commit_batch :: "'s env \<Rightarrow> batch \<Rightarrow> 's \<Rightarrow> (StorageError + unit) \<times> 's" where
  "commit_batch E b s =
     (case fj_commit E b s of
        (Inl e, s') \<Rightarrow> (Inl (Storage_Fjall e), s')
      | (Inr _, s') \<Rightarrow> (Inr (), s'))"

section \<open>Garbage collection\<close>

text \<open>The loop of \<^verbatim>\<open>gc_keys_older_than\<close>; the accumulators are \<^verbatim>\<open>last_user_key\<close>,
  \<^verbatim>\<open>seen_below_safe_point\<close>, \<^verbatim>\<open>batch\<close> and \<^verbatim>\<open>gc_count\<close>.\<close>

fun gc_scan :: "u64 \<Rightarrow> items \<Rightarrow> bytes option \<Rightarrow> bool \<Rightarrow> batch \<Rightarrow> nat \<Rightarrow> StorageError + batch \<times> nat" where
  "gc_scan safe_point_ts [] last_user_key seen b n = Inr (b, n)"
| "gc_scan safe_point_ts (Inl e # its) last_user_key seen b n = Inl (Storage_Fjall e)"
| "gc_scan safe_point_ts (Inr (enc_key, write_bytes) # its) last_user_key seen b n =
     (case key_decode enc_key of
        Inl _ \<Rightarrow> gc_scan safe_point_ts its last_user_key seen b n
      | Inr (user_key, commit_ts) \<Rightarrow>
          let seen' = (if last_user_key \<noteq> Some user_key then False else seen) in
          if commit_ts < safe_point_ts then
            if \<not> seen' then gc_scan safe_point_ts its (Some user_key) True b n
            else
              gc_scan safe_point_ts its (Some user_key) seen'
                (b @ [Remove P_Write enc_key] @
                   (case wr_from_bytes write_bytes of
                      Some record \<Rightarrow> [Remove P_Default (key_encode user_key (wr_start_ts record))]
                    | None \<Rightarrow> []))
                (n + 1)
          else gc_scan safe_point_ts its (Some user_key) seen' b n)"

definition gc_keys_older_than :: "'s env \<Rightarrow> u64 \<Rightarrow> 's \<Rightarrow> (StorageError + nat) \<times> 's" where
  "gc_keys_older_than E safe_point_ts s =
     (case fj_iter E P_Write s of (its, s1) \<Rightarrow>
       (case gc_scan safe_point_ts its None False [] 0 of
          Inl e \<Rightarrow> (Inl e, s1)
        | Inr (b, gc_count) \<Rightarrow>
            if gc_count > 0 then
              (case commit_batch E b s1 of
                 (Inl e, s2) \<Rightarrow> (Inl e, s2)
               | (Inr _, s2) \<Rightarrow> (Inr gc_count, s2))
            else (Inr gc_count, s1)))"

section \<open>Region queries\<close>

text \<open>The two \<^verbatim>\<open>continue\<close> tests of the region loops.\<close>

definition outside_range :: "bytes \<Rightarrow> bytes \<Rightarrow> bytes \<Rightarrow> bool" where
  "outside_range start_key end_key user_key \<longleftrightarrow>
     (start_key \<noteq> [] \<and> user_key < start_key) \<or> (end_key \<noteq> [] \<and> user_key \<ge> end_key)"

fun keys_scan :: "bytes \<Rightarrow> bytes \<Rightarrow> items \<Rightarrow> bytes option \<Rightarrow> bytes list \<Rightarrow> StorageError + bytes list" where
  "keys_scan start_key end_key [] last_seen ks = Inr ks"
| "keys_scan start_key end_key (Inl e # its) last_seen ks = Inl (Storage_Fjall e)"
| "keys_scan start_key end_key (Inr (enc_key, write_bytes) # its) last_seen ks =
     (case key_decode enc_key of
        Inl _ \<Rightarrow> keys_scan start_key end_key its last_seen ks
      | Inr (user_key, commit_ts) \<Rightarrow>
          if outside_range start_key end_key user_key then keys_scan start_key end_key its last_seen ks
          else if last_seen \<noteq> Some user_key
          then keys_scan start_key end_key its (Some user_key) (ks @ [user_key])
          else keys_scan start_key end_key its last_seen ks)"

text \<open>\<^verbatim>\<open>keys.sort(); keys.dedup();\<close> on the collected keys.\<close>

definition get_keys_in_range :: "'s env \<Rightarrow> bytes \<Rightarrow> bytes \<Rightarrow> 's \<Rightarrow> (StorageError + bytes list) \<times> 's" where
  "get_keys_in_range E start_key end_key s =
     (case fj_iter E P_Write s of (its, s1) \<Rightarrow>
       (case keys_scan start_key end_key its None [] of
          Inl e \<Rightarrow> (Inl e, s1)
        | Inr ks \<Rightarrow> (Inr (remdups_adj (sort ks)), s1)))"

fun stats_scan :: "bytes \<Rightarrow> bytes \<Rightarrow> items \<Rightarrow> bytes option \<Rightarrow> u64 \<Rightarrow> u64 \<Rightarrow> StorageError + u64 \<times> u64" where
  "stats_scan start_key end_key [] last_seen key_count total_bytes = Inr (key_count, total_bytes)"
| "stats_scan start_key end_key (Inl e # its) last_seen key_count total_bytes = Inl (Storage_Fjall e)"
| "stats_scan start_key end_key (Inr (enc_key, val_bytes) # its) last_seen key_count total_bytes =
     (case key_decode enc_key of
        Inl _ \<Rightarrow> stats_scan start_key end_key its last_seen key_count total_bytes
      | Inr (user_key, commit_ts) \<Rightarrow>
          if outside_range start_key end_key user_key
          then stats_scan start_key end_key its last_seen key_count total_bytes
          else
            stats_scan start_key end_key its (Some user_key)
              (if last_seen \<noteq> Some user_key then key_count + 1 else key_count)
              (total_bytes + (word_of_nat (length enc_key) + word_of_nat (length val_bytes))))"

definition calculate_region_stats :: "'s env \<Rightarrow> bytes \<Rightarrow> bytes \<Rightarrow> 's \<Rightarrow> (StorageError + u64 \<times> u64) \<times> 's" where
  "calculate_region_stats E start_key end_key s =
     (case fj_iter E P_Write s of (its, s1) \<Rightarrow> (stats_scan start_key end_key its None 0 0, s1))"

definition find_median_key :: "'s env \<Rightarrow> bytes \<Rightarrow> bytes \<Rightarrow> 's \<Rightarrow> (StorageError + bytes option) \<times> 's" where
  "find_median_key E start_key end_key s =
     (case get_keys_in_range E start_key end_key s of
        (Inl e, s1) \<Rightarrow> (Inl e, s1)
      | (Inr ks, s1) \<Rightarrow>
          if length ks < 2 then (Inr None, s1)
          else (Inr (Some (ks ! (length ks div 2))), s1))"

section \<open>Committing a batch\<close>

context fjall
begin

lemma commit_batch_cases:
  assumes "commit_batch E b s = (r, s')"
  obtains (ok) "r = Inr ()" "view s' = apply_batch b (view s)"
    | (io) e where "r = Inl (Storage_Fjall e)" "view s' = view s"
  using assms commit_ok commit_err
  by (fastforce simp: commit_batch_def split: prod.splits sum.splits)

end

context fjall_reliable
begin

lemma commit_batch_reliable:
  obtains s' where "commit_batch E b s = (Inr (), s')" "view s' = apply_batch b (view s)"
  by (rule commit_reliable [of b s]) (auto simp: commit_batch_def intro: that)

lemma commit_batch_never_fails: "commit_batch E b s \<noteq> (Inl e, s')"
  by (rule commit_batch_reliable [of b s]) simp

lemmas never_fails = get_never_fails commit_batch_never_fails

end

section \<open>Facts on the region queries\<close>

text \<open>The user keys with a record, and those of them in a range.\<close>

definition user_keys :: "(bytes \<Rightarrow> bytes option) \<Rightarrow> bytes set" where
  "user_keys m = {k. \<exists>t x. m (key_encode k t) = Some x}"

lemma strict_sorted_remdups_adj:
  "sorted xs \<Longrightarrow> sorted_wrt (<) (remdups_adj (xs :: 'a :: linorder list))"
proof (induction xs rule: remdups_adj.induct)
  case (3 x y xs)
  then show ?case by (cases "x = y") (auto simp: order_less_le)
qed simp_all

lemma sorted_remdups_adj_sort:
  "sorted_wrt (<) (remdups_adj (sort (xs :: 'a :: linorder list)))"
  by (rule strict_sorted_remdups_adj) simp

fun scanned_keys :: "bytes \<Rightarrow> bytes \<Rightarrow> (bytes \<times> bytes) list \<Rightarrow> bytes set" where
  "scanned_keys a b [] = {}"
| "scanned_keys a b ((ek, x) # kvs) =
     (case key_decode ek of
        Inl _ \<Rightarrow> {}
      | Inr (k, t) \<Rightarrow> if outside_range a b k then {} else {k}) \<union> scanned_keys a b kvs"

lemma scanned_keys_iff:
  "k \<in> scanned_keys a b kvs \<longleftrightarrow> \<not> outside_range a b k \<and> (\<exists>t x. (key_encode k t, x) \<in> set kvs)"
proof (induction a b kvs rule: scanned_keys.induct)
  case (2 a b ek x kvs)
  show ?case
  proof (cases "\<exists>t. ek = key_encode k t")
    case False
    then have "key_decode ek \<noteq> Inr (k, t)" for t
      using key_decode_Inr by blast
    with False 2 show ?thesis by (auto split: sum.split)
  qed (use 2 in auto)
qed simp

lemma keys_scan_set:
  assumes "keys_scan a b (map Inr kvs) l0 ks = Inr ks'" "\<And>k. l0 = Some k \<Longrightarrow> k \<in> set ks"
  shows "set ks' = set ks \<union> scanned_keys a b kvs"
  using assms
proof (induction kvs arbitrary: l0 ks)
  case (Cons kv kvs)
  obtain ek x where kv: "kv = (ek, x)" by force
  show ?case
  proof (cases "key_decode ek")
    case (Inl e)
    with Cons kv show ?thesis by simp
  next
    case (Inr kt)
    obtain k t where kt: "kt = (k, t)" by force
    show ?thesis
    proof (cases "outside_range a b k \<or> l0 = Some k")
      case True
      with Cons.prems(1) kv kt Inr have "keys_scan a b (map Inr kvs) l0 ks = Inr ks'"
        by (auto split: if_splits)
      then have "set ks' = set ks \<union> scanned_keys a b kvs"
        using Cons.IH Cons.prems(2) by blast
      with True Cons.prems(2) kv kt Inr show ?thesis by auto
    next
      case False
      with Cons.prems(1) kv kt Inr have "keys_scan a b (map Inr kvs) (Some k) (ks @ [k]) = Inr ks'"
        by simp
      then have "set ks' = set (ks @ [k]) \<union> scanned_keys a b kvs"
        by (rule Cons.IH) simp
      with False kv kt Inr show ?thesis by auto
    qed
  qed
qed simp

lemma keys_scan_total: "\<exists>ks'. keys_scan a b (map Inr kvs) l0 ks = Inr ks'"
  by (induction kvs arbitrary: l0 ks) (auto split: sum.split)

text \<open>The keys the loop collects are one per run of entries of a key, which is also what the
  statistics count.\<close>

lemma stats_scan_keys:
  assumes "keys_scan a b (map Inr kvs) l0 ks = Inr ks'" "stats_scan a b (map Inr kvs) l0 n0 b0 = Inr (n, tb)"
  shows "n + word_of_nat (length ks) = n0 + word_of_nat (length ks')"
  using assms
proof (induction kvs arbitrary: l0 ks n0 b0)
  case (Cons kv kvs)
  obtain ek x where kv: "kv = (ek, x)" by force
  show ?case
  proof (cases "key_decode ek")
    case (Inl e)
    with Cons kv show ?thesis by simp
  next
    case (Inr kt)
    with Cons.prems Cons.IH show ?thesis
      by (cases kt) (fastforce simp: kv algebra_simps split: if_splits)
  qed
qed simp

lemma stats_scan_total: "\<exists>r. stats_scan a b (map Inr kvs) l0 n tb = Inr r"
  by (induction kvs arbitrary: l0 n tb) (auto split: sum.split)

lemma keys_scan_sorted:
  assumes "prefix_free K" "keys_scan a b (map Inr kvs) l0 ks = Inr ks'" "sorted_wrt (<) (map fst kvs)"
    and "\<And>ek x. (ek, x) \<in> set kvs \<Longrightarrow> \<exists>k \<in> K. \<exists>t. ek = key_encode k t"
    and "sorted_wrt (<) ks" "l0 = (if ks = [] then None else Some (last ks))" "set ks \<subseteq> K"
    and "\<And>ek x. ks \<noteq> [] \<Longrightarrow> (ek, x) \<in> set kvs \<Longrightarrow> \<exists>t. key_encode (last ks) t < ek"
  shows "sorted_wrt (<) ks'"
  using assms(2-)
proof (induction kvs arbitrary: l0 ks)
  case (Cons kv kvs)
  obtain ek x where kv: "kv = (ek, x)" by force
  obtain k t where k: "k \<in> K" "ek = key_encode k t"
    using Cons.prems(3) [of ek x] kv by auto
  show ?case
  proof (cases "outside_range a b k \<or> l0 = Some k")
    case True
    with Cons.prems(1) kv k have "keys_scan a b (map Inr kvs) l0 ks = Inr ks'"
      by (auto split: if_splits)
    then show ?thesis
    proof (rule Cons.IH)
      show "\<exists>t'. key_encode (last ks) t' < ek'" if "ks \<noteq> []" "(ek', x') \<in> set kvs" for ek' x'
        using Cons.prems(7) [OF that(1), of ek' x'] that(2) by simp
      show "\<exists>k \<in> K. \<exists>t. ek' = key_encode k t" if "(ek', x') \<in> set kvs" for ek' x'
        using Cons.prems(3) [of ek' x'] that by simp
    qed (use Cons.prems(2,4-6) in simp_all)
  next
    case False
    with Cons.prems(1) kv k have "keys_scan a b (map Inr kvs) (Some k) (ks @ [k]) = Inr ks'"
      by simp
    then show ?thesis
    proof (rule Cons.IH)
      have "last ks < k" if ne: "ks \<noteq> []"
      proof -
        obtain u where "key_encode (last ks) u < key_encode k t"
          using Cons.prems(7) [OF ne, of ek x] kv k by auto
        moreover have "last ks \<in> K" "last ks \<noteq> k"
          using Cons.prems(5,6) ne False by auto
        ultimately show ?thesis
          using vk.enc_order [OF assms(1) _ k(1)] by blast
      qed
      then show "sorted_wrt (<) (ks @ [k])"
        by (rule strict_sorted_snoc [OF Cons.prems(4)])
      show "\<exists>t'. key_encode (last (ks @ [k])) t' < ek'" if "(ek', x') \<in> set kvs" for ek' x'
        using Cons.prems(2) kv k that by (auto intro!: exI [of _ t])
    qed (use Cons.prems kv k in auto)
  qed
qed simp

context fjall
begin

lemma get_keys_in_range_keeps: "get_keys_in_range E a b s = (r, s') \<Longrightarrow> view s' = view s"
  by (auto simp: get_keys_in_range_def dest: iter_keeps split: prod.splits sum.splits)

lemma find_median_key_keeps: "find_median_key E a b s = (r, s') \<Longrightarrow> view s' = view s"
  by (auto simp: find_median_key_def dest: get_keys_in_range_keeps split: prod.splits sum.splits if_splits)

lemma calculate_region_stats_keeps: "calculate_region_stats E a b s = (r, s') \<Longrightarrow> view s' = view s"
  by (auto simp: calculate_region_stats_def dest: iter_keeps split: prod.splits)

end

lemma scanned_keys_user_keys:
  assumes "scan_of m [] kvs"
  shows "scanned_keys a b kvs = {k \<in> user_keys m. \<not> outside_range a b k}"
  by (simp add: set_eq_iff scanned_keys_iff user_keys_def scan_of_mem [OF assms]) blast

context fjall_reliable
begin

lemma get_keys_in_range_correct:
  obtains ks s' where "get_keys_in_range E a b s = (Inr ks, s')" "view s' = view s"
    "sorted_wrt (<) ks" "set ks = {k \<in> user_keys (view s P_Write). \<not> outside_range a b k}"
proof -
  obtain kvs s' where i: "fj_iter E P_Write s = (map Inr kvs, s')"
    "scan_of (view s P_Write) [] kvs" "view s' = view s"
    by (rule iter_reliable)
  obtain ks where ks: "keys_scan a b (map Inr kvs) None [] = Inr ks"
    using keys_scan_total by blast
  then have "set ks = {k \<in> user_keys (view s P_Write). \<not> outside_range a b k}"
    using keys_scan_set [OF ks] scanned_keys_user_keys [OF i(2)] by simp
  with i ks show ?thesis
    by (intro that [of "remdups_adj (sort ks)" s'])
       (simp_all add: get_keys_in_range_def sorted_remdups_adj_sort)
qed

text \<open>A median key lies in the range and has a smaller key of the range below it.\<close>

lemma find_median_key_correct:
  obtains (none) s' where "find_median_key E a b s = (Inr None, s')" "view s' = view s"
      "card {k \<in> user_keys (view s P_Write). \<not> outside_range a b k} < 2"
    | (some) s' k k0 where "find_median_key E a b s = (Inr (Some k), s')" "view s' = view s"
      "k \<in> user_keys (view s P_Write)" "\<not> outside_range a b k" "k0 \<in> user_keys (view s P_Write)"
      "\<not> outside_range a b k0" "k0 < k"
proof -
  obtain ks s' where ks: "get_keys_in_range E a b s = (Inr ks, s')" "view s' = view s"
    "sorted_wrt (<) ks" "set ks = {k \<in> user_keys (view s P_Write). \<not> outside_range a b k}"
    by (rule get_keys_in_range_correct)
  show thesis
  proof (cases "length ks < 2")
    case True
    have "card (set ks) = length ks"
      using ks(3) by (simp add: strict_sorted_iff distinct_card)
    with True ks none show thesis by (simp add: find_median_key_def)
  next
    case False
    let ?i = "length ks div 2"
    have i: "0 < ?i" "?i < length ks" using False by auto
    have "ks ! 0 < ks ! ?i"
      using sorted_wrt_nth_less [OF ks(3) i] .
    moreover have "ks ! 0 \<in> set ks" "ks ! ?i \<in> set ks"
      using i by (auto intro: nth_mem)
    ultimately show thesis
      using False ks some [of "ks ! ?i" s' "ks ! 0"] by (simp add: find_median_key_def)
  qed
qed

lemma calculate_region_stats_correct:
  assumes "prefix_free K" "keyed_by K (view s P_Write)"
  obtains ks s1 tb s2 where "get_keys_in_range E a b s = (Inr ks, s1)"
    "calculate_region_stats E a b s = (Inr (word_of_nat (length ks), tb), s2)"
proof -
  obtain kvs s' where i: "fj_iter E P_Write s = (map Inr kvs, s')"
    "scan_of (view s P_Write) [] kvs"
    by (rule iter_reliable)
  obtain ks where ks: "keys_scan a b (map Inr kvs) None [] = Inr ks"
    using keys_scan_total by blast
  have "\<exists>k \<in> K. \<exists>t. ek = key_encode k t" if "(ek, x) \<in> set kvs" for ek x
    using that assms(2) by (auto simp: scan_of_mem [OF i(2)] keyed_by_def)
  then have sorted: "sorted_wrt (<) ks"
    using keys_scan_sorted [OF assms(1) ks scan_of_sorted [OF i(2)]] by simp
  then have same: "remdups_adj (sort ks) = ks"
    by (simp add: strict_sorted_iff sort_key_id_if_sorted remdups_adj_distinct)
  obtain n tb where st: "stats_scan a b (map Inr kvs) None 0 0 = Inr (n, tb)"
    using stats_scan_total by force
  then have "n = word_of_nat (length ks)"
    using stats_scan_keys [OF ks st] by simp
  with i ks st same show ?thesis
    by (intro that [of ks s' tb s']) (simp_all add: get_keys_in_range_def calculate_region_stats_def)
qed

end

section \<open>Properties of the region queries\<close>

definition keys_db :: mem_db where
  "keys_db = (mem_init [])\<lparr>m_parts := (\<lambda>p. case p of
     P_Write \<Rightarrow> [(key_encode [3] 7, wr_to_bytes (wr_new 6 Put)), (key_encode [1] 9, wr_to_bytes (wr_new 8 Put)),
                 (key_encode [1] 5, wr_to_bytes (wr_new 4 Put))]
   | _ \<Rightarrow> [])\<rparr>"

text \<open>\<open>find_median_key\<close>, on an engine that does not fail, returns a key of the range with a
  smaller key of the range below it, so splitting there leaves keys on both sides; it returns
  none exactly when the range has fewer than two keys.\<close>

lemma find_median_key_splits:
  assumes "fjall_reliable E view"
  shows "case fst (find_median_key E a b s) of
      Inl e \<Rightarrow> False
    | Inr None \<Rightarrow> card {k \<in> user_keys (view s P_Write). \<not> outside_range a b k} < 2
    | Inr (Some k) \<Rightarrow> k \<in> user_keys (view s P_Write) \<and> \<not> outside_range a b k \<and>
        (\<exists>k0 \<in> user_keys (view s P_Write). \<not> outside_range a b k0 \<and> k0 < k)"
  by (rule fjall_reliable.find_median_key_correct [OF assms, of a b s]) auto

lemma find_median_key_splits_example:
  "[3] \<in> user_keys (mem_view keys_db P_Write) \<and> (\<exists>k0 \<in> user_keys (mem_view keys_db P_Write). k0 < [3])"
proof -
  have "fst (find_median_key mem_env [] [] keys_db) = Inr (Some [3])" by code_simp
  with find_median_key_splits [OF mem.fjall_reliable_axioms, where a = "[]" and b = "[]" and s = keys_db] show ?thesis
    by auto
qed

end
