(* ===== verification/Mvcc_Reader.thy ===== *)
theory Mvcc_Reader
  imports Storage_Engine
begin

text \<open>
  Snapshot reads: \<^verbatim>\<open>MvccReader::get\<close> of \<^verbatim>\<open>storage/src/mvcc/reader.rs\<close>. A read reports a lock at
  or before its timestamp (\<open>locked_at\<close>). On a key without one its specification is \<open>read_result\<close>, which
  depends on the versions alone: the value of the newest record at or before the timestamp that
  is not a rollback. \<open>reader_get_correct\<close> says that the scan over the encoded keys computes it.
\<close>

section \<open>The reader\<close>

datatype MvccError =
    Mvcc_Engine StorageError
  | Mvcc_Fjall fjall_error
  | KeyIsLocked bytes u64
  | CorruptedState

text \<open>The loop over \<^verbatim>\<open>write_p.range(seek_key..)\<close>.\<close>

fun reader_scan :: "'s env \<Rightarrow> bytes \<Rightarrow> u64 \<Rightarrow> items \<Rightarrow> 's \<Rightarrow> (MvccError + bytes option) \<times> 's" where
  "reader_scan E user_key read_ts [] s = (Inr None, s)"
| "reader_scan E user_key read_ts (Inl e # its) s = (Inl (Mvcc_Fjall e), s)"
| "reader_scan E user_key read_ts (Inr (enc_key, write_bytes) # its) s =
     (case key_decode enc_key of
        Inl _ \<Rightarrow> (Inl CorruptedState, s)
      | Inr (curr_user_key, commit_ts) \<Rightarrow>
          if curr_user_key = user_key then
            if commit_ts \<le> read_ts then
              (case wr_from_bytes write_bytes of
                 None \<Rightarrow> (Inl CorruptedState, s)
               | Some write_rec \<Rightarrow>
                   (case wr_op write_rec of
                      Put \<Rightarrow>
                        (case fj_get E P_Default (key_encode user_key (wr_start_ts write_rec)) s of
                           (Inl e, s') \<Rightarrow> (Inl (Mvcc_Fjall e), s')
                         | (Inr None, s') \<Rightarrow> (Inl CorruptedState, s')
                         | (Inr (Some x), s') \<Rightarrow> (Inr (Some x), s'))
                    | Delete \<Rightarrow> (Inr None, s)
                    | Rollback \<Rightarrow> reader_scan E user_key read_ts its s))
            else reader_scan E user_key read_ts its s
          else (Inr None, s))"

text \<open>Step 2 of the read, after the lock check.\<close>

definition reader_find :: "'s env \<Rightarrow> bytes \<Rightarrow> u64 \<Rightarrow> 's \<Rightarrow> (MvccError + bytes option) \<times> 's" where
  "reader_find E user_key read_ts s =
     (case fj_range_from E P_Write (key_encode user_key read_ts) s of
        (its, s') \<Rightarrow> reader_scan E user_key read_ts its s')"

definition reader_get :: "'s env \<Rightarrow> bytes \<Rightarrow> u64 \<Rightarrow> 's \<Rightarrow> (MvccError + bytes option) \<times> 's" where
  "reader_get E user_key read_ts s =
     (case fj_get E P_Lock user_key s of
        (Inl e, s1) \<Rightarrow> (Inl (Mvcc_Fjall e), s1)
      | (Inr None, s1) \<Rightarrow> reader_find E user_key read_ts s1
      | (Inr (Some lock_bytes), s1) \<Rightarrow>
          (case lock_from_bytes lock_bytes of
             Inl _ \<Rightarrow> (Inl CorruptedState, s1)
           | Inr lock \<Rightarrow>
               if lock_start_ts lock \<le> read_ts
               then (Inl (KeyIsLocked (lock_primary_key lock) (lock_start_ts lock)), s1)
               else reader_find E user_key read_ts s1))"

section \<open>What a read should return\<close>

text \<open>\<open>r\<close>, committed at \<open>t\<close>, is the newest record at or before \<open>ts\<close> that is not a rollback.\<close>

definition visible :: "mvcc \<Rightarrow> bytes \<Rightarrow> u64 \<Rightarrow> u64 \<Rightarrow> WriteRecord \<Rightarrow> bool" where
  "visible m k ts t r \<longleftrightarrow>
     m_writes m (k, t) = Some r \<and> t \<le> ts \<and> wr_op r \<noteq> Rollback \<and>
     (\<forall>t' r'. m_writes m (k, t') = Some r' \<and> t < t' \<and> t' \<le> ts \<longrightarrow> wr_op r' = Rollback)"

inductive read_result :: "mvcc \<Rightarrow> bytes \<Rightarrow> u64 \<Rightarrow> MvccError + bytes option \<Rightarrow> bool" for m k ts where
  read_put: "visible m k ts t r \<Longrightarrow> wr_op r = Put \<Longrightarrow> m_vals m (k, wr_start_ts r) = Some x \<Longrightarrow>
     read_result m k ts (Inr (Some x))"
| read_lost: "visible m k ts t r \<Longrightarrow> wr_op r = Put \<Longrightarrow> m_vals m (k, wr_start_ts r) = None \<Longrightarrow>
     read_result m k ts (Inl CorruptedState)"
| read_deleted: "visible m k ts t r \<Longrightarrow> wr_op r = Delete \<Longrightarrow> read_result m k ts (Inr None)"
| read_absent: "\<nexists>t r. visible m k ts t r \<Longrightarrow> read_result m k ts (Inr None)"

inductive_cases read_result_lockedE [elim!]: "read_result m k ts (Inl (KeyIsLocked pk st))"
inductive_cases read_result_lostE: "read_result m k ts (Inl CorruptedState)"
inductive_cases read_result_SomeE: "read_result m k ts (Inr (Some x))"

definition locked_at :: "mvcc \<Rightarrow> bytes \<Rightarrow> u64 \<Rightarrow> Lock \<Rightarrow> bool" where
  "locked_at m k ts l \<longleftrightarrow> m_locks m k = Some l \<and> lock_start_ts l \<le> ts"

lemma visible_unique: "visible m k ts t r \<Longrightarrow> visible m k ts t' r' \<Longrightarrow> t = t' \<and> r = r'"
  unfolding visible_def by (metis linorder_neqE option.inject)

lemma read_result_unique: "read_result m k ts x \<Longrightarrow> read_result m k ts y \<Longrightarrow> x = y"
  by (auto elim!: read_result.cases dest: visible_unique)

text \<open>A read depends only on the records of the key up to the timestamp and on the values
  they point to.\<close>

lemma visible_cong:
  assumes "\<And>t. t \<le> ts \<Longrightarrow> m_writes m' (k, t) = m_writes m (k, t)"
  shows "visible m' k ts = visible m k ts"
  using assms unfolding visible_def fun_eq_iff by metis

lemma read_result_transfer:
  assumes "read_result m k ts res" "visible m' k ts = visible m k ts"
    and "\<And>t r. visible m k ts t r \<Longrightarrow> m_vals m' (k, wr_start_ts r) = m_vals m (k, wr_start_ts r)"
  shows "read_result m' k ts res"
  using assms(1)
  by cases (auto simp: assms(2,3) intro: read_result.intros)

lemma read_result_cong:
  assumes "\<And>t. t \<le> ts \<Longrightarrow> m_writes m' (k, t) = m_writes m (k, t)"
    and "\<And>t r. visible m k ts t r \<Longrightarrow> m_vals m' (k, wr_start_ts r) = m_vals m (k, wr_start_ts r)"
  shows "read_result m' k ts res \<longleftrightarrow> read_result m k ts res"
proof -
  have v: "visible m' k ts = visible m k ts"
    using assms(1) by (rule visible_cong)
  show ?thesis
    using assms(2) by (auto simp: v intro: read_result_transfer)
qed

section \<open>The scan computes it\<close>

text \<open>The record the loop stops at: the first of the list that is not newer than the read
  and not a rollback.\<close>

definition first_visible :: "u64 \<Rightarrow> (u64 \<times> WriteRecord) list \<Rightarrow> (u64 \<times> WriteRecord) option" where
  "first_visible ts rs = find (\<lambda>(t, r). t \<le> ts \<and> wr_op r \<noteq> Rollback) rs"

lemma find_sorted_greatest:
  assumes "sorted_wrt (>) (map fst xs)" "(t, r) \<in> set xs" "P (t, r)"
    and "\<And>t' r'. (t', r') \<in> set xs \<Longrightarrow> t < t' \<Longrightarrow> \<not> P (t', r')"
  shows "find P xs = Some ((t :: 'a :: linorder), r)"
  using assms
proof (induction xs)
  case (Cons x xs)
  obtain u q where x: "x = (u, q)" by force
  show ?case
  proof (cases "x = (t, r)")
    case False
    with Cons.prems x have "(t, r) \<in> set xs" "t < u" by auto
    with Cons x show ?thesis by auto
  qed (use Cons.prems in simp)
qed simp

lemma find_sorted_least:
  assumes "sorted_wrt (>) (map fst xs)" "find P xs = Some (t, r)"
  shows "(t, r) \<in> set xs \<and> P (t, r) \<and> (\<forall>t' r'. (t', r') \<in> set xs \<and> (t :: 'a :: linorder) < t' \<longrightarrow> \<not> P (t', r'))"
  using assms
proof (induction xs)
  case (Cons x xs)
  then show ?case
    by (cases "P x") (auto dest: order.asym)
qed simp

lemma first_visible_iff:
  assumes sorted: "sorted_wrt (>) (map fst rs)"
    and rs: "set rs = {(t, r). t \<le> ts \<and> m_writes m (k, t) = Some r}"
  shows "first_visible ts rs = Some (t, r) \<longleftrightarrow> visible m k ts t r"
proof
  assume "first_visible ts rs = Some (t, r)"
  from find_sorted_least [OF sorted this [unfolded first_visible_def]] rs
  show "visible m k ts t r" by (auto simp: visible_def)
next
  assume v: "visible m k ts t r"
  show "first_visible ts rs = Some (t, r)"
    unfolding first_visible_def
    by (rule find_sorted_greatest [OF sorted]) (use v rs in \<open>auto simp: visible_def\<close>)
qed

text \<open>The answer of a read given the record the scan stops at.\<close>

fun answer :: "mvcc \<Rightarrow> bytes \<Rightarrow> (u64 \<times> WriteRecord) option \<Rightarrow> MvccError + bytes option" where
  "answer m k None = Inr None"
| "answer m k (Some (t, r)) =
     (case wr_op r of
        Put \<Rightarrow> (case m_vals m (k, wr_start_ts r) of None \<Rightarrow> Inl CorruptedState | Some x \<Rightarrow> Inr (Some x))
      | _ \<Rightarrow> Inr None)"

lemma read_result_answer:
  assumes "\<And>t r. f = Some (t, r) \<longleftrightarrow> visible m k ts t r"
  shows "read_result m k ts (answer m k f)"
proof (cases f)
  case None
  with assms show ?thesis by (auto intro: read_absent)
next
  case (Some tr)
  obtain t r where tr: "tr = (t, r)" by force
  with assms [of t r] Some have v: "visible m k ts t r" by blast
  then have "wr_op r \<noteq> Rollback" by (simp add: visible_def)
  with v show ?thesis
    by (cases "wr_op r") (auto simp: Some tr split: option.split intro: read_put read_lost read_deleted)
qed

context fjall
begin

lemma reader_scan_answer:
  assumes "reader_scan E k ts its s = (res, s')" "yields its kvs" "decodes kvs"
  shows "view s' = view s \<and>
    ((\<exists>e. res = Inl (Mvcc_Fjall e)) \<or> res = answer (abs_mvcc (view s)) k (first_visible ts (records k kvs)))"
  using assms
proof (induction its arbitrary: kvs)
  case Nil
  then show ?case by (simp add: first_visible_def)
next
  case (Cons it its)
  show ?case
  proof (cases it)
    case (Inl e)
    with Cons.prems show ?thesis by auto
  next
    case (Inr kv)
    with Cons.prems obtain kvs' where kvs: "kvs = kv # kvs'" "yields its kvs'"
      by (cases kvs) auto
    from Cons.prems(3) kvs obtain ek b k' t r where
      d: "kv = (ek, b)" "key_decode ek = Inr (k', t)" "wr_from_bytes b = Some r" "decodes kvs'"
      by (auto elim: decodes_ConsE)
    note IH = Cons.IH [OF _ kvs(2) d(4)]
    show ?thesis
    proof (cases "k' = k \<and> t \<le> ts \<and> wr_op r = Put")
      case True
      with Cons.prems(1) Inr d kvs get_keeps get_value show ?thesis
        by (fastforce simp: first_visible_def m_vals_abs split: prod.splits sum.splits option.splits)
    next
      case False
      with Cons.prems(1) Inr d kvs IH show ?thesis
        by (cases "wr_op r") (auto simp: first_visible_def split: if_splits)
    qed
  qed
qed

lemma reader_find_correct:
  assumes "good_keys K" "k \<in> K" "wf_store K (view s)" "reader_find E k ts s = (res, s')"
  shows "view s' = view s" and "(\<exists>e. res = Inl (Mvcc_Fjall e)) \<or> read_result (abs_mvcc (view s)) k ts res"
proof -
  obtain its s1 where r: "fj_range_from E P_Write (key_encode k ts) s = (its, s1)" by force
  obtain kvs where kvs: "yields its kvs" "scan_of (view s P_Write) (key_encode k ts) kvs"
    using range_yields [OF r] by blast
  note v1 = range_keeps [OF r]
  have "reader_scan E k ts its s1 = (res, s')"
    using assms(4) r by (simp add: reader_find_def)
  note ans = reader_scan_answer [OF this kvs(1) scan_of_decodes [OF assms(3) kvs(2)], unfolded v1]
  note rs = records_scan [OF assms(1-3) kvs(2)]
  show "view s' = view s" using ans by simp
  show "(\<exists>e. res = Inl (Mvcc_Fjall e)) \<or> read_result (abs_mvcc (view s)) k ts res"
    using ans read_result_answer [OF first_visible_iff [OF rs(2) rs(1)]] by auto
qed

lemma reader_get_cases:
  assumes "good_keys K" "k \<in> K" "wf_store K (view s)" "reader_get E k ts s = (res, s')"
  shows "view s' = view s"
    and "(\<exists>e. res = Inl (Mvcc_Fjall e)) \<or>
      (\<exists>l. locked_at (abs_mvcc (view s)) k ts l \<and> res = Inl (KeyIsLocked (lock_primary_key l) (lock_start_ts l))) \<or>
      (\<nexists>l. locked_at (abs_mvcc (view s)) k ts l) \<and> read_result (abs_mvcc (view s)) k ts res"
      (is ?cases)
proof -
  obtain g s1 where g: "fj_get E P_Lock k s = (g, s1)" by force
  note v1 = get_keeps [OF g]
  have find: "view s' = view s \<and>
      ((\<exists>e. res = Inl (Mvcc_Fjall e)) \<or> read_result (abs_mvcc (view s)) k ts res)"
    if "reader_find E k ts s1 = (res, s')"
    using reader_find_correct [OF assms(1,2) _ that] assms(3) v1 by auto
  have "view s' = view s \<and> ?cases"
  proof (cases g)
    case (Inl e)
    with assms(4) g v1 show ?thesis by (auto simp: reader_get_def)
  next
    case (Inr o1)
    then have o1: "o1 = view s P_Lock k" using get_value g by blast
    show ?thesis
    proof (cases o1)
      case None
      with o1 have "m_locks (abs_mvcc (view s)) k = None" by (simp add: wf_lock_None)
      with assms(4) g Inr None find show ?thesis by (auto simp: reader_get_def locked_at_def)
    next
      case (Some b)
      with o1 obtain l where l: "lock_from_bytes b = Inr l" "m_locks (abs_mvcc (view s)) k = Some l"
        using wf_lock [OF assms(3)] by metis
      with assms(4) g Inr Some find v1 show ?thesis
        by (auto simp: reader_get_def locked_at_def split: if_splits)
    qed
  qed
  then show "view s' = view s" and ?cases by blast+
qed

end

context fjall_reliable
begin

lemma reader_scan_no_fault: "fst (reader_scan E k ts (map Inr kvs) s) \<noteq> Inl (Mvcc_Fjall e)"
proof (induction kvs)
  case (Cons kv kvs)
  obtain ek b where kv: "kv = (ek, b)" by force
  show ?case
  proof (cases "\<exists>r. wr_from_bytes b = Some r \<and> wr_op r = Put")
    case True
    then obtain r where r: "wr_from_bytes b = Some r" "wr_op r = Put" by blast
    obtain s' where "fj_get E P_Default (key_encode k (wr_start_ts r)) s =
        (Inr (view s P_Default (key_encode k (wr_start_ts r))), s')"
      by (rule get_reliable)
    with Cons r show ?thesis by (auto simp: kv split: sum.split option.split)
  next
    case False
    with Cons show ?thesis by (auto simp: kv split: sum.split option.split OpType.split)
  qed
qed simp

lemma reader_find_no_fault: "fst (reader_find E k ts s) \<noteq> Inl (Mvcc_Fjall e)"
  by (rule range_reliable [of P_Write "key_encode k ts" s])
     (simp add: reader_find_def reader_scan_no_fault)

lemma reader_get_no_fault: "fst (reader_get E k ts s) \<noteq> Inl (Mvcc_Fjall e)"
  by (rule get_reliable [of P_Lock k s])
     (auto simp: reader_get_def reader_find_no_fault split: option.split sum.split)

lemma reader_get_correct:
  assumes "good_keys K" "k \<in> K" "wf_store K (view s)"
  shows "view (snd (reader_get E k ts s)) = view s"
    and "locked_at (abs_mvcc (view s)) k ts l \<Longrightarrow>
      fst (reader_get E k ts s) = Inl (KeyIsLocked (lock_primary_key l) (lock_start_ts l))"
    and "(\<nexists>l. locked_at (abs_mvcc (view s)) k ts l) \<Longrightarrow>
      read_result (abs_mvcc (view s)) k ts (fst (reader_get E k ts s))"
  using reader_get_cases [OF assms, of ts "fst (reader_get E k ts s)" "snd (reader_get E k ts s)"]
    reader_get_no_fault [of k ts s]
  by (auto simp: locked_at_def)

end

section \<open>Properties of the reader\<close>

text \<open>C19. Snapshot reads: on an engine that does not fail, \<open>reader_get\<close> changes nothing; it reports a
  lock at or before the timestamp with its primary key and start, and otherwise returns the
  value of the newest version at or before the timestamp that is not a rollback mark.\<close>

theorem reader_get_snapshot:
  assumes "fjall_reliable E view" "good_keys K" "k \<in> K" "wf_store K (view s)"
  shows "view (snd (reader_get E k ts s)) = view s \<and>
    (case m_locks (abs_mvcc (view s)) k of
       Some l \<Rightarrow> if lock_start_ts l \<le> ts
         then fst (reader_get E k ts s) = Inl (KeyIsLocked (lock_primary_key l) (lock_start_ts l))
         else read_result (abs_mvcc (view s)) k ts (fst (reader_get E k ts s))
     | None \<Rightarrow> read_result (abs_mvcc (view s)) k ts (fst (reader_get E k ts s)))"
  using fjall_reliable.reader_get_correct [OF assms, of ts]
  by (auto simp: locked_at_def split: option.split)

definition read_db :: mem_db where
  "read_db = (mem_init [])\<lparr>m_parts := (\<lambda>p. case p of
     P_Write \<Rightarrow> [(key_encode [1] 10, wr_to_bytes (wr_new 9 Put)), (key_encode [1] 20, wr_to_bytes (wr_new 20 Rollback))]
   | P_Default \<Rightarrow> [(key_encode [1] 9, [77])]
   | P_Lock \<Rightarrow> [])\<rparr>"

theorem reader_get_snapshot_witness:
  "read_result (abs_mvcc (mem_view read_db)) [1] 30 (Inr (Some [77]))"
proof -
  have keys: "good_keys (set [[1]])" by (rule good_key_list) (simp add: good_key_list_def)
  have wf: "wf_store (set [[1]]) (mem_view read_db)" by (rule wf_mem) code_simp
  have "fst (reader_get mem_env [1] 30 read_db) = Inr (Some [77])" by code_simp
  moreover have "m_locks (abs_mvcc (mem_view read_db)) [1] = None"
    by (simp add: abs_mvcc_def mem_view_def read_db_def typed_def)
  ultimately show ?thesis
    using reader_get_snapshot [OF mem.fjall_reliable_axioms keys _ wf, of "[1]" 30] by simp
qed

end
