(* ===== verification/Mvcc_Steps.thy ===== *)
theory Mvcc_Steps
  imports Mvcc_Reader
begin

text \<open>
  The abstract transaction store as a state machine. Each rule of \<open>mvcc_step\<close> is one
  atomic batch of the code, with the guard the code has established when it commits the
  batch: laying a lock, committing or rolling forward a locked key, rolling a key back,
  extending a lock, dropping an old version. The operations of the coordinator, whatever
  engine calls fail under them, are runs of this machine (shown where they are modelled).

  \<open>si_inv\<close> is the invariant behind snapshot isolation: on every key, the lifetimes
  from start to commit of two committed writes do not overlap, and a lock is newer than
  everything committed on its key. It holds along every run (\<open>mvcc_steps_si\<close>).
\<close>

section \<open>Steps\<close>

definition roll_back :: "bytes \<Rightarrow> u64 \<Rightarrow> mvcc \<Rightarrow> mvcc" where
  "roll_back k st m = set_lock k None (put_write k st (wr_new st Rollback) m)"

definition roll_forward :: "bytes \<Rightarrow> u64 \<Rightarrow> u64 \<Rightarrow> OpType \<Rightarrow> mvcc \<Rightarrow> mvcc" where
  "roll_forward k st ct op m = set_lock k None (put_write k ct (wr_new st op) m)"

definition drop_version :: "bytes \<Rightarrow> u64 \<Rightarrow> mvcc \<Rightarrow> mvcc" where
  "drop_version k t m = m\<lparr>m_writes := (m_writes m)((k, t) := None)\<rparr>"

definition drop_value :: "bytes \<Rightarrow> u64 \<Rightarrow> mvcc \<Rightarrow> mvcc" where
  "drop_value k t m = m\<lparr>m_vals := (m_vals m)((k, t) := None)\<rparr>"

text \<open>The committed (not rolled back) records of a key.\<close>

definition committed :: "mvcc \<Rightarrow> bytes \<Rightarrow> u64 \<Rightarrow> WriteRecord \<Rightarrow> bool" where
  "committed m k t r \<longleftrightarrow> m_writes m (k, t) = Some r \<and> wr_op r \<noteq> Rollback"

text \<open>The mark a rolled back transaction leaves on a key.\<close>

definition rolled_back :: "mvcc \<Rightarrow> bytes \<Rightarrow> u64 \<Rightarrow> bool" where
  "rolled_back m k st \<longleftrightarrow> (\<exists>t r. m_writes m (k, t) = Some r \<and> wr_op r = Rollback \<and> wr_start_ts r = st)"

text \<open>The key is free for a transaction that started at \<open>st\<close>: nothing is committed on it at
  \<open>st\<close> or later, the transaction has not been rolled back on it, and no other transaction
  holds its lock.\<close>

definition free_for :: "u64 \<Rightarrow> bytes \<Rightarrow> mvcc \<Rightarrow> bool" where
  "free_for st k m \<longleftrightarrow>
     (\<forall>t r. committed m k t r \<longrightarrow> t < st) \<and> \<not> rolled_back m k st \<and>
     (\<forall>l. m_locks m k = Some l \<longrightarrow> lock_start_ts l = st)"

inductive mvcc_step :: "mvcc \<Rightarrow> mvcc \<Rightarrow> bool" where
  step_lock: "free_for st k m \<Longrightarrow> lock_start_ts l = st \<Longrightarrow> mvcc_step m (set_lock k (Some l) m)"
| step_value: "free_for st k m \<Longrightarrow> mvcc_step m (put_val k st x m)"
| step_commit: "m_locks m k = Some l \<Longrightarrow> lock_start_ts l = st \<Longrightarrow> st \<le> ct \<Longrightarrow> op \<noteq> Rollback \<Longrightarrow>
     mvcc_step m (roll_forward k st ct op m)"
| step_rollback: "m' = roll_back k st m \<or> m' = put_write k st (wr_new st Rollback) m \<Longrightarrow> mvcc_step m m'"
| step_extend: "m_locks m k = Some l \<Longrightarrow> mvcc_step m (set_lock k (Some (l\<lparr>lock_ttl := ttl\<rparr>)) m)"
| step_drop_version: "mvcc_step m (drop_version k t m)"
| step_drop_value: "mvcc_step m (drop_value k t m)"

abbreviation mvcc_steps :: "mvcc \<Rightarrow> mvcc \<Rightarrow> bool" where
  "mvcc_steps \<equiv> mvcc_step\<^sup>*\<^sup>*"

lemma mvcc_steps_one: "mvcc_step m m' \<Longrightarrow> mvcc_steps m m'"
  by (rule r_into_rtranclp)

lemma m_roll_forward [simp]:
  "m_locks (roll_forward k st ct op m) = (m_locks m)(k := None)"
  "m_writes (roll_forward k st ct op m) = (m_writes m)((k, ct) \<mapsto> wr_new st op)"
  "m_vals (roll_forward k st ct op m) = m_vals m"
  by (simp_all add: roll_forward_def)

lemma m_roll_back [simp]:
  "m_locks (roll_back k st m) = (m_locks m)(k := None)"
  "m_writes (roll_back k st m) = (m_writes m)((k, st) \<mapsto> wr_new st Rollback)"
  "m_vals (roll_back k st m) = m_vals m"
  by (simp_all add: roll_back_def)

lemma m_drop [simp]:
  "m_locks (drop_version k t m) = m_locks m"
  "m_writes (drop_version k t m) = (m_writes m)((k, t) := None)"
  "m_vals (drop_version k t m) = m_vals m"
  "m_locks (drop_value k t m) = m_locks m"
  "m_writes (drop_value k t m) = m_writes m"
  "m_vals (drop_value k t m) = (m_vals m)((k, t) := None)"
  by (simp_all add: drop_version_def drop_value_def)

lemma wr_new_simps [simp]: "wr_start_ts (wr_new st op) = st" "wr_op (wr_new st op) = op"
  by (simp_all add: wr_new_def)

section \<open>Non-overlapping writes\<close>

definition si_inv :: "mvcc \<Rightarrow> bool" where
  "si_inv m \<longleftrightarrow>
     (\<forall>k t r. committed m k t r \<longrightarrow> wr_start_ts r \<le> t) \<and>
     (\<forall>k t r t' r'. committed m k t r \<and> committed m k t' r' \<and> t < t' \<longrightarrow> t < wr_start_ts r') \<and>
     (\<forall>k l t r. m_locks m k = Some l \<and> committed m k t r \<longrightarrow> t < lock_start_ts l)"

lemma si_invI:
  assumes "\<And>k t r. committed m k t r \<Longrightarrow> wr_start_ts r \<le> t"
    and "\<And>k t r t' r'. committed m k t r \<Longrightarrow> committed m k t' r' \<Longrightarrow> t < t' \<Longrightarrow> t < wr_start_ts r'"
    and "\<And>k l t r. m_locks m k = Some l \<Longrightarrow> committed m k t r \<Longrightarrow> t < lock_start_ts l"
  shows "si_inv m"
  using assms unfolding si_inv_def by blast

lemma si_invD:
  assumes "si_inv m"
  shows "committed m k t r \<Longrightarrow> wr_start_ts r \<le> t"
    and "committed m k t r \<Longrightarrow> committed m k t' r' \<Longrightarrow> t < t' \<Longrightarrow> t < wr_start_ts r'"
    and "m_locks m k = Some l \<Longrightarrow> committed m k t r \<Longrightarrow> t < lock_start_ts l"
  using assms unfolding si_inv_def by blast+

text \<open>Fewer committed records and locks no newer than before keep the invariant.\<close>

lemma si_inv_weaken:
  assumes "si_inv m"
    and "\<And>k t r. committed m' k t r \<Longrightarrow> committed m k t r"
    and "\<And>k l. m_locks m' k = Some l \<Longrightarrow>
      (\<exists>l'. m_locks m k = Some l' \<and> lock_start_ts l' = lock_start_ts l) \<or> free_for (lock_start_ts l) k m"
  shows "si_inv m'"
proof (rule si_invI)
  fix k l t r
  assume l: "m_locks m' k = Some l" and c: "committed m' k t r"
  from assms(2) [OF c] have c': "committed m k t r" .
  from assms(3) [OF l] show "t < lock_start_ts l"
  proof (elim disjE exE conjE)
    fix l' assume "m_locks m k = Some l'" "lock_start_ts l' = lock_start_ts l"
    with si_invD(3) [OF assms(1) _ c'] show ?thesis by metis
  next
    assume "free_for (lock_start_ts l) k m"
    with c' show ?thesis by (auto simp: free_for_def committed_def)
  qed
qed (use si_invD [OF assms(1)] assms(2) in blast)+

lemma committed_roll_forward:
  "committed (roll_forward k st ct op m) k' t r \<longleftrightarrow>
     (if k' = k \<and> t = ct then r = wr_new st op \<and> op \<noteq> Rollback else committed m k' t r)"
  by (auto simp: committed_def)

lemma si_inv_commit:
  assumes inv: "si_inv m" and l: "m_locks m k = Some l" and ct: "lock_start_ts l \<le> ct"
  shows "si_inv (roll_forward k (lock_start_ts l) ct op m)"
proof (rule si_invI)
  let ?m = "roll_forward k (lock_start_ts l) ct op m"
  note old = si_invD [OF inv]
  show "wr_start_ts r \<le> t" if "committed ?m k' t r" for k' t r
    using that ct old(1) by (auto simp: committed_roll_forward split: if_splits)
  show "t < wr_start_ts r'" if "committed ?m k' t r" "committed ?m k' t' r'" "t < t'" for k' t r t' r'
  proof (cases "k' = k \<and> (t = ct \<or> t' = ct)")
    case True
    have "t'' < lock_start_ts l" if "committed m k t'' r''" for t'' r''
      using old(3) [OF l that] .
    with True that ct show ?thesis
      by (auto simp: committed_roll_forward split: if_splits)
         (meson leD less_le_trans less_trans)+
  next
    case False
    with that old(2) show ?thesis by (auto simp: committed_roll_forward split: if_splits)
  qed
  show "t < lock_start_ts l'" if "m_locks ?m k' = Some l'" "committed ?m k' t r" for k' l' t r
    using that old(3) by (auto simp: committed_roll_forward split: if_splits)
qed

lemma mvcc_step_si: "mvcc_step m m' \<Longrightarrow> si_inv m \<Longrightarrow> si_inv m'"
proof (induction rule: mvcc_step.induct)
  case (step_commit m k l st ct op)
  then show ?case using si_inv_commit by blast
next
  case (step_rollback m' k st m)
  then show ?case
    by (elim disjE; intro si_inv_weaken [OF \<open>si_inv m\<close>]) (auto simp: committed_def split: if_splits)
qed (erule si_inv_weaken; auto simp: committed_def split: if_splits)+

theorem mvcc_steps_si: "mvcc_steps m m' \<Longrightarrow> si_inv m \<Longrightarrow> si_inv m'"
  by (induction rule: rtranclp_induct) (auto intro: mvcc_step_si)

lemma si_inv_mem_init: "si_inv (abs_mvcc (mem_view (mem_init c)))"
  by (simp add: si_inv_def committed_def mem_init_empty)

end
