(* ===== verification/Lock_Resolver.thy ===== *)
theory Lock_Resolver
  imports Mvcc_Steps
begin

text \<open>
  \<^verbatim>\<open>txn-coordinator/src/lock_resolver.rs\<close>: looking up the fate of a transaction at its
  primary key and resolving a lock by rolling it forward or back. The abstract
  counterparts are the relations \<open>status_spec\<close> and \<open>resolve_spec\<close>, indexed by the reading of the
  wall clock that decides whether a lease is over (\<open>lease_over\<close>, in milliseconds). The refinement
  lemmas say that the code behaves as the relation allows at the reading it took (\<open>status_clock\<close>,
  \<open>resolve_clock\<close>), or stops on an engine failure with the state as it was.
\<close>

section \<open>The resolver\<close>

datatype LockResolverError =
    LR_Storage StorageError
  | LR_Fjall fjall_error
  | LR_Mvcc MvccError
  | LockActiveNotExpired

datatype TxnStatus = Committed u64 | RolledBack | Locked u64

text \<open>The scan of the write partition for a record of the transaction; \<open>None\<close> when the loop
  ends without one.\<close>

fun status_scan :: "bytes \<Rightarrow> u64 \<Rightarrow> items \<Rightarrow> LockResolverError + TxnStatus option" where
  "status_scan primary_key start_ts [] = Inr None"
| "status_scan primary_key start_ts (Inl e # its) = Inl (LR_Fjall e)"
| "status_scan primary_key start_ts (Inr (enc_key, write_bytes) # its) =
     (case key_decode enc_key of
        Inl _ \<Rightarrow> Inl (LR_Mvcc CorruptedState)
      | Inr (curr_user_key, commit_ts) \<Rightarrow>
          if curr_user_key = primary_key then
            (case wr_from_bytes write_bytes of
               Some record \<Rightarrow>
                 if wr_start_ts record = start_ts then
                   (case wr_op record of
                      Put \<Rightarrow> Inr (Some (Committed commit_ts))
                    | Delete \<Rightarrow> Inr (Some (Committed commit_ts))
                    | Rollback \<Rightarrow> Inr (Some RolledBack))
                 else status_scan primary_key start_ts its
             | None \<Rightarrow> status_scan primary_key start_ts its)
          else Inr None)"

text \<open>The batch that rolls a key back: a rollback record at the start timestamp, the lock removed.\<close>

definition rollback_batch :: "bytes \<Rightarrow> u64 \<Rightarrow> batch" where
  "rollback_batch key start_ts =
     [Insert P_Write (key_encode key start_ts) (wr_to_bytes (wr_new start_ts Rollback)),
      Remove P_Lock key]"

text \<open>\<^verbatim>\<open>now_phys > start_phys + ttl\<close>, in 64-bit arithmetic.\<close>

definition ttl_expired :: "u64 \<Rightarrow> u64 \<Rightarrow> u64 \<Rightarrow> bool" where
  "ttl_expired now_phys start_ts ttl \<longleftrightarrow> now_phys > drop_bit 16 start_ts + ttl"

text \<open>Step 2 of \<^verbatim>\<open>check_txn_status\<close>, when no record of the transaction was found.\<close>

definition check_primary_lock ::
  "'s env \<Rightarrow> bytes \<Rightarrow> u64 \<Rightarrow> 's \<Rightarrow> (LockResolverError + TxnStatus) \<times> 's" where
  "check_primary_lock E primary_key start_ts s =
     (case fj_get E P_Lock primary_key s of
        (Inl e, s1) \<Rightarrow> (Inl (LR_Fjall e), s1)
      | (Inr None, s1) \<Rightarrow> (Inr RolledBack, s1)
      | (Inr (Some lock_bytes), s1) \<Rightarrow>
          (case lock_from_bytes lock_bytes of
             Inl _ \<Rightarrow> (Inr RolledBack, s1)
           | Inr lock \<Rightarrow>
               if lock_start_ts lock = start_ts then
                 (case sys_now E s1 of (now_phys, s2) \<Rightarrow>
                   if ttl_expired now_phys start_ts (lock_ttl lock) then
                     (case commit_batch E (rollback_batch primary_key start_ts) s2 of
                        (Inl e, s3) \<Rightarrow> (Inl (LR_Storage e), s3)
                      | (Inr _, s3) \<Rightarrow> (Inr RolledBack, s3))
                   else (Inr (Locked (lock_ttl lock)), s2))
               else (Inr RolledBack, s1)))"

definition check_txn_status ::
  "'s env \<Rightarrow> bytes \<Rightarrow> u64 \<Rightarrow> 's \<Rightarrow> (LockResolverError + TxnStatus) \<times> 's" where
  "check_txn_status E primary_key start_ts s =
     (case fj_range_from E P_Write (key_encode primary_key (-1)) s of (its, s1) \<Rightarrow>
       (case status_scan primary_key start_ts its of
          Inl e \<Rightarrow> (Inl e, s1)
        | Inr (Some status) \<Rightarrow> (Inr status, s1)
        | Inr None \<Rightarrow> check_primary_lock E primary_key start_ts s1))"

text \<open>Committing a batch at the end of \<^verbatim>\<open>resolve_lock\<close>.\<close>

definition resolve_commit :: "'s env \<Rightarrow> batch \<Rightarrow> 's \<Rightarrow> (LockResolverError + unit) \<times> 's" where
  "resolve_commit E b s =
     (case commit_batch E b s of
        (Inl e, s') \<Rightarrow> (Inl (LR_Storage e), s')
      | (Inr _, s') \<Rightarrow> (Inr (), s'))"

definition resolve_lock :: "'s env \<Rightarrow> bytes \<Rightarrow> Lock \<Rightarrow> 's \<Rightarrow> (LockResolverError + unit) \<times> 's" where
  "resolve_lock E key lock s =
     (case check_txn_status E (lock_primary_key lock) (lock_start_ts lock) s of
        (Inl e, s1) \<Rightarrow> (Inl e, s1)
      | (Inr (Committed commit_ts), s1) \<Rightarrow>
          resolve_commit E
            [Insert P_Write (key_encode key commit_ts)
               (wr_to_bytes (wr_new (lock_start_ts lock) (lock_op lock))),
             Remove P_Lock key] s1
      | (Inr RolledBack, s1) \<Rightarrow> resolve_commit E (rollback_batch key (lock_start_ts lock)) s1
      | (Inr (Locked _), s1) \<Rightarrow>
          (case sys_now E s1 of (now_phys, s2) \<Rightarrow>
            if ttl_expired now_phys (lock_start_ts lock) (lock_ttl lock)
            then resolve_commit E (rollback_batch key (lock_start_ts lock)) s2
            else (Inl LockActiveNotExpired, s2)))"

section \<open>Specification\<close>

text \<open>\<open>r\<close>, written at \<open>t\<close>, is the newest record of the transaction \<open>st\<close> on the key.\<close>

definition newest_of :: "mvcc \<Rightarrow> bytes \<Rightarrow> u64 \<Rightarrow> u64 \<Rightarrow> WriteRecord \<Rightarrow> bool" where
  "newest_of m k st t r \<longleftrightarrow>
     m_writes m (k, t) = Some r \<and> wr_start_ts r = st \<and>
     (\<forall>t' r'. m_writes m (k, t') = Some r' \<and> t < t' \<longrightarrow> wr_start_ts r' \<noteq> st)"

text \<open>The lease of a lock is over: the clock, in milliseconds, is past the physical part of the start
  timestamp plus the time to live. The sum is a 64-bit one; it does not wrap for a time to live
  below \<open>2 ^ 64 - 2 ^ 48\<close>.\<close>

definition lease_over :: "u64 \<Rightarrow> u64 \<Rightarrow> u64 \<Rightarrow> bool" where
  "lease_over now st ttl \<longleftrightarrow> (unat st div 2 ^ 16 + unat ttl) mod 2 ^ 64 < unat now"

lemma lease_over_small:
  assumes "unat ttl < 2 ^ 64 - 2 ^ 48"
  shows "lease_over now st ttl \<longleftrightarrow> unat st div 2 ^ 16 + unat ttl < unat now"
proof -
  have "unat st div 2 ^ 16 < 2 ^ 48"
    using unsigned_less [where ?'a = nat and w = st] by (simp add: less_mult_imp_div_less)
  with assms show ?thesis by (simp add: lease_over_def)
qed

lemma ttl_expired_iff: "ttl_expired now st ttl \<longleftrightarrow> lease_over now st ttl"
proof -
  have "unat (drop_bit 16 st + ttl) = (unat st div 2 ^ 16 + unat ttl) mod 2 ^ 64"
    by (simp add: unat_word_ariths unat_drop_bit_eq drop_bit_eq_div mod_add_left_eq)
  then show ?thesis by (simp add: ttl_expired_def lease_over_def word_less_nat_alt)
qed

definition no_record :: "mvcc \<Rightarrow> bytes \<Rightarrow> u64 \<Rightarrow> bool" where
  "no_record m k st \<longleftrightarrow> (\<nexists>t r. m_writes m (k, t) = Some r \<and> wr_start_ts r = st)"

inductive status_spec :: "u64 \<Rightarrow> bytes \<Rightarrow> u64 \<Rightarrow> mvcc \<Rightarrow> TxnStatus \<Rightarrow> mvcc \<Rightarrow> bool" for now pk st m where
  status_committed: "newest_of m pk st t r \<Longrightarrow> wr_op r \<noteq> Rollback \<Longrightarrow>
     status_spec now pk st m (Committed t) m"
| status_rolled_back: "newest_of m pk st t r \<Longrightarrow> wr_op r = Rollback \<Longrightarrow>
     status_spec now pk st m RolledBack m"
| status_unknown: "no_record m pk st \<Longrightarrow> \<nexists>l. m_locks m pk = Some l \<and> lock_start_ts l = st \<Longrightarrow>
     status_spec now pk st m RolledBack m"
| status_expired: "no_record m pk st \<Longrightarrow> m_locks m pk = Some l \<Longrightarrow> lock_start_ts l = st \<Longrightarrow>
     lease_over now st (lock_ttl l) \<Longrightarrow> status_spec now pk st m RolledBack (roll_back pk st m)"
| status_live: "no_record m pk st \<Longrightarrow> m_locks m pk = Some l \<Longrightarrow> lock_start_ts l = st \<Longrightarrow>
     \<not> lease_over now st (lock_ttl l) \<Longrightarrow> status_spec now pk st m (Locked (lock_ttl l)) m"

inductive resolve_spec ::
  "u64 \<Rightarrow> u64 \<Rightarrow> bytes \<Rightarrow> Lock \<Rightarrow> mvcc \<Rightarrow> LockResolverError + unit \<Rightarrow> mvcc \<Rightarrow> bool" for now now' k l m where
  resolve_forward: "status_spec now (lock_primary_key l) (lock_start_ts l) m (Committed ct) m1 \<Longrightarrow>
     resolve_spec now now' k l m (Inr ()) (roll_forward k (lock_start_ts l) ct (lock_op l) m1)"
| resolve_back: "status_spec now (lock_primary_key l) (lock_start_ts l) m RolledBack m1 \<Longrightarrow>
     resolve_spec now now' k l m (Inr ()) (roll_back k (lock_start_ts l) m1)"
| resolve_expired: "status_spec now (lock_primary_key l) (lock_start_ts l) m (Locked ttl) m1 \<Longrightarrow>
     lease_over now' (lock_start_ts l) (lock_ttl l) \<Longrightarrow>
     resolve_spec now now' k l m (Inr ()) (roll_back k (lock_start_ts l) m1)"
| resolve_live: "status_spec now (lock_primary_key l) (lock_start_ts l) m (Locked ttl) m1 \<Longrightarrow>
     \<not> lease_over now' (lock_start_ts l) (lock_ttl l) \<Longrightarrow>
     resolve_spec now now' k l m (Inl LockActiveNotExpired) m1"

inductive_cases status_committedE: "status_spec now pk st m (Committed ct) m'"
inductive_cases resolve_okE: "resolve_spec now now' k l m (Inr ()) m'"

text \<open>The errors an engine failure gives.\<close>

fun resolver_io :: "LockResolverError \<Rightarrow> bool" where
  "resolver_io (LR_Storage (Storage_Fjall _)) = True"
| "resolver_io (LR_Fjall _) = True"
| "resolver_io _ = False"

section \<open>The scan\<close>

definition status_of :: "(u64 \<times> WriteRecord) option \<Rightarrow> TxnStatus option" where
  "status_of = map_option (\<lambda>(t, r). if wr_op r = Rollback then RolledBack else Committed t)"

lemma status_scan_find:
  assumes "yields its kvs" "decodes kvs"
  shows "(\<exists>e. status_scan k st its = Inl (LR_Fjall e)) \<or>
    status_scan k st its = Inr (status_of (find (\<lambda>(t, r). wr_start_ts r = st) (records k kvs)))"
  using assms
proof (induction its arbitrary: kvs)
  case (Cons it its)
  show ?case
  proof (cases it)
    case (Inr kv)
    with Cons.prems obtain kvs' where kvs: "kvs = kv # kvs'" "yields its kvs'"
      by (cases kvs) auto
    from Cons.prems(2) kvs obtain ek b k' t r where
      d: "kv = (ek, b)" "key_decode ek = Inr (k', t)" "wr_from_bytes b = Some r" "decodes kvs'"
      by (auto elim: decodes_ConsE)
    with Cons.IH [OF kvs(2) d(4)] kvs Inr show ?thesis
      by (cases "wr_op r") (auto simp: status_of_def)
  qed simp
qed (simp add: status_of_def)

lemma find_newest_of:
  assumes sorted: "sorted_wrt (>) (map fst rs)"
    and rs: "set rs = {(t, r). m_writes m (k, t) = Some r}"
  shows "find (\<lambda>(t, r). wr_start_ts r = st) rs = Some (t, r) \<Longrightarrow> newest_of m k st t r"
    and "find (\<lambda>(t, r). wr_start_ts r = st) rs = None \<Longrightarrow> no_record m k st"
proof -
  assume "find (\<lambda>(t, r). wr_start_ts r = st) rs = Some (t, r)"
  from find_sorted_least [OF sorted this] rs show "newest_of m k st t r"
    by (auto simp: newest_of_def)
next
  assume "find (\<lambda>(t, r). wr_start_ts r = st) rs = None"
  with rs show "no_record m k st"
    by (auto simp: find_None_iff no_record_def)
qed

section \<open>Refinement\<close>

lemma abs_rollback_batch [view_simps]:
  "abs_mvcc (apply_batch (rollback_batch k st) v) = roll_back k st (abs_mvcc v)"
  unfolding rollback_batch_def roll_back_def apply_batch_Cons apply_batch_Nil
  by (simp only: abs_remove_lock abs_insert_write)

lemma wf_rollback_batch [view_simps]:
  "wf_store K v \<Longrightarrow> k \<in> K \<Longrightarrow> wf_store K (apply_batch (rollback_batch k st) v)"
  unfolding rollback_batch_def apply_batch_Cons apply_batch_Nil
  by (intro wf_remove_lock wf_insert_write)

lemma abs_roll_forward_batch [view_simps]:
  "abs_mvcc (apply_batch [Insert P_Write (key_encode k ct) (wr_to_bytes (wr_new st op)), Remove P_Lock k] v) =
   roll_forward k st ct op (abs_mvcc v)"
  unfolding roll_forward_def apply_batch_Cons apply_batch_Nil
  by (simp only: abs_remove_lock abs_insert_write)

lemma wf_roll_forward_batch [view_simps]:
  "wf_store K v \<Longrightarrow> k \<in> K \<Longrightarrow>
   wf_store K (apply_batch [Insert P_Write (key_encode k ct) (wr_to_bytes (wr_new st op)), Remove P_Lock k] v)"
  unfolding apply_batch_Cons apply_batch_Nil
  by (intro wf_remove_lock wf_insert_write)

text \<open>The readings of the clock: \<open>check_txn_status\<close> takes one after the scan and the lookup of the
  lock, \<open>resolve_lock\<close> another one after \<open>check_txn_status\<close>.\<close>

definition status_clock :: "'s env \<Rightarrow> bytes \<Rightarrow> 's \<Rightarrow> u64" where
  "status_clock E pk s =
     fst (sys_now E (snd (fj_get E P_Lock pk (snd (fj_range_from E P_Write (key_encode pk (-1)) s)))))"

definition resolve_clock :: "'s env \<Rightarrow> Lock \<Rightarrow> 's \<Rightarrow> u64" where
  "resolve_clock E l s = fst (sys_now E (snd (check_txn_status E (lock_primary_key l) (lock_start_ts l) s)))"

text \<open>A status, or an error of the engine that changed nothing.\<close>

definition status_run :: "bytes set \<Rightarrow> u64 \<Rightarrow> bytes \<Rightarrow> u64 \<Rightarrow> view \<Rightarrow> LockResolverError + TxnStatus \<Rightarrow> view \<Rightarrow> bool" where
  "status_run K now pk st v r v' \<longleftrightarrow> wf_store K v' \<and>
     ((\<exists>e. r = Inl e \<and> resolver_io e \<and> v' = v) \<or>
      (\<exists>status. r = Inr status \<and> status_spec now pk st (abs_mvcc v) status (abs_mvcc v')))"

text \<open>The outcome of \<^verbatim>\<open>resolve_lock\<close>: the specification, or an error of the engine, after which the
  status of the transaction may have been settled.\<close>

definition resolve_run :: "bytes set \<Rightarrow> u64 \<Rightarrow> u64 \<Rightarrow> bytes \<Rightarrow> Lock \<Rightarrow> view \<Rightarrow> LockResolverError + unit \<Rightarrow> view \<Rightarrow> bool" where
  "resolve_run K now now' k l v r v' \<longleftrightarrow> wf_store K v' \<and>
     ((\<exists>e. r = Inl e \<and> resolver_io e \<and> (v' = v \<or>
         (\<exists>status. status_spec now (lock_primary_key l) (lock_start_ts l) (abs_mvcc v) status (abs_mvcc v')))) \<or>
      resolve_spec now now' k l (abs_mvcc v) r (abs_mvcc v'))"

context fjall
begin

lemma status_scan_cases:
  assumes good: "good_keys K" and pk: "pk \<in> K" and wf: "wf_store K (view s)"
    and rng: "fj_range_from E P_Write (key_encode pk (-1)) s = (its, s1)"
  obtains (io) e where "status_scan pk st its = Inl (LR_Fjall e)"
    | (found) t w where "newest_of (abs_mvcc (view s)) pk st t w"
        "status_scan pk st its = Inr (Some (if wr_op w = Rollback then RolledBack else Committed t))"
    | (none) "no_record (abs_mvcc (view s)) pk st" "status_scan pk st its = Inr None"
proof -
  obtain kvs where kvs: "yields its kvs" "scan_of (view s P_Write) (key_encode pk (-1)) kvs"
    using range_yields [OF rng] by blast
  let ?f = "find (\<lambda>(t, r). wr_start_ts r = st) (records pk kvs)"
  note newest = find_newest_of [OF records_scan(2) [OF good pk wf kvs(2)] records_scan_all [OF good pk wf kvs(2)]]
  from status_scan_find [OF kvs(1) scan_of_decodes [OF wf kvs(2)]]
  consider (io') e where "status_scan pk st its = Inl (LR_Fjall e)"
    | (scan) "status_scan pk st its = Inr (status_of ?f)" by blast
  then show ?thesis
  proof cases
    case io'
    then show ?thesis by (rule io)
  next
    case scan
    show ?thesis
    proof (cases ?f)
      case None
      with scan none newest(2) show ?thesis by (simp add: status_of_def)
    next
      case (Some tr)
      obtain t w where tr: "tr = (t, w)" by force
      with newest(1) Some scan show ?thesis
        by (intro found [of t w]) (auto simp: status_of_def)
    qed
  qed
qed

lemma check_primary_lock_run:
  assumes pk: "pk \<in> K" and wf: "wf_store K (view s)" and nr: "no_record (abs_mvcc (view s)) pk st"
    and run: "check_primary_lock E pk st s = (r, s')"
  shows "status_run K (fst (sys_now E (snd (fj_get E P_Lock pk s)))) pk st (view s) r (view s')"
proof -
  obtain g s1 where g: "fj_get E P_Lock pk s = (g, s1)" by force
  note v1 = get_keeps [OF g]
  have gv: "v = view s P_Lock pk" if "g = Inr v" for v
    using get_value g that by metis
  show ?thesis
  proof (cases "\<exists>b l. g = Inr (Some b) \<and> lock_from_bytes b = Inr l \<and> lock_start_ts l = st")
    case False
    have "\<nexists>l. m_locks (abs_mvcc (view s)) pk = Some l \<and> lock_start_ts l = st" if "g = Inr v" for v
      using False that gv [OF that] by (auto elim!: m_locks_SomeD)
    moreover have "s' = s1 \<and> (case g of Inl e \<Rightarrow> r = Inl (LR_Fjall e) | Inr _ \<Rightarrow> r = Inr RolledBack)"
      using run g False by (auto simp: check_primary_lock_def split: sum.splits option.splits)
    ultimately show ?thesis
      using nr v1 wf by (cases g) (auto simp: status_run_def intro: status_unknown)
  next
    case True
    then obtain b l where b: "g = Inr (Some b)" "lock_from_bytes b = Inr l" "lock_start_ts l = st"
      by blast
    have "view s P_Lock pk = Some b" using gv [OF b(1)] by (rule sym)
    then have l: "m_locks (abs_mvcc (view s)) pk = Some l"
      using b(2) by (simp add: m_locks_abs typed_def lock_decode_def)
    obtain now s2 where now: "sys_now E s1 = (now, s2)" by force
    then have clock: "fst (sys_now E (snd (fj_get E P_Lock pk s))) = now" by (simp add: g)
    have v2: "view s2 = view s" using now_keeps [OF now] v1 by simp
    show ?thesis
    proof (cases "ttl_expired now st (lock_ttl l)")
      case False
      with run g b now have "r = Inr (Locked (lock_ttl l))" "s' = s2"
        by (simp_all add: check_primary_lock_def)
      with status_live [OF nr l b(3) False [unfolded ttl_expired_iff]] v2 wf show ?thesis by (auto simp: status_run_def clock)
    next
      case exp: True
      obtain c s3 where c: "commit_batch E (rollback_batch pk st) s2 = (c, s3)" by force
      with run g b now exp
      have rs: "s' = s3" "r = (case c of Inl e \<Rightarrow> Inl (LR_Storage e) | Inr _ \<Rightarrow> Inr RolledBack)"
        by (auto simp: check_primary_lock_def split: sum.splits)
      from c show ?thesis
        by (cases rule: commit_batch_cases)
           (use rs v2 wf pk status_expired [OF nr l b(3) exp [unfolded ttl_expired_iff]] in \<open>auto simp: view_simps status_run_def clock\<close>)
    qed
  qed
qed

lemma check_txn_status_run:
  assumes good: "good_keys K" and pk: "pk \<in> K" and wf: "wf_store K (view s)"
    and run: "check_txn_status E pk st s = (r, s')"
  shows "status_run K (status_clock E pk s) pk st (view s) r (view s')"
proof -
  obtain its s1 where rng: "fj_range_from E P_Write (key_encode pk (-1)) s = (its, s1)" by force
  note v1 = range_keeps [OF rng]
  from good pk wf rng show ?thesis
  proof (cases rule: status_scan_cases [where st = st])
    case (io e)
    with run rng v1 wf show ?thesis by (auto simp: check_txn_status_def status_run_def)
  next
    case (found t w)
    from run rng found(2) have "r = Inr (if wr_op w = Rollback then RolledBack else Committed t)" "s' = s1"
      by (simp_all add: check_txn_status_def)
    with found(1) v1 wf show ?thesis
      by (auto simp: status_run_def intro: status_committed status_rolled_back)
  next
    case none
    with run rng have "check_primary_lock E pk st s1 = (r, s')" by (simp add: check_txn_status_def)
    from check_primary_lock_run [OF pk _ _ this] v1 wf none(1) show ?thesis
      by (simp add: status_clock_def rng)
  qed
qed

lemma check_txn_status_refines:
  assumes "good_keys K" "pk \<in> K" "wf_store K (view s)" "check_txn_status E pk st s = (r, s')"
  shows "wf_store K (view s') \<and>
    ((\<exists>e. r = Inl e \<and> resolver_io e \<and> view s' = view s) \<or>
     (\<exists>now status. r = Inr status \<and> status_spec now pk st (abs_mvcc (view s)) status (abs_mvcc (view s'))))"
  using check_txn_status_run [OF assms] unfolding status_run_def by blast

lemma resolve_commit_cases:
  assumes "resolve_commit E b s = (r, s')"
  obtains (ok) "r = Inr ()" "view s' = apply_batch b (view s)"
    | (io) e where "r = Inl (LR_Storage (Storage_Fjall e))" "view s' = view s"
proof -
  obtain c s1 where c: "commit_batch E b s = (c, s1)" by force
  from c show ?thesis
    by (cases rule: commit_batch_cases) (use assms c that in \<open>auto simp: resolve_commit_def\<close>)
qed

text \<open>The batch at the end, when its effect is what the specification asks for.\<close>

lemma resolve_commit_run:
  assumes "resolve_commit E b s2 = (r, s')" "view s2 = v1" "wf_store K v1"
    and "status_spec now (lock_primary_key l) (lock_start_ts l) (abs_mvcc v) status (abs_mvcc v1)"
    and "wf_store K (apply_batch b v1)" "resolve_spec now now' k l (abs_mvcc v) (Inr ()) (abs_mvcc (apply_batch b v1))"
  shows "resolve_run K now now' k l v r (view s')"
  using assms(1)
proof (cases rule: resolve_commit_cases)
  case ok
  with assms(2,5,6) show ?thesis unfolding resolve_run_def by auto
next
  case (io e)
  with assms(2-4) show ?thesis unfolding resolve_run_def by auto
qed

lemma resolve_lock_run:
  assumes k: "k \<in> K" and wf1: "wf_store K (view s1)"
    and c: "check_txn_status E (lock_primary_key l) (lock_start_ts l) s = (Inr status, s1)"
    and st: "status_spec now (lock_primary_key l) (lock_start_ts l) (abs_mvcc (view s)) status (abs_mvcc (view s1))"
    and run: "resolve_lock E k l s = (r, s')"
  shows "resolve_run K now (resolve_clock E l s) k l (view s) r (view s')"
proof (cases status)
  case (Committed ct)
  let ?b = "[Insert P_Write (key_encode k ct) (wr_to_bytes (wr_new (lock_start_ts l) (lock_op l))), Remove P_Lock k]"
  have "resolve_commit E ?b s1 = (r, s')" using run c Committed by (simp add: resolve_lock_def)
  from resolve_commit_run [OF this refl wf1 st wf_roll_forward_batch [OF wf1 k]] st Committed show ?thesis
    unfolding abs_roll_forward_batch by (blast intro: resolve_forward)
next
  case RolledBack
  then have "resolve_commit E (rollback_batch k (lock_start_ts l)) s1 = (r, s')"
    using run c by (simp add: resolve_lock_def)
  from resolve_commit_run [OF this refl wf1 st wf_rollback_batch [OF wf1 k]] st RolledBack show ?thesis
    unfolding abs_rollback_batch by (blast intro: resolve_back)
next
  case (Locked ttl)
  obtain n s2 where n: "sys_now E s1 = (n, s2)" by force
  note v2 = now_keeps [OF n]
  have clock: "resolve_clock E l s = n" by (simp add: resolve_clock_def c n)
  show ?thesis
  proof (cases "ttl_expired n (lock_start_ts l) (lock_ttl l)")
    case True
    with run c n Locked have "resolve_commit E (rollback_batch k (lock_start_ts l)) s2 = (r, s')"
      by (simp add: resolve_lock_def)
    from resolve_commit_run [OF this v2 wf1 st wf_rollback_batch [OF wf1 k]] st Locked True show ?thesis
      unfolding abs_rollback_batch ttl_expired_iff clock by (blast intro: resolve_expired)
  next
    case False
    with run c n Locked have "r = Inl LockActiveNotExpired" "s' = s2" by (simp_all add: resolve_lock_def)
    with resolve_live [OF st [unfolded Locked] False [unfolded ttl_expired_iff]] v2 wf1 show ?thesis
      unfolding resolve_run_def clock by auto
  qed
qed

lemma resolve_lock_runs:
  assumes good: "good_keys K" and k: "k \<in> K" and pk: "lock_primary_key l \<in> K"
    and wf: "wf_store K (view s)" and run: "resolve_lock E k l s = (r, s')"
  shows "resolve_run K (status_clock E (lock_primary_key l) s) (resolve_clock E l s) k l (view s) r (view s')"
proof -
  obtain c s1 where c: "check_txn_status E (lock_primary_key l) (lock_start_ts l) s = (c, s1)" by force
  note ref = check_txn_status_run [OF good pk wf c, unfolded status_run_def]
  show ?thesis
  proof (cases c)
    case (Inl e)
    with ref run c wf show ?thesis by (auto simp: resolve_lock_def resolve_run_def)
  next
    case (Inr status)
    with ref have wf1: "wf_store K (view s1)"
      and st: "status_spec (status_clock E (lock_primary_key l) s) (lock_primary_key l) (lock_start_ts l)
        (abs_mvcc (view s)) status (abs_mvcc (view s1))"
      by auto
    show ?thesis by (rule resolve_lock_run [OF k wf1 c [unfolded Inr] st run])
  qed
qed

lemma resolve_lock_refines:
  assumes "good_keys K" "k \<in> K" "lock_primary_key l \<in> K" "wf_store K (view s)" "resolve_lock E k l s = (r, s')"
  shows "wf_store K (view s') \<and>
    ((\<exists>e. r = Inl e \<and> resolver_io e \<and> (view s' = view s \<or>
        (\<exists>now status. status_spec now (lock_primary_key l) (lock_start_ts l)
           (abs_mvcc (view s)) status (abs_mvcc (view s'))))) \<or>
     (\<exists>now now'. resolve_spec now now' k l (abs_mvcc (view s)) r (abs_mvcc (view s'))))"
  using resolve_lock_runs [OF assms] unfolding resolve_run_def by blast

end

section \<open>No failures\<close>

context fjall_reliable
begin

lemma status_scan_no_fault: "status_scan k st (map Inr kvs) = Inl e \<Longrightarrow> e = LR_Mvcc CorruptedState"
  by (induction kvs) (auto split: sum.splits option.splits OpType.splits if_splits)

lemma check_txn_status_total:
  assumes "good_keys K" "pk \<in> K" "wf_store K (view s)"
  obtains status s' where "check_txn_status E pk st s = (Inr status, s')"
    "wf_store K (view s')" "status_spec (status_clock E pk s) pk st (abs_mvcc (view s)) status (abs_mvcc (view s'))"
proof -
  obtain r s' where run: "check_txn_status E pk st s = (r, s')" by force
  obtain kvs s1 where rng: "fj_range_from E P_Write (key_encode pk (-1)) s = (map Inr kvs, s1)"
    by (rule range_reliable)
  obtain s2 where g: "fj_get E P_Lock pk s1 = (Inr (view s1 P_Lock pk), s2)"
    by (rule get_reliable)
  obtain n s3 where n: "sys_now E s2 = (n, s3)" by force
  obtain s4 where c: "commit_batch E (rollback_batch pk st) s3 = (Inr (), s4)"
    by (rule commit_batch_reliable)
  have "\<not> resolver_io e" if "r = Inl e" for e
    using run rng g n c that
    by (cases e rule: resolver_io.cases)
       (auto dest: status_scan_no_fault simp: check_txn_status_def check_primary_lock_def
          split: sum.splits option.splits if_splits)
  with check_txn_status_run [OF assms run] run that show ?thesis unfolding status_run_def by blast
qed

lemma resolve_lock_total:
  assumes "good_keys K" "k \<in> K" "lock_primary_key l \<in> K" "wf_store K (view s)"
  obtains r s' where "resolve_lock E k l s = (r, s')" "wf_store K (view s')"
    "resolve_spec (status_clock E (lock_primary_key l) s) (resolve_clock E l s) k l (abs_mvcc (view s)) r (abs_mvcc (view s'))"
proof -
  obtain r s' where run: "resolve_lock E k l s = (r, s')" by force
  have commit: "fst (resolve_commit E b s2) = Inr ()" for b s2
    by (rule commit_batch_reliable [of b s2]) (simp add: resolve_commit_def)
  obtain status s1 where "check_txn_status E (lock_primary_key l) (lock_start_ts l) s = (Inr status, s1)"
    by (rule check_txn_status_total [OF assms(1,3,4)])
  with run commit have "r = Inr () \<or> r = Inl LockActiveNotExpired"
    by (auto simp: resolve_lock_def split: TxnStatus.splits prod.splits if_splits)
       (metis fst_conv)+
  then have "\<not> resolver_io e" if "r = Inl e" for e
    using that by auto
  with resolve_lock_runs [OF assms run] run that show ?thesis unfolding resolve_run_def by blast
qed

end

section \<open>The resolver and the state machine\<close>

lemma status_spec_steps: "status_spec now pk st m status m' \<Longrightarrow> mvcc_steps m m'"
  by (induction rule: status_spec.induct) (auto intro: mvcc_steps_one step_rollback)

lemma status_spec_committedD:
  assumes "status_spec now pk st m (Committed ct) m'"
  shows "m' = m" and "\<exists>r. committed m pk ct r \<and> wr_start_ts r = st"
  using assms by (auto elim!: status_committedE simp: newest_of_def committed_def)

lemma resolve_spec_steps:
  assumes inv: "si_inv m" and l: "m_locks m k = Some l'" "lock_start_ts l' = lock_start_ts l"
    and op: "lock_op l \<noteq> Rollback" and r: "resolve_spec now now' k l m r m'"
  shows "mvcc_steps m m'"
  using r
proof cases
  case (resolve_forward ct m1)
  note c = status_spec_committedD [OF resolve_forward(3)]
  from c(2) si_invD(1) [OF inv] have "lock_start_ts l \<le> ct" by metis
  with resolve_forward c(1) l op show ?thesis
    by (auto intro!: mvcc_steps_one step_commit)
qed (auto intro: rtranclp_trans status_spec_steps mvcc_steps_one step_rollback)

text \<open>Every transaction that has committed and still has locks committed before \<open>st\<close>.\<close>

definition settled :: "u64 \<Rightarrow> mvcc \<Rightarrow> bool" where
  "settled st m \<longleftrightarrow>
     (\<forall>k l t r. m_locks m k = Some l \<and> lock_start_ts l \<noteq> st \<and>
        committed m (lock_primary_key l) t r \<and> wr_start_ts r = lock_start_ts l \<longrightarrow> t < st)"

lemma settledD:
  "settled st m \<Longrightarrow> m_locks m k = Some l \<Longrightarrow> lock_start_ts l \<noteq> st \<Longrightarrow>
   committed m (lock_primary_key l) t r \<Longrightarrow> wr_start_ts r = lock_start_ts l \<Longrightarrow> t < st"
  unfolding settled_def by blast

lemma settled_weaken:
  assumes "settled st m"
    and "\<And>k t r. committed m' k t r \<Longrightarrow> committed m k t r \<or> t < st"
    and "\<And>k l. m_locks m' k = Some l \<Longrightarrow> m_locks m k = Some l \<or> lock_start_ts l = st"
  shows "settled st m'"
  unfolding settled_def using assms(2,3) settledD [OF assms(1)] by metis

lemma committed_roll_back:
  "committed (roll_back k st m) k' t r \<longleftrightarrow> (k', t) \<noteq> (k, st) \<and> committed m k' t r"
  by (auto simp: committed_def)

lemma settled_roll_back: "settled st m \<Longrightarrow> settled st (roll_back k s m)"
  by (erule settled_weaken) (auto simp: committed_roll_back split: if_splits)

lemma settled_status: "status_spec now pk s m status m' \<Longrightarrow> settled st m \<Longrightarrow> settled st m'"
  by (induction rule: status_spec.induct) (auto intro: settled_roll_back)

lemma settled_resolve:
  assumes st: "settled st m" and l: "m_locks m k = Some l" "lock_start_ts l \<noteq> st"
    and r: "resolve_spec now now' k l m r m'"
  shows "settled st m'"
  using r
proof cases
  case (resolve_forward ct m1)
  note c = status_spec_committedD [OF resolve_forward(3)]
  with settledD [OF st l] have "ct < st" by blast
  with st c(1) resolve_forward show ?thesis
    by (auto elim!: settled_weaken simp: committed_roll_forward split: if_splits)
qed (use st in \<open>auto intro: settled_roll_back settled_status\<close>)

text \<open>A resolved lock is gone, and under \<open>settled\<close> its resolution leaves nothing on the key
  that conflicts with \<open>st\<close>, apart from the mark of the transaction rolled back.\<close>

lemma resolve_spec_unlocks:
  "resolve_spec now now' k l m (Inr ()) m' \<Longrightarrow> m_locks m' k = None"
  by (auto elim!: resolve_okE)

lemma settled_no_locks: "m_parts d P_Lock = [] \<Longrightarrow> settled st (abs_mvcc (mem_view d))"
  by (simp add: settled_def abs_mvcc_def mem_view_def typed_def)

lemma settled_mem_init: "settled st (abs_mvcc (mem_view (mem_init c)))"
  by (rule settled_no_locks) (simp add: mem_init_def)

lemmas mem_init_ok = wf_mem_init si_inv_mem_init settled_mem_init

section \<open>Properties of the resolver\<close>

text \<open>C26. The fate of a transaction: on an engine that does not fail, \<open>check_txn_status\<close> returns what
  the newest record of the transaction on its primary key says; without a record it returns
  \<open>RolledBack\<close> when the transaction has no lock there, \<open>Locked\<close> while the lease of the lock lasts, and
  once it is over it rolls the key back, with the mark that keeps the transaction from
  committing later. The lease is over when the wall clock, as read after the lookup of the lock,
  is past the start in milliseconds plus the time to live.\<close>

theorem check_txn_status_decides:
  assumes "fjall_reliable E view" "good_keys K" "pk \<in> K" "wf_store K (view s)"
  shows "\<exists>status. fst (check_txn_status E pk st s) = Inr status \<and>
    status_spec (status_clock E pk s) pk st (abs_mvcc (view s)) status (abs_mvcc (view (snd (check_txn_status E pk st s)))) \<and>
    wf_store K (view (snd (check_txn_status E pk st s)))"
proof -
  obtain status s' where "check_txn_status E pk st s = (Inr status, s')" "wf_store K (view s')"
      "status_spec (status_clock E pk s) pk st (abs_mvcc (view s)) status (abs_mvcc (view s'))"
    by (rule fjall_reliable.check_txn_status_total [OF assms])
  then show ?thesis by auto
qed

text \<open>A store with a lock of the transaction 5 on its primary key 1 and on the secondary key 2.\<close>

definition locked_db :: "u64 list \<Rightarrow> mem_db" where
  "locked_db clock = (mem_init clock)\<lparr>m_parts := (\<lambda>p. case p of
     P_Lock \<Rightarrow> [([1], lock_to_bytes (lock_new [1] 5 3000 Put)), ([2], lock_to_bytes (lock_new [1] 5 3000 Delete))]
   | _ \<Rightarrow> [])\<rparr>"

lemma two_keys: "good_keys (set [[1], [2]])"
  by (rule good_key_list) (simp add: good_key_list_def)

lemma locked_db_ok: "wf_store (set [[1], [2]]) (mem_view (locked_db clock))"
proof -
  have "wf_mem [[1], [2]] (locked_db []) = True" by code_simp
  then have "wf_mem [[1], [2]] (locked_db clock)" by (simp add: wf_mem_def locked_db_def mem_init_def)
  then show ?thesis by (rule wf_mem)
qed

theorem check_txn_status_decides_witness:
  "status_spec 4000 [1] 5 (abs_mvcc (mem_view (locked_db [4000]))) RolledBack
     (abs_mvcc (mem_view (snd (check_txn_status mem_env [1] 5 (locked_db [4000])))))"
proof -
  have "status_clock mem_env [1] (locked_db [4000]) = 4000" by code_simp
  moreover have "fst (check_txn_status mem_env [1] 5 (locked_db [4000])) = Inr RolledBack" by code_simp
  ultimately show ?thesis
    using check_txn_status_decides [OF mem.fjall_reliable_axioms two_keys _ locked_db_ok, of "[1]" 5 "[4000]"] by auto
qed

text \<open>C25. Resolving a lock: on an engine that does not fail, \<open>resolve_lock\<close> rolls the key forward to
  the commit timestamp of the primary key, rolls it back when the transaction was rolled back
  or its lease is over, by the clock as the code read it for the primary and then for the lock
  itself, and otherwise reports an active lock and leaves the key locked; in the first two
  cases the lock is gone.\<close>

theorem resolve_lock_follows_primary:
  assumes "fjall_reliable E view" "good_keys K" "k \<in> K" "lock_primary_key l \<in> K" "wf_store K (view s)"
  shows "resolve_spec (status_clock E (lock_primary_key l) s) (resolve_clock E l s) k l (abs_mvcc (view s)) (fst (resolve_lock E k l s))
      (abs_mvcc (view (snd (resolve_lock E k l s)))) \<and> wf_store K (view (snd (resolve_lock E k l s))) \<and>
    (fst (resolve_lock E k l s) = Inr () \<longrightarrow> m_locks (abs_mvcc (view (snd (resolve_lock E k l s)))) k = None)"
proof -
  obtain r s' where r: "resolve_lock E k l s = (r, s')" "wf_store K (view s')"
      "resolve_spec (status_clock E (lock_primary_key l) s) (resolve_clock E l s) k l (abs_mvcc (view s)) r (abs_mvcc (view s'))"
    by (rule fjall_reliable.resolve_lock_total [OF assms])
  show ?thesis
    unfolding r(1) fst_conv snd_conv using r(2,3) resolve_spec_unlocks by blast
qed

theorem resolve_lock_follows_primary_witness:
  "m_locks (abs_mvcc (mem_view (snd (resolve_lock mem_env [2] (lock_new [1] 5 3000 Delete) (locked_db [4000]))))) [2] = None"
proof -
  have "fst (resolve_lock mem_env [2] (lock_new [1] 5 3000 Delete) (locked_db [4000])) = Inr ()" by code_simp
  with resolve_lock_follows_primary [OF mem.fjall_reliable_axioms two_keys _ _ locked_db_ok,
      of "[2]" "lock_new [1] 5 3000 Delete" "[4000]"]
  show ?thesis by (auto simp: lock_new_def)
qed

end
