(* ===== verification/Hlc.thy ===== *)
theory Hlc
  imports Fjall_Engine
begin

text \<open>
  \<^verbatim>\<open>txn-coordinator/src/hlc.rs\<close>: the hybrid logical clock. A timestamp packs 48 bits of
  milliseconds and 16 bits of a logical counter into 64 bits. The wall clock readings are
  arguments; arithmetic wraps as in a release build.
\<close>

unbundle bit_operations_syntax

section \<open>The clock\<close>

record Timestamp =
  ts_physical :: u64
  ts_logical :: u32

text \<open>The derived order of \<^verbatim>\<open>Timestamp\<close>: by milliseconds, then by the counter.\<close>

instantiation Timestamp_ext :: (linorder) linorder
begin

definition less_eq_Timestamp_ext :: "'a Timestamp_scheme \<Rightarrow> 'a Timestamp_scheme \<Rightarrow> bool" where
  "less_eq_Timestamp_ext t t' \<longleftrightarrow> ts_physical t < ts_physical t' \<or> ts_physical t = ts_physical t' \<and>
     (ts_logical t < ts_logical t' \<or> ts_logical t = ts_logical t' \<and> Timestamp.more t \<le> Timestamp.more t')"

definition less_Timestamp_ext :: "'a Timestamp_scheme \<Rightarrow> 'a Timestamp_scheme \<Rightarrow> bool" where
  "less_Timestamp_ext t t' \<longleftrightarrow> t \<le> t' \<and> \<not> t' \<le> (t :: 'a Timestamp_scheme)"

instance
proof
  fix t t' t'' :: "'a Timestamp_scheme"
  show "t < t' \<longleftrightarrow> t \<le> t' \<and> \<not> t' \<le> t" by (rule less_Timestamp_ext_def)
  show "t \<le> t" by (simp add: less_eq_Timestamp_ext_def)
  show "t \<le> t''" if "t \<le> t'" "t' \<le> t''"
    using that unfolding less_eq_Timestamp_ext_def by (elim disjE conjE) (auto intro: less_trans order_trans)
  show "t = t'" if "t \<le> t'" "t' \<le> t"
    using that unfolding less_eq_Timestamp_ext_def by (elim disjE conjE) (auto intro: Timestamp.equality)
  show "t \<le> t' \<or> t' \<le> t"
    unfolding less_eq_Timestamp_ext_def by auto
qed

end

lemma less_Timestamp_iff:
  "(t :: Timestamp) < t' \<longleftrightarrow> ts_physical t < ts_physical t' \<or> ts_physical t = ts_physical t' \<and> ts_logical t < ts_logical t'"
  unfolding less_Timestamp_ext_def less_eq_Timestamp_ext_def by auto

definition ts_encode :: "Timestamp \<Rightarrow> u64" where
  "ts_encode t = push_bit 16 (ts_physical t) OR (ucast (ts_logical t) AND 0xFFFF)"

definition ts_decode :: "u64 \<Rightarrow> Timestamp" where
  "ts_decode ts = \<lparr>ts_physical = drop_bit 16 ts, ts_logical = ucast (ts AND 0xFFFF)\<rparr>"

record HlcInner =
  latest_physical :: u64
  hlc_logical :: u32

definition hlc_new :: "u64 \<Rightarrow> HlcInner" where
  "hlc_new now_ms = \<lparr>latest_physical = now_ms, hlc_logical = 0\<rparr>"

definition hlc_now :: "u64 \<Rightarrow> HlcInner \<Rightarrow> u64 \<times> HlcInner" where
  "hlc_now physical_now inner =
     (let inner' = (if physical_now > latest_physical inner
                    then \<lparr>latest_physical = physical_now, hlc_logical = 0\<rparr>
                    else inner\<lparr>hlc_logical := hlc_logical inner + 1\<rparr>)
      in (ts_encode \<lparr>ts_physical = latest_physical inner', ts_logical = hlc_logical inner'\<rparr>, inner'))"

definition hlc_update :: "u64 \<Rightarrow> u64 \<Rightarrow> HlcInner \<Rightarrow> HlcInner" where
  "hlc_update remote_ts physical_now inner =
     (let remote = ts_decode remote_ts;
          max_physical = max (max physical_now (latest_physical inner)) (ts_physical remote);
          logical' =
            (if max_physical = latest_physical inner \<and> max_physical = ts_physical remote
             then max (hlc_logical inner) (ts_logical remote) + 1
             else if max_physical = latest_physical inner then hlc_logical inner + 1
             else if max_physical = ts_physical remote then ts_logical remote + 1
             else 0)
      in \<lparr>latest_physical = max_physical, hlc_logical = logical'\<rparr>)"

section \<open>Packing\<close>

lemma FFFF_mask: "(0xFFFF :: u64) = mask 16"
  by (simp add: mask_eq_exp_minus_1)

lemma ts_encode_add:
  "ts_encode t = ts_physical t * 2 ^ 16 + (ucast (ts_logical t) AND 0xFFFF)"
proof -
  have "push_bit 16 (ts_physical t) + (ucast (ts_logical t) AND 0xFFFF) = ts_encode t"
    unfolding ts_encode_def
  proof (rule disjunctive_add)
    fix n
    show "\<not> bit (push_bit 16 (ts_physical t)) n \<or> \<not> bit (ucast (ts_logical t) AND 0xFFFF :: u64) n"
      unfolding FFFF_mask by (auto simp: bit_push_bit_iff bit_and_iff bit_mask_iff)
  qed
  then show ?thesis by (simp add: push_bit_eq_mult)
qed

text \<open>A clock in the range where packing loses nothing.\<close>

definition fits :: "u64 \<Rightarrow> u32 \<Rightarrow> bool" where
  "fits p l \<longleftrightarrow> p < 2 ^ 48 \<and> l < 2 ^ 16"

lemma unat_ucast_u32: "unat (ucast (l :: u32) :: u64) = unat l"
proof -
  have "unat l < 2 ^ 64" using unsigned_less [where ?'a = nat and w = l] by simp
  then show ?thesis by (simp add: unsigned_ucast_eq take_bit_nat_eq_self)
qed

lemma and_FFFF:
  assumes "unat (x :: u64) < 2 ^ 16"
  shows "x AND 0xFFFF = x"
proof -
  have "x AND 0xFFFF = take_bit 16 x"
    unfolding FFFF_mask by (simp only: take_bit_eq_mask)
  also have "\<dots> = x"
    using assms by (simp add: word_unat_eq_iff unsigned_take_bit_eq take_bit_nat_eq_self_iff)
  finally show ?thesis .
qed

lemma unat_ts_encode:
  assumes "fits p l"
  shows "unat (ts_encode \<lparr>ts_physical = p, ts_logical = l\<rparr>) = unat p * 2 ^ 16 + unat l"
proof -
  have p: "unat p < 2 ^ 48" and l: "unat l < 2 ^ 16"
    using assms by (simp_all add: fits_def word_less_nat_alt)
  have a: "(ucast l AND 0xFFFF :: u64) = ucast l"
    using l by (intro and_FFFF) (simp add: unat_ucast_u32)
  have m: "unat (p * 2 ^ 16) = unat p * 2 ^ 16"
    using p by (subst unat_mult_lem [THEN iffD1]) simp_all
  have "unat (p * 2 ^ 16 + ucast l) = unat p * 2 ^ 16 + unat l"
    using p l m by (subst unat_add_lem [THEN iffD1]) (simp_all add: unat_ucast_u32)
  then show ?thesis by (simp add: ts_encode_add a)
qed

lemma ts_encode_decode: "ts_encode (ts_decode ts) = ts"
  unfolding ts_encode_def ts_decode_def FFFF_mask
  by (rule bit_word_eqI)
     (auto simp: bit_or_iff bit_and_iff bit_mask_iff bit_push_bit_iff bit_drop_bit_eq bit_ucast_iff, rule ccontr, simp)

lemma unat_drop_16: "unat (drop_bit 16 (w :: u64)) = unat w div 2 ^ 16"
proof -
  have "take_bit 64 (unat w) = unat w"
    using unsigned_less [where ?'a = nat and w = w] by (simp add: take_bit_nat_eq_self)
  then show ?thesis by (simp add: unsigned_drop_bit_eq drop_bit_nat_def)
qed

lemma ts_decode_encode:
  assumes "fits p l"
  shows "ts_decode (ts_encode \<lparr>ts_physical = p, ts_logical = l\<rparr>) = \<lparr>ts_physical = p, ts_logical = l\<rparr>"
proof -
  let ?e = "ts_encode \<lparr>ts_physical = p, ts_logical = l\<rparr>"
  note e = unat_ts_encode [OF assms]
  have l: "unat l < 2 ^ 16" using assms by (simp add: fits_def word_less_nat_alt)
  have "unat (drop_bit 16 ?e) = unat p"
    using l by (simp add: unat_drop_16 e)
  moreover have "unat (ucast (?e AND 0xFFFF) :: u32) = unat l"
    unfolding FFFF_mask take_bit_eq_mask [symmetric]
    using l by (simp add: unsigned_ucast_eq unsigned_take_bit_eq e take_bit_nat_def mod_mod_cancel)
  ultimately show ?thesis by (simp add: ts_decode_def word_unat_eq_iff)
qed

section \<open>Monotonicity\<close>

definition hlc_ts :: "HlcInner \<Rightarrow> u64" where
  "hlc_ts inner = ts_encode \<lparr>ts_physical = latest_physical inner, ts_logical = hlc_logical inner\<rparr>"

text \<open>The clock can be read \<open>n\<close> more times within a millisecond before the logical counter
  outgrows its 16 bits.\<close>

definition hlc_room :: "nat \<Rightarrow> HlcInner \<Rightarrow> bool" where
  "hlc_room n inner \<longleftrightarrow> latest_physical inner < 2 ^ 48 \<and> unat (hlc_logical inner) + n < 2 ^ 16"

lemma hlc_room_fits: "hlc_room n inner \<Longrightarrow> fits (latest_physical inner) (hlc_logical inner)"
  by (simp add: hlc_room_def fits_def word_less_nat_alt)

lemma ts_less:
  assumes "fits p l" "fits p' l'"
  shows "ts_encode \<lparr>ts_physical = p, ts_logical = l\<rparr> < ts_encode \<lparr>ts_physical = p', ts_logical = l'\<rparr> \<longleftrightarrow>
    p < p' \<or> p = p' \<and> l < l'"
proof -
  have l: "unat l < 2 ^ 16" "unat l' < 2 ^ 16"
    using assms by (simp_all add: fits_def word_less_nat_alt)
  have "unat p * 2 ^ 16 + unat l < unat p' * 2 ^ 16 + unat l' \<longleftrightarrow>
      unat p < unat p' \<or> unat p = unat p' \<and> unat l < unat l'"
    using l by auto
  then show ?thesis
    by (simp add: word_less_nat_alt word_unat_eq_iff unat_ts_encode [OF assms(1)] unat_ts_encode [OF assms(2)])
qed

lemma unat_inc_u32: "unat (l :: u32) + 1 < 2 ^ 32 \<Longrightarrow> unat (l + 1) = unat l + 1"
  by (subst unat_add_lem [THEN iffD1]) simp_all

lemma hlc_now_step:
  assumes room: "hlc_room (Suc n) inner" and phys: "p < 2 ^ 48"
  shows "fst (hlc_now p inner) = hlc_ts (snd (hlc_now p inner))"
    and "hlc_ts inner < fst (hlc_now p inner)" and "hlc_room n (snd (hlc_now p inner))"
proof -
  let ?i = "snd (hlc_now p inner)"
  show ts: "fst (hlc_now p inner) = hlc_ts ?i"
    by (simp add: hlc_now_def hlc_ts_def Let_def)
  show room': "hlc_room n ?i"
    using room phys by (auto simp: hlc_now_def hlc_room_def Let_def unat_inc_u32)
  have "latest_physical inner < latest_physical ?i \<or>
      latest_physical inner = latest_physical ?i \<and> hlc_logical inner < hlc_logical ?i"
    using room by (auto simp: hlc_now_def hlc_room_def Let_def word_less_nat_alt unat_inc_u32)
  then show "hlc_ts inner < fst (hlc_now p inner)"
    unfolding ts hlc_ts_def using ts_less [OF hlc_room_fits [OF room] hlc_room_fits [OF room']] by simp
qed

text \<open>The timestamps handed out for a sequence of wall clock readings, in any order.\<close>

fun hlc_run :: "u64 list \<Rightarrow> HlcInner \<Rightarrow> u64 list" where
  "hlc_run [] inner = []"
| "hlc_run (p # ps) inner = (case hlc_now p inner of (ts, inner') \<Rightarrow> ts # hlc_run ps inner')"

lemma hlc_run_sorted:
  assumes "hlc_room (length ps) inner" "\<forall>p \<in> set ps. p < 2 ^ 48"
  shows "sorted_wrt (<) (hlc_ts inner # hlc_run ps inner)"
  using assms
proof (induction ps arbitrary: inner)
  case (Cons p ps)
  obtain ts inner' where n: "hlc_now p inner = (ts, inner')" by force
  have "p < 2 ^ 48" using Cons.prems(2) by simp
  note step = hlc_now_step [OF Cons.prems(1) [unfolded length_Cons] this, unfolded n fst_conv snd_conv]
  from Cons.IH [OF step(3)] Cons.prems(2) have "sorted_wrt (<) (ts # hlc_run ps inner')"
    by (simp add: step(1))
  with step(2) show ?case by (auto simp: n)
qed simp

lemma hlc_update_now:
  assumes room: "hlc_room 2 inner" and phys: "p < 2 ^ 48" "p' < 2 ^ 48"
    and remote: "unat (ts_logical (ts_decode r)) + 2 < 2 ^ 16"
  shows "r < fst (hlc_now p' (hlc_update r p inner)) \<and> hlc_ts inner < fst (hlc_now p' (hlc_update r p inner))"
proof -
  let ?d = "ts_decode r" and ?u = "hlc_update r p inner"
  have "unat (drop_bit 16 r) < 2 ^ 48"
    using unsigned_less [where ?'a = nat and w = r] by (simp add: unat_drop_16)
  then have dp: "ts_physical ?d < 2 ^ 48" by (simp add: ts_decode_def word_less_nat_alt)
  have df: "fits (ts_physical ?d) (ts_logical ?d)"
    using dp remote by (simp add: fits_def word_less_nat_alt)
  have r: "r = ts_encode \<lparr>ts_physical = ts_physical ?d, ts_logical = ts_logical ?d\<rparr>"
    using ts_encode_decode [of r] by (simp add: ts_decode_def)
  have inc: "unat (hlc_logical inner + 1) = unat (hlc_logical inner) + 1"
    "unat (ts_logical ?d + 1) = unat (ts_logical ?d) + 1"
    using room remote by (simp_all add: hlc_room_def unat_inc_u32)
  have room1: "hlc_room 1 ?u"
    using room phys(1) dp remote inc
    by (auto simp: hlc_room_def hlc_update_def Let_def max_def)
  have le: "(ts_physical ?d < latest_physical ?u \<or> ts_physical ?d = latest_physical ?u \<and> ts_logical ?d < hlc_logical ?u) \<and>
    (latest_physical inner < latest_physical ?u \<or> latest_physical inner = latest_physical ?u \<and> hlc_logical inner < hlc_logical ?u)"
    using inc by (auto simp: hlc_update_def Let_def max_def word_less_nat_alt word_le_nat_alt word_unat_eq_iff)
  have "r < hlc_ts ?u" "hlc_ts inner < hlc_ts ?u"
    using le ts_less [OF df hlc_room_fits [OF room1]] ts_less [OF hlc_room_fits [OF room] hlc_room_fits [OF room1]] r
    unfolding hlc_ts_def by metis+
  with hlc_now_step(2) [of 0 ?u p'] room1 phys(2) show ?thesis
    by (auto intro: less_trans)
qed

section \<open>Properties of the clock\<close>

text \<open>Packed timestamps are in the order of their components.\<close>

lemma ts_encode_less:
  assumes "fits p l" "fits p' l'"
  shows "ts_encode \<lparr>ts_physical = p, ts_logical = l\<rparr> < ts_encode \<lparr>ts_physical = p', ts_logical = l'\<rparr> \<longleftrightarrow>
    \<lparr>ts_physical = p, ts_logical = l\<rparr> < \<lparr>ts_physical = p', ts_logical = l'\<rparr>"
proof -
  have "unat l < 2 ^ 16" "unat l' < 2 ^ 16" using assms by (simp_all add: fits_def word_less_nat_alt)
  then have "unat p * 2 ^ 16 + unat l < unat p' * 2 ^ 16 + unat l' \<longleftrightarrow>
      unat p < unat p' \<or> unat p = unat p' \<and> unat l < unat l'" by auto
  then show ?thesis
    by (simp add: less_Timestamp_iff word_less_nat_alt unat_ts_encode [OF assms(1)] unat_ts_encode [OF assms(2)]
        word_unat_eq_iff)
qed

text \<open>Packing: every 64-bit timestamp is the packing of what it unpacks to, and unpacking
  returns the components packed when they fit 48 and 16 bits.\<close>

lemma ts_codec:
  assumes "fits p l"
  shows "ts_encode (ts_decode ts) = ts \<and>
    ts_decode (ts_encode \<lparr>ts_physical = p, ts_logical = l\<rparr>) = \<lparr>ts_physical = p, ts_logical = l\<rparr>"
  using ts_encode_decode ts_decode_encode [OF assms] by blast

lemma ts_codec_example:
  "ts_decode (ts_encode \<lparr>ts_physical = 1718000000000, ts_logical = 7\<rparr>) =
   \<lparr>ts_physical = 1718000000000, ts_logical = 7\<rparr>"
  using ts_codec [of 1718000000000 7] by (simp add: fits_def)

text \<open>C38. The clock is strictly monotonic whatever the wall clock does (standing still or running
  backwards): the timestamps handed out for any sequence of readings below \<open>2 ^ 48\<close> increase,
  and exceed the last one before, as long as the logical counter has room for the calls.\<close>

theorem hlc_strictly_increasing:
  assumes "hlc_room (length ps) inner" "\<forall>p \<in> set ps. p < 2 ^ 48"
  shows "sorted_wrt (<) (hlc_ts inner # hlc_run ps inner)"
  by (rule hlc_run_sorted [OF assms])

theorem hlc_strictly_increasing_witness:
  "sorted_wrt (<) (hlc_ts (hlc_new 1000) # hlc_run [1000, 999, 1005, 1005, 3] (hlc_new 1000))"
  by (rule hlc_strictly_increasing) (simp_all add: hlc_room_def hlc_new_def)

text \<open>After \<open>hlc_update\<close> with a remote timestamp the next local timestamp exceeds both the remote
  one and every local one before, within the same bounds.\<close>

lemma hlc_update_dominates:
  assumes "hlc_room 2 inner" "p < 2 ^ 48" "p' < 2 ^ 48" "unat (ts_logical (ts_decode r)) + 2 < 2 ^ 16"
  shows "r < fst (hlc_now p' (hlc_update r p inner)) \<and> hlc_ts inner < fst (hlc_now p' (hlc_update r p inner))"
  by (rule hlc_update_now [OF assms])

lemma hlc_update_dominates_example:
  "(131072003 :: u64) < fst (hlc_now 1000 (hlc_update 131072003 1000 (hlc_new 1500))) \<and>
   hlc_ts (hlc_new 1500) < fst (hlc_now 1000 (hlc_update 131072003 1000 (hlc_new 1500)))"
proof -
  have "ts_logical (ts_decode 131072003) = 3" by code_simp
  with hlc_update_dominates [of "hlc_new 1500" 1000 1000 131072003] show ?thesis
    by (simp add: hlc_room_def hlc_new_def)
qed

section \<open>The counter overflows\<close>

text \<open>At the last value of the 16-bit counter the next timestamp of the same millisecond is
  smaller: the counter itself goes on to 65536, of which packing keeps the low 16 bits.\<close>

lemma hlc_counter_overflow:
  "fst (hlc_now 1000 \<lparr>latest_physical = 1000, hlc_logical = 0xFFFF\<rparr>) <
   hlc_ts \<lparr>latest_physical = 1000, hlc_logical = 0xFFFF\<rparr>"
  by code_simp

end
