(* ===== verification/Coordinator.thy ===== *)
theory Coordinator
  imports Lock_Resolver Hlc
begin

text \<open>
  \<^verbatim>\<open>txn-coordinator/src/coordinator.rs\<close>: the transaction operations over one storage
  engine. Prewrite checks each key for conflicts and lays its lock, commit turns the
  locks into write records (primary key first), rollback marks the keys, and the batch
  variants do the same with one engine batch. Every operation takes the engine as its
  parameter and returns its result with the engine state it leaves, also on the error
  paths.
\<close>

section \<open>Data\<close>

datatype TxnError =
    Txn_Storage StorageError
  | Txn_Fjall fjall_error
  | Txn_Mvcc MvccError
  | Txn_LockResolver LockResolverError
  | WriteConflict bytes u64
  | KeyLocked bytes
  | TxnClosed
  | TransactionRolledBack

datatype Mutation = M_Put bytes bytes | M_Delete bytes

fun mutation_key :: "Mutation \<Rightarrow> bytes" where
  "mutation_key (M_Put key val) = key"
| "mutation_key (M_Delete key) = key"

fun mutation_op_type :: "Mutation \<Rightarrow> OpType" where
  "mutation_op_type (M_Put key val) = Put"
| "mutation_op_type (M_Delete key) = Delete"

section \<open>Starting a transaction\<close>

text \<open>The clock is the part of a \<^verbatim>\<open>TransactionCoordinator\<close> that is not in the engine.\<close>

definition begin_txn :: "'s env \<Rightarrow> HlcInner \<Rightarrow> 's \<Rightarrow> (u64 \<times> HlcInner) \<times> 's" where
  "begin_txn E hlc s = (case sys_now E s of (physical_now, s') \<Rightarrow> (hlc_now physical_now hlc, s'))"

section \<open>Status and heartbeat\<close>

definition coord_check_txn_status ::
  "'s env \<Rightarrow> bytes \<Rightarrow> u64 \<Rightarrow> 's \<Rightarrow> (TxnError + TxnStatus) \<times> 's" where
  "coord_check_txn_status E primary_key start_ts s =
     (case check_txn_status E primary_key start_ts s of
        (Inl e, s') \<Rightarrow> (Inl (Txn_LockResolver e), s')
      | (Inr st, s') \<Rightarrow> (Inr st, s'))"

definition heartbeat :: "'s env \<Rightarrow> bytes \<Rightarrow> u64 \<Rightarrow> u64 \<Rightarrow> 's \<Rightarrow> (TxnError + u64) \<times> 's" where
  "heartbeat E primary_key start_ts new_ttl s =
     (case fj_get E P_Lock primary_key s of
        (Inl e, s1) \<Rightarrow> (Inl (Txn_Fjall e), s1)
      | (Inr None, s1) \<Rightarrow> (Inl TransactionRolledBack, s1)
      | (Inr (Some lock_bytes), s1) \<Rightarrow>
          (case lock_from_bytes lock_bytes of
             Inl _ \<Rightarrow> (Inl (Txn_Mvcc CorruptedState), s1)
           | Inr lock \<Rightarrow>
               if lock_start_ts lock = start_ts then
                 (case commit_batch E
                         [Insert P_Lock primary_key (lock_to_bytes (lock\<lparr>lock_ttl := new_ttl\<rparr>))] s1 of
                    (Inl e, s2) \<Rightarrow> (Inl (Txn_Storage e), s2)
                  | (Inr _, s2) \<Rightarrow> (Inr new_ttl, s2))
               else (Inl TransactionRolledBack, s1)))"

section \<open>Reads\<close>

definition coord_get :: "'s env \<Rightarrow> bytes \<Rightarrow> u64 \<Rightarrow> 's \<Rightarrow> (TxnError + bytes option) \<times> 's" where
  "coord_get E user_key read_ts s =
     (case reader_get E user_key read_ts s of
        (Inr val, s1) \<Rightarrow> (Inr val, s1)
      | (Inl (KeyIsLocked primary_key lock_ts), s1) \<Rightarrow>
          (case resolve_lock E user_key
                  \<lparr>lock_primary_key = primary_key, lock_start_ts = lock_ts, lock_ttl = 3000, lock_op = Put\<rparr> s1 of
             (Inr _, s2) \<Rightarrow>
               (case reader_get E user_key read_ts s2 of
                  (Inr val, s3) \<Rightarrow> (Inr val, s3)
                | (Inl e, s3) \<Rightarrow> (Inl (Txn_Mvcc e), s3))
           | (Inl _, s2) \<Rightarrow> (Inl (KeyLocked user_key), s2))
      | (Inl e, s1) \<Rightarrow> (Inl (Txn_Mvcc e), s1))"

text \<open>The loop of \<^verbatim>\<open>scan\<close>; the accumulators are \<^verbatim>\<open>last_seen_user_key\<close> and \<^verbatim>\<open>results\<close>.\<close>

fun scan_loop ::
  "'s env \<Rightarrow> bytes \<Rightarrow> bytes \<Rightarrow> u32 \<Rightarrow> u64 \<Rightarrow> items \<Rightarrow> bytes option \<Rightarrow> (bytes \<times> bytes) list \<Rightarrow> 's \<Rightarrow>
     (TxnError + (bytes \<times> bytes) list) \<times> 's" where
  "scan_loop E start_key end_key limit read_ts [] last_seen results s = (Inr results, s)"
| "scan_loop E start_key end_key limit read_ts (Inl e # its) last_seen results s = (Inl (Txn_Fjall e), s)"
| "scan_loop E start_key end_key limit read_ts (Inr (enc_key, x) # its) last_seen results s =
     (case key_decode enc_key of
        Inl _ \<Rightarrow> (Inl (Txn_Mvcc CorruptedState), s)
      | Inr (user_key, _) \<Rightarrow>
          if start_key \<noteq> [] \<and> user_key < start_key then
            scan_loop E start_key end_key limit read_ts its last_seen results s
          else if end_key \<noteq> [] \<and> end_key \<le> user_key then (Inr results, s)
          else if last_seen = Some user_key then
            scan_loop E start_key end_key limit read_ts its last_seen results s
          else
            (case coord_get E user_key read_ts s of
               (Inl e, s1) \<Rightarrow> (Inl e, s1)
             | (Inr None, s1) \<Rightarrow>
                 scan_loop E start_key end_key limit read_ts its (Some user_key) results s1
             | (Inr (Some val), s1) \<Rightarrow>
                 let results' = results @ [(user_key, val)] in
                 if 0 < limit \<and> unat limit \<le> length results' then (Inr results', s1)
                 else scan_loop E start_key end_key limit read_ts its (Some user_key) results' s1))"

definition coord_scan ::
  "'s env \<Rightarrow> bytes \<Rightarrow> bytes \<Rightarrow> u32 \<Rightarrow> u64 \<Rightarrow> 's \<Rightarrow> (TxnError + (bytes \<times> bytes) list) \<times> 's" where
  "coord_scan E start_key end_key limit read_ts s =
     (case fj_range_from E P_Write (if start_key = [] then [] else key_encode start_key read_ts) s of
        (its, s1) \<Rightarrow> scan_loop E start_key end_key limit read_ts its None [] s1)"

section \<open>Prewrite\<close>

text \<open>The check for write conflicts and for a rollback mark of the transaction itself: the
  inner loop that \<^verbatim>\<open>prewrite\<close> and \<^verbatim>\<open>batch_prewrite\<close> share.\<close>

fun conflict_scan :: "bytes \<Rightarrow> u64 \<Rightarrow> items \<Rightarrow> TxnError + unit" where
  "conflict_scan key start_ts [] = Inr ()"
| "conflict_scan key start_ts (Inl e # its) = Inl (Txn_Fjall e)"
| "conflict_scan key start_ts (Inr (enc_key, write_bytes) # its) =
     (case key_decode enc_key of
        Inl _ \<Rightarrow> Inl (Txn_Mvcc CorruptedState)
      | Inr (curr_user_key, commit_ts) \<Rightarrow>
          if curr_user_key = key then
            if (case wr_from_bytes write_bytes of
                  Some rec \<Rightarrow> wr_start_ts rec = start_ts \<and> wr_op rec = Rollback
                | None \<Rightarrow> False)
            then Inl TransactionRolledBack
            else if start_ts \<le> commit_ts then Inl (WriteConflict key start_ts)
            else conflict_scan key start_ts its
          else Inr ())"

definition check_write_conflict :: "'s env \<Rightarrow> bytes \<Rightarrow> u64 \<Rightarrow> 's \<Rightarrow> (TxnError + unit) \<times> 's" where
  "check_write_conflict E key start_ts s =
     (case fj_range_from E P_Write (key_encode key (-1)) s of
        (its, s1) \<Rightarrow> (conflict_scan key start_ts its, s1))"

text \<open>The check of the lock, with an attempt to resolve it. \<^verbatim>\<open>batch_prewrite\<close> stops there.\<close>

definition resolve_existing :: "'s env \<Rightarrow> bytes \<Rightarrow> u64 \<Rightarrow> 's \<Rightarrow> (TxnError + bool) \<times> 's" where
  "resolve_existing E key start_ts s =
     (case fj_get E P_Lock key s of
        (Inl e, s1) \<Rightarrow> (Inl (Txn_Fjall e), s1)
      | (Inr None, s1) \<Rightarrow> (Inr False, s1)
      | (Inr (Some existing_lock_bytes), s1) \<Rightarrow>
          (case lock_from_bytes existing_lock_bytes of
             Inl _ \<Rightarrow> (Inl (Txn_Mvcc CorruptedState), s1)
           | Inr lock \<Rightarrow>
               if lock_start_ts lock \<noteq> start_ts then
                 (case resolve_lock E key lock s1 of
                    (Inl _, s2) \<Rightarrow> (Inl (KeyLocked key), s2)
                  | (Inr _, s2) \<Rightarrow> (Inr True, s2))
               else (Inr False, s1)))"

text \<open>\<^verbatim>\<open>prewrite\<close> reads the lock again after a resolution.\<close>

definition check_lock :: "'s env \<Rightarrow> bytes \<Rightarrow> u64 \<Rightarrow> 's \<Rightarrow> (TxnError + unit) \<times> 's" where
  "check_lock E key start_ts s =
     (case resolve_existing E key start_ts s of
        (Inl e, s1) \<Rightarrow> (Inl e, s1)
      | (Inr False, s1) \<Rightarrow> (Inr (), s1)
      | (Inr True, s1) \<Rightarrow>
          (case fj_get E P_Lock key s1 of
             (Inl e, s2) \<Rightarrow> (Inl (Txn_Fjall e), s2)
           | (Inr None, s2) \<Rightarrow> (Inr (), s2)
           | (Inr (Some still_locked), s2) \<Rightarrow>
               (case lock_from_bytes still_locked of
                  Inl _ \<Rightarrow> (Inl (Txn_Mvcc CorruptedState), s2)
                | Inr l \<Rightarrow> if lock_start_ts l \<noteq> start_ts then (Inl (KeyLocked key), s2) else (Inr (), s2))))"

definition txn_lock :: "u64 \<Rightarrow> bytes \<Rightarrow> u64 \<Rightarrow> Mutation \<Rightarrow> Lock" where
  "txn_lock start_ts primary_key ttl mutation =
     \<lparr>lock_primary_key = primary_key, lock_start_ts = start_ts, lock_ttl = ttl,
      lock_op = mutation_op_type mutation\<rparr>"

text \<open>What a mutation adds to the batch: the value of a put and the lock.\<close>

definition stage_mutation :: "u64 \<Rightarrow> bytes \<Rightarrow> u64 \<Rightarrow> Mutation \<Rightarrow> batch" where
  "stage_mutation start_ts primary_key ttl mutation =
     (case mutation of
        M_Put key val \<Rightarrow> [Insert P_Default (key_encode key start_ts) val]
      | M_Delete key \<Rightarrow> []) @
     [Insert P_Lock (mutation_key mutation) (lock_to_bytes (txn_lock start_ts primary_key ttl mutation))]"

definition prewrite_one ::
  "'s env \<Rightarrow> u64 \<Rightarrow> bytes \<Rightarrow> u64 \<Rightarrow> Mutation \<Rightarrow> 's \<Rightarrow> (TxnError + unit) \<times> 's" where
  "prewrite_one E start_ts primary_key ttl mutation s =
     (case check_write_conflict E (mutation_key mutation) start_ts s of
        (Inl e, s1) \<Rightarrow> (Inl e, s1)
      | (Inr _, s1) \<Rightarrow>
          (case check_lock E (mutation_key mutation) start_ts s1 of
             (Inl e, s2) \<Rightarrow> (Inl e, s2)
           | (Inr _, s2) \<Rightarrow>
               (case commit_batch E (stage_mutation start_ts primary_key ttl mutation) s2 of
                  (Inl e, s3) \<Rightarrow> (Inl (Txn_Storage e), s3)
                | (Inr _, s3) \<Rightarrow> (Inr (), s3))))"

fun prewrite :: "'s env \<Rightarrow> u64 \<Rightarrow> Mutation list \<Rightarrow> bytes \<Rightarrow> u64 \<Rightarrow> 's \<Rightarrow> (TxnError + unit) \<times> 's" where
  "prewrite E start_ts [] primary_key ttl s = (Inr (), s)"
| "prewrite E start_ts (mutation # mutations) primary_key ttl s =
     (case prewrite_one E start_ts primary_key ttl mutation s of
        (Inl e, s1) \<Rightarrow> (Inl e, s1)
      | (Inr _, s1) \<Rightarrow> prewrite E start_ts mutations primary_key ttl s1)"

section \<open>Commit and rollback\<close>

definition commit_key_batch :: "u64 \<Rightarrow> u64 \<Rightarrow> bytes \<Rightarrow> Lock \<Rightarrow> batch" where
  "commit_key_batch start_ts commit_ts key lock =
     [Insert P_Write (key_encode key commit_ts) (wr_to_bytes (wr_new start_ts (lock_op lock))),
      Remove P_Lock key]"

fun commit_secondaries :: "'s env \<Rightarrow> u64 \<Rightarrow> u64 \<Rightarrow> bytes list \<Rightarrow> 's \<Rightarrow> (TxnError + unit) \<times> 's" where
  "commit_secondaries E start_ts commit_ts [] s = (Inr (), s)"
| "commit_secondaries E start_ts commit_ts (key # keys) s =
     (case fj_get E P_Lock key s of
        (Inl e, s1) \<Rightarrow> (Inl (Txn_Fjall e), s1)
      | (Inr None, s1) \<Rightarrow> commit_secondaries E start_ts commit_ts keys s1
      | (Inr (Some lock_bytes), s1) \<Rightarrow>
          (case lock_from_bytes lock_bytes of
             Inl _ \<Rightarrow> commit_secondaries E start_ts commit_ts keys s1
           | Inr lock \<Rightarrow>
               if lock_start_ts lock = start_ts then
                 (case commit_batch E (commit_key_batch start_ts commit_ts key lock) s1 of
                    (Inl e, s2) \<Rightarrow> (Inl (Txn_Storage e), s2)
                  | (Inr _, s2) \<Rightarrow> commit_secondaries E start_ts commit_ts keys s2)
               else commit_secondaries E start_ts commit_ts keys s1))"

fun commit :: "'s env \<Rightarrow> u64 \<Rightarrow> u64 \<Rightarrow> bytes list \<Rightarrow> 's \<Rightarrow> (TxnError + unit) \<times> 's" where
  "commit E start_ts commit_ts [] s = (Inr (), s)"
| "commit E start_ts commit_ts (primary_key # secondaries) s =
     (case fj_get E P_Lock primary_key s of
        (Inl e, s1) \<Rightarrow> (Inl (Txn_Fjall e), s1)
      | (Inr None, s1) \<Rightarrow> (Inl TransactionRolledBack, s1)
      | (Inr (Some lock_bytes), s1) \<Rightarrow>
          (case lock_from_bytes lock_bytes of
             Inl _ \<Rightarrow> (Inl (Txn_Mvcc CorruptedState), s1)
           | Inr lock \<Rightarrow>
               if lock_start_ts lock = start_ts then
                 (case commit_batch E (commit_key_batch start_ts commit_ts primary_key lock) s1 of
                    (Inl e, s2) \<Rightarrow> (Inl (Txn_Storage e), s2)
                  | (Inr _, s2) \<Rightarrow> commit_secondaries E start_ts commit_ts secondaries s2)
               else (Inl TransactionRolledBack, s1)))"

text \<open>The batch \<^verbatim>\<open>rollback\<close> builds for a key, given what it read from the lock partition.\<close>

definition rollback_key_batch :: "u64 \<Rightarrow> bytes \<Rightarrow> bytes option \<Rightarrow> batch" where
  "rollback_key_batch start_ts key lock_bytes =
     (case lock_bytes of
        Some b \<Rightarrow> (case lock_from_bytes b of
                      Inr lock \<Rightarrow> if lock_start_ts lock = start_ts then [Remove P_Lock key] else []
                    | Inl _ \<Rightarrow> [])
      | None \<Rightarrow> []) @
     [Insert P_Write (key_encode key start_ts) (wr_to_bytes (wr_new start_ts Rollback))]"

fun rollback :: "'s env \<Rightarrow> u64 \<Rightarrow> bytes list \<Rightarrow> 's \<Rightarrow> (TxnError + unit) \<times> 's" where
  "rollback E start_ts [] s = (Inr (), s)"
| "rollback E start_ts (key # keys) s =
     (case fj_get E P_Lock key s of
        (Inl e, s1) \<Rightarrow> (Inl (Txn_Fjall e), s1)
      | (Inr lock_bytes, s1) \<Rightarrow>
          (case commit_batch E (rollback_key_batch start_ts key lock_bytes) s1 of
             (Inl e, s2) \<Rightarrow> (Inl (Txn_Storage e), s2)
           | (Inr _, s2) \<Rightarrow> rollback E start_ts keys s2))"

section \<open>The batch operations\<close>

fun batch_prewrite_loop ::
  "'s env \<Rightarrow> u64 \<Rightarrow> Mutation list \<Rightarrow> bytes \<Rightarrow> u64 \<Rightarrow> batch \<Rightarrow> 's \<Rightarrow> (TxnError + batch) \<times> 's" where
  "batch_prewrite_loop E start_ts [] primary_key ttl b s = (Inr b, s)"
| "batch_prewrite_loop E start_ts (mutation # mutations) primary_key ttl b s =
     (case check_write_conflict E (mutation_key mutation) start_ts s of
        (Inl e, s1) \<Rightarrow> (Inl e, s1)
      | (Inr _, s1) \<Rightarrow>
          (case resolve_existing E (mutation_key mutation) start_ts s1 of
             (Inl e, s2) \<Rightarrow> (Inl e, s2)
           | (Inr _, s2) \<Rightarrow>
               batch_prewrite_loop E start_ts mutations primary_key ttl
                 (b @ stage_mutation start_ts primary_key ttl mutation) s2))"

definition batch_prewrite ::
  "'s env \<Rightarrow> u64 \<Rightarrow> Mutation list \<Rightarrow> bytes \<Rightarrow> u64 \<Rightarrow> 's \<Rightarrow> (TxnError + unit) \<times> 's" where
  "batch_prewrite E start_ts mutations primary_key ttl s =
     (if mutations = [] then (Inr (), s)
      else
        (case batch_prewrite_loop E start_ts mutations primary_key ttl [] s of
           (Inl e, s1) \<Rightarrow> (Inl e, s1)
         | (Inr b, s1) \<Rightarrow>
             (case commit_batch E b s1 of
                (Inl e, s2) \<Rightarrow> (Inl (Txn_Storage e), s2)
              | (Inr _, s2) \<Rightarrow> (Inr (), s2))))"

fun batch_commit_loop ::
  "'s env \<Rightarrow> u64 \<Rightarrow> u64 \<Rightarrow> bytes list \<Rightarrow> batch \<Rightarrow> 's \<Rightarrow> (TxnError + batch) \<times> 's" where
  "batch_commit_loop E start_ts commit_ts [] b s = (Inr b, s)"
| "batch_commit_loop E start_ts commit_ts (key # keys) b s =
     (case fj_get E P_Lock key s of
        (Inl e, s1) \<Rightarrow> (Inl (Txn_Fjall e), s1)
      | (Inr None, s1) \<Rightarrow> batch_commit_loop E start_ts commit_ts keys b s1
      | (Inr (Some lock_bytes), s1) \<Rightarrow>
          (case lock_from_bytes lock_bytes of
             Inl _ \<Rightarrow> (Inl (Txn_Mvcc CorruptedState), s1)
           | Inr lock \<Rightarrow>
               batch_commit_loop E start_ts commit_ts keys
                 (if lock_start_ts lock = start_ts
                  then b @ commit_key_batch start_ts commit_ts key lock else b) s1))"

definition batch_commit :: "'s env \<Rightarrow> u64 \<Rightarrow> u64 \<Rightarrow> bytes list \<Rightarrow> 's \<Rightarrow> (TxnError + unit) \<times> 's" where
  "batch_commit E start_ts commit_ts keys s =
     (if keys = [] then (Inr (), s)
      else
        (case batch_commit_loop E start_ts commit_ts keys [] s of
           (Inl e, s1) \<Rightarrow> (Inl e, s1)
         | (Inr b, s1) \<Rightarrow>
             (case commit_batch E b s1 of
                (Inl e, s2) \<Rightarrow> (Inl (Txn_Storage e), s2)
              | (Inr _, s2) \<Rightarrow> (Inr (), s2))))"

end
