(* ===== verification/Router.thy ===== *)
theory Router
  imports Kv_Prelude
begin

text \<open>
  \<^verbatim>\<open>raft-engine/src/router.rs\<close>: regions, the region table and its two indices. A
  \<^verbatim>\<open>BTreeMap\<close> is a strictly sorted association list behind the interface \<open>ordered_map\<close>.
  The invariant \<open>tiled\<close> says that the regions partition the key space and that the two
  indices agree; splitting keeps it, and under it every key has exactly one region, which
  routing finds.
\<close>

section \<open>Ordered maps\<close>

fun bt_insert :: "'k :: linorder \<Rightarrow> 'v \<Rightarrow> ('k \<times> 'v) list \<Rightarrow> ('k \<times> 'v) list" where
  "bt_insert k v [] = [(k, v)]"
| "bt_insert k v ((k', v') # xs) =
     (if k < k' then (k, v) # (k', v') # xs
      else if k = k' then (k, v) # xs
      else (k', v') # bt_insert k v xs)"

definition bt_remove :: "'k \<Rightarrow> ('k \<times> 'v) list \<Rightarrow> ('k \<times> 'v) list" where
  "bt_remove k xs = filter (\<lambda>kv. fst kv \<noteq> k) xs"

definition bt_wf :: "('k :: linorder \<times> 'v) list \<Rightarrow> bool" where
  "bt_wf xs \<longleftrightarrow> sorted_wrt (<) (map fst xs)"

locale ordered_map =
  fixes ins :: "'k :: linorder \<Rightarrow> 'v \<Rightarrow> 'm \<Rightarrow> 'm" and rem :: "'k \<Rightarrow> 'm \<Rightarrow> 'm"
    and get :: "'m \<Rightarrow> 'k \<Rightarrow> 'v option" and items :: "'m \<Rightarrow> ('k \<times> 'v) list" and wf :: "'m \<Rightarrow> bool"
  assumes wf_ins: "wf m \<Longrightarrow> wf (ins k v m)" and wf_rem: "wf m \<Longrightarrow> wf (rem k m)"
    and get_ins: "wf m \<Longrightarrow> get (ins k v m) = (get m)(k \<mapsto> v)"
    and get_rem: "wf m \<Longrightarrow> get (rem k m) = (get m)(k := None)"
    and items_sorted: "wf m \<Longrightarrow> sorted_wrt (<) (map fst (items m))"
    and items_get: "wf m \<Longrightarrow> (k, v) \<in> set (items m) \<longleftrightarrow> get m k = Some v"
begin

lemma items_ins:
  "wf m \<Longrightarrow> (k', v') \<in> set (items (ins k v m)) \<longleftrightarrow> (if k' = k then v' = v else (k', v') \<in> set (items m))"
  by (auto simp: items_get wf_ins get_ins)

lemma items_rem:
  "wf m \<Longrightarrow> (k', v') \<in> set (items (rem k m)) \<longleftrightarrow> k' \<noteq> k \<and> (k', v') \<in> set (items m)"
  by (auto simp: items_get wf_rem get_rem)

end

lemma bt_insert_mem:
  "bt_wf xs \<Longrightarrow> (k', v') \<in> set (bt_insert k v xs) \<longleftrightarrow> (if k' = k then v' = v else (k', v') \<in> set xs)"
proof (induction k v xs rule: bt_insert.induct)
  case (2 k v k1 v1 xs)
  then have "bt_wf xs" "\<And>a b. (a, b) \<in> set xs \<Longrightarrow> k1 < a" by (auto simp: bt_wf_def)
  with 2 show ?case by (auto dest: order.strict_trans)
qed auto

lemma bt_wf_insert: "bt_wf xs \<Longrightarrow> bt_wf (bt_insert k v xs)"
proof (induction k v xs rule: bt_insert.induct)
  case (2 k v k1 v1 xs)
  then have xs: "bt_wf xs" "\<And>a b. (a, b) \<in> set xs \<Longrightarrow> k1 < a" by (auto simp: bt_wf_def)
  consider "k < k1" | "k = k1" | "k1 < k" by force
  then show ?case
  proof cases
    case 1
    have "k < a" if "(a, b) \<in> set xs" for a b using xs(2) [OF that] 1 by simp
    with 1 xs show ?thesis by (auto simp: bt_wf_def)
  next
    case 3
    then have "bt_wf (bt_insert k v xs)" using 2 xs(1) by auto
    moreover have "k1 < a" if "(a, b) \<in> set (bt_insert k v xs)" for a b
      using that xs(2) [of a b] 3 bt_insert_mem [OF xs(1), of a b k v] by (simp split: if_splits)
    ultimately show ?thesis using 3 by (auto simp: bt_wf_def)
  qed (use xs in \<open>auto simp: bt_wf_def\<close>)
qed (simp add: bt_wf_def)

lemma bt_wf_remove: "bt_wf xs \<Longrightarrow> bt_wf (bt_remove k xs)"
  by (induction xs) (auto simp: bt_wf_def bt_remove_def)

lemma bt_mem_map_of: "bt_wf xs \<Longrightarrow> (k, v) \<in> set xs \<longleftrightarrow> map_of xs k = Some v"
  by (simp add: bt_wf_def strict_sorted_iff)

interpretation bt: ordered_map bt_insert bt_remove map_of "\<lambda>xs. xs" bt_wf
proof unfold_locales
  fix m :: "('a :: linorder \<times> 'b) list" and k v
  assume wf: "bt_wf m"
  show "map_of (bt_insert k v m) = (map_of m)(k \<mapsto> v)"
  proof
    fix k'
    have "map_of (bt_insert k v m) k' = Some v' \<longleftrightarrow> ((map_of m)(k \<mapsto> v)) k' = Some v'" for v'
      using bt_insert_mem [OF wf, of k' v' k v] bt_mem_map_of [OF bt_wf_insert [OF wf]] bt_mem_map_of [OF wf]
      by auto
    then show "map_of (bt_insert k v m) k' = ((map_of m)(k \<mapsto> v)) k'"
      by (rule option_eqI)
  qed
  show "map_of (bt_remove k m) = (map_of m)(k := None)"
    unfolding bt_remove_def by (induction m) (auto simp: fun_eq_iff)
qed (auto simp: bt_wf_insert bt_wf_remove bt_mem_map_of, simp add: bt_wf_def)

section \<open>Regions and the router\<close>

datatype RouterError = RegionNotFound bytes | RegionIdNotFound u64 | RegionEpochNotMatch u64

record RegionEpoch =
  conf_ver :: u64
  version :: u64

record Region =
  region_id :: u64
  start_key :: bytes
  end_key :: bytes
  peers :: "u64 list"
  epoch :: RegionEpoch

definition region_new :: "u64 \<Rightarrow> bytes \<Rightarrow> bytes \<Rightarrow> u64 list \<Rightarrow> Region" where
  "region_new rid start stop ps =
     \<lparr>region_id = rid, start_key = start, end_key = stop, peers = ps,
      epoch = \<lparr>conf_ver = 1, version = 1\<rparr>\<rparr>"

definition contains_key :: "Region \<Rightarrow> bytes \<Rightarrow> bool" where
  "contains_key r key \<longleftrightarrow>
     (start_key r = [] \<or> start_key r \<le> key) \<and> (end_key r = [] \<or> key < end_key r)"

record RegionRouter =
  regions_by_id :: "(u64 \<times> Region) list"
  regions_by_key :: "(bytes \<times> Region) list"

definition router_new :: RegionRouter where
  "router_new = \<lparr>regions_by_id = [], regions_by_key = []\<rparr>"

definition insert_region :: "Region \<Rightarrow> RegionRouter \<Rightarrow> RegionRouter" where
  "insert_region r rt =
     \<lparr>regions_by_id = bt_insert (region_id r) r (regions_by_id rt),
      regions_by_key = bt_insert (start_key r) r (regions_by_key rt)\<rparr>"

definition get_region :: "RegionRouter \<Rightarrow> u64 \<Rightarrow> Region option" where
  "get_region rt rid = map_of (regions_by_id rt) rid"

definition route_key :: "RegionRouter \<Rightarrow> bytes \<Rightarrow> RouterError + Region" where
  "route_key rt key =
     (case find (\<lambda>r. contains_key r key) (rev (map snd (regions_by_key rt))) of
        Some r \<Rightarrow> Inr r
      | None \<Rightarrow> Inl (RegionNotFound key))"

definition split_left :: "Region \<Rightarrow> bytes \<Rightarrow> Region" where
  "split_left old_region split_key =
     \<lparr>region_id = region_id old_region, start_key = start_key old_region, end_key = split_key,
      peers = peers old_region,
      epoch = \<lparr>conf_ver = conf_ver (epoch old_region), version = version (epoch old_region) + 1\<rparr>\<rparr>"

definition split_right :: "Region \<Rightarrow> bytes \<Rightarrow> u64 \<Rightarrow> Region" where
  "split_right old_region split_key new_region_id =
     \<lparr>region_id = new_region_id, start_key = split_key, end_key = end_key old_region,
      peers = peers old_region,
      epoch = \<lparr>conf_ver = conf_ver (epoch old_region), version = 1\<rparr>\<rparr>"

definition split_region ::
  "u64 \<Rightarrow> bytes \<Rightarrow> u64 \<Rightarrow> RegionRouter \<Rightarrow> (RouterError + Region \<times> Region) \<times> RegionRouter" where
  "split_region rid split_key new_region_id rt =
     (case map_of (regions_by_id rt) rid of
        None \<Rightarrow> (Inl (RegionIdNotFound rid), rt)
      | Some old_region \<Rightarrow>
          if \<not> contains_key old_region split_key \<or> split_key = start_key old_region
          then (Inl (RegionNotFound split_key), rt)
          else
            let left = split_left old_region split_key;
                right = split_right old_region split_key new_region_id;
                by_key = bt_remove (start_key old_region) (regions_by_key rt)
            in (Inr (left, right),
                \<lparr>regions_by_id =
                   bt_insert (region_id right) right (bt_insert (region_id left) left (regions_by_id rt)),
                 regions_by_key =
                   bt_insert (start_key right) right (bt_insert (start_key left) left by_key)\<rparr>))"

section \<open>The invariant\<close>

text \<open>The table as a set of regions.\<close>

definition regions :: "RegionRouter \<Rightarrow> Region set" where
  "regions rt = snd ` set (regions_by_key rt)"

definition table_ok :: "RegionRouter \<Rightarrow> bool" where
  "table_ok rt \<longleftrightarrow> bt_wf (regions_by_id rt) \<and> bt_wf (regions_by_key rt) \<and>
     (\<forall>k r. (k, r) \<in> set (regions_by_key rt) \<longrightarrow> start_key r = k) \<and>
     (\<forall>i r. (i, r) \<in> set (regions_by_id rt) \<longrightarrow> region_id r = i) \<and>
     snd ` set (regions_by_id rt) = snd ` set (regions_by_key rt)"

text \<open>Every key belongs to exactly one region, and no region is empty.\<close>

definition partitions :: "Region set \<Rightarrow> bool" where
  "partitions R \<longleftrightarrow> (\<forall>key. \<exists>!r. r \<in> R \<and> contains_key r key) \<and> (\<forall>r \<in> R. contains_key r (start_key r))"

definition tiled :: "RegionRouter \<Rightarrow> bool" where
  "tiled rt \<longleftrightarrow> table_ok rt \<and> partitions (regions rt)"

lemma in_snd_image: "r \<in> snd ` S \<longleftrightarrow> (\<exists>k. (k, r) \<in> S)"
  by force

lemma table_okD:
  assumes "table_ok rt"
  shows "bt_wf (regions_by_id rt)" "bt_wf (regions_by_key rt)"
    "(k, r) \<in> set (regions_by_key rt) \<longleftrightarrow> r \<in> regions rt \<and> k = start_key r"
    "map_of (regions_by_id rt) i = Some r \<longleftrightarrow> r \<in> regions rt \<and> i = region_id r"
proof -
  show wf: "bt_wf (regions_by_id rt)" "bt_wf (regions_by_key rt)"
    using assms by (simp_all add: table_ok_def)
  have key: "start_key r = k" if "(k, r) \<in> set (regions_by_key rt)" for k r
    using assms that unfolding table_ok_def by blast
  have rid: "region_id r = i" if "(i, r) \<in> set (regions_by_id rt)" for i r
    using assms that unfolding table_ok_def by blast
  have same: "regions rt = snd ` set (regions_by_id rt)"
    using assms by (simp add: table_ok_def regions_def)
  show "(k, r) \<in> set (regions_by_key rt) \<longleftrightarrow> r \<in> regions rt \<and> k = start_key r"
    using key by (auto simp: regions_def in_snd_image)
  have "(i, r) \<in> set (regions_by_id rt) \<longleftrightarrow> r \<in> regions rt \<and> i = region_id r"
    using rid by (auto simp: same in_snd_image)
  then show "map_of (regions_by_id rt) i = Some r \<longleftrightarrow> r \<in> regions rt \<and> i = region_id r"
    by (simp add: bt_mem_map_of [OF wf(1)])
qed

lemma route_key_tiled:
  assumes "tiled rt"
  obtains r where "route_key rt key = Inr r" "r \<in> regions rt" "contains_key r key"
    "\<And>r'. r' \<in> regions rt \<Longrightarrow> contains_key r' key \<Longrightarrow> r' = r"
proof -
  from assms have "\<exists>!r. r \<in> regions rt \<and> contains_key r key"
    by (simp add: tiled_def partitions_def)
  then obtain r where r: "r \<in> regions rt" "contains_key r key"
      and u: "\<And>r'. r' \<in> regions rt \<Longrightarrow> contains_key r' key \<Longrightarrow> r' = r"
    by (elim ex1E) blast
  have R: "set (rev (map snd (regions_by_key rt))) = regions rt" by (simp add: regions_def)
  have "find (\<lambda>r. contains_key r key) (rev (map snd (regions_by_key rt))) = Some r"
  proof (cases "find (\<lambda>r. contains_key r key) (rev (map snd (regions_by_key rt)))")
    case None
    with r R show ?thesis by (auto simp: find_None_iff)
  next
    case (Some r')
    from find_SomeD [OF this] have "r' \<in> regions rt" "contains_key r' key"
      unfolding R by blast+
    then have "r' = r" by (rule u)
    with Some show ?thesis by simp
  qed
  then have "route_key rt key = Inr r" by (simp add: route_key_def)
  from that [OF this r u] show ?thesis .
qed

lemma table_okI:
  assumes "bt_wf (regions_by_id rt)" "bt_wf (regions_by_key rt)"
    and "\<And>k r. (k, r) \<in> set (regions_by_key rt) \<longleftrightarrow> r \<in> R \<and> k = start_key r"
    and "\<And>i r. (i, r) \<in> set (regions_by_id rt) \<longleftrightarrow> r \<in> R \<and> i = region_id r"
  shows "table_ok rt" "regions rt = R"
proof -
  show R: "regions rt = R" by (auto simp: regions_def in_snd_image assms(3))
  have "snd ` set (regions_by_id rt) = R" by (auto simp: in_snd_image assms(4))
  with R assms show "table_ok rt" by (simp add: table_ok_def regions_def)
qed

section \<open>Splitting\<close>

lemma contains_split:
  assumes "contains_key r k" "k \<noteq> start_key r"
  shows "contains_key (split_left r k) key \<longleftrightarrow> contains_key r key \<and> key < k"
    and "contains_key (split_right r k i) key \<longleftrightarrow> contains_key r key \<and> k \<le> key"
proof -
  have k: "k \<noteq> []" "start_key r \<le> k" "end_key r = [] \<or> k < end_key r"
    using assms by (auto simp: contains_key_def)
  show "contains_key (split_left r k) key \<longleftrightarrow> contains_key r key \<and> key < k"
    using k by (auto simp: contains_key_def split_left_def)
  show "contains_key (split_right r k i) key \<longleftrightarrow> contains_key r key \<and> k \<le> key"
    using k by (auto simp: contains_key_def split_right_def)
qed

lemma partitions_split:
  assumes R: "partitions R" and r: "r \<in> R" and k: "contains_key r k" "k \<noteq> start_key r"
  shows "partitions (R - {r} \<union> {split_left r k, split_right r k i})"
proof -
  let ?R = "R - {r} \<union> {split_left r k, split_right r k i}"
  note c = contains_split [OF k]
  have uniq: "r1 = r2" if "r1 \<in> R" "r2 \<in> R" "contains_key r1 key" "contains_key r2 key" for r1 r2 key
    using R that unfolding partitions_def by blast
  have ex: "\<exists>!r'. r' \<in> ?R \<and> contains_key r' key" for key
  proof -
    obtain r0 where r0: "r0 \<in> R" "contains_key r0 key"
      using R unfolding partitions_def by blast
    show ?thesis
    proof (cases "r0 = r")
      case False
      then have "\<not> contains_key r key" using uniq r r0 by blast
      then have "r' = r0" if "r' \<in> ?R" "contains_key r' key" for r'
        using that uniq [OF _ r0(1) _ r0(2)] c by blast
      with r0 False show ?thesis by blast
    next
      case True
      have other: "r' \<in> {split_left r k, split_right r k i}" if "r' \<in> ?R" "contains_key r' key" for r'
        using that uniq [OF _ r0(1) _ r0(2)] True by blast
      show ?thesis
      proof (cases "key < k")
        case left: True
        have "r' = split_left r k" if "r' \<in> ?R" "contains_key r' key" for r'
          using other [OF that] that(2) c left by auto
        with r0 True c left show ?thesis by (intro ex1I [of _ "split_left r k"]) auto
      next
        case right: False
        have "r' = split_right r k i" if "r' \<in> ?R" "contains_key r' key" for r'
          using other [OF that] that(2) c right by auto
        with r0 True c right show ?thesis by (intro ex1I [of _ "split_right r k i"]) auto
      qed
    qed
  qed
  have "start_key r < k"
    using k by (cases "start_key r = []") (auto simp: contains_key_def order_less_le)
  moreover have "contains_key r (start_key r)" using R r by (simp add: partitions_def)
  ultimately have "contains_key (split_left r k) (start_key r)" "contains_key (split_right r k i) k"
    using k c by auto
  then have "\<forall>r' \<in> ?R. contains_key r' (start_key r')"
    using R by (auto simp: partitions_def split_left_def split_right_def)
  with ex show ?thesis unfolding partitions_def by blast
qed

lemma split_region_tiled:
  assumes tiled: "tiled rt" and old: "get_region rt rid = Some r"
    and k: "contains_key r k" "k \<noteq> start_key r" and fresh: "\<forall>r' \<in> regions rt. region_id r' \<noteq> new_id"
  obtains rt' where "split_region rid k new_id rt = (Inr (split_left r k, split_right r k new_id), rt')" "tiled rt'"
    "regions rt' = regions rt - {r} \<union> {split_left r k, split_right r k new_id}"
proof -
  let ?l = "split_left r k" and ?r = "split_right r k new_id"
  let ?R = "regions rt - {r} \<union> {?l, ?r}"
  have ok: "table_ok rt" and part: "partitions (regions rt)" using tiled by (simp_all add: tiled_def)
  note t = table_okD [OF ok]
  have r: "r \<in> regions rt" "rid = region_id r" using old t(4) by (simp_all add: get_region_def)
  define rt' where "rt' = \<lparr>regions_by_id = bt_insert (region_id ?r) ?r (bt_insert (region_id ?l) ?l (regions_by_id rt)),
      regions_by_key = bt_insert (start_key ?r) ?r (bt_insert (start_key ?l) ?l
        (bt_remove (start_key r) (regions_by_key rt)))\<rparr>"
  have run: "split_region rid k new_id rt = (Inr (?l, ?r), rt')"
    using old k by (simp add: split_region_def get_region_def rt'_def Let_def)
  have simps: "region_id ?l = region_id r" "region_id ?r = new_id" "start_key ?l = start_key r" "start_key ?r = k"
    by (simp_all add: split_left_def split_right_def)
  have uniq: "r1 = r2" if "r1 \<in> regions rt" "r2 \<in> regions rt" "contains_key r1 key" "contains_key r2 key" for r1 r2 key
    using part that unfolding partitions_def by blast
  have start: "start_key r' \<noteq> k" if "r' \<in> regions rt" for r'
    using uniq [OF that r(1)] part that k unfolding partitions_def by blast
  have key_inj: "r' = r" if "r' \<in> regions rt" "start_key r' = start_key r" for r'
    using uniq [OF that(1) r(1), of "start_key r"] part that r(1) unfolding partitions_def by metis
  have id_inj: "r' = r" if "r' \<in> regions rt" "region_id r' = region_id r" for r'
  proof -
    have "map_of (regions_by_id rt) (region_id r) = Some r'" "map_of (regions_by_id rt) (region_id r) = Some r"
      using that r(1) by (simp_all add: t(4))
    then show ?thesis by simp
  qed
  have by_id: "(i, r') \<in> set (regions_by_id rt) \<longleftrightarrow> r' \<in> regions rt \<and> i = region_id r'" for i r'
    by (simp add: bt_mem_map_of [OF t(1)] t(4))
  have 1: "(i, r') \<in> set (regions_by_id rt') \<longleftrightarrow> r' \<in> ?R \<and> i = region_id r'" for i r'
    using fresh id_inj [of r'] r(1) simps
    by (auto simp: rt'_def bt.items_ins bt_wf_insert t(1) by_id)
  have 2: "(k', r') \<in> set (regions_by_key rt') \<longleftrightarrow> r' \<in> ?R \<and> k' = start_key r'" for k' r'
    using start [of r'] key_inj [of r'] k(2) simps
    by (auto simp: rt'_def bt.items_ins bt.items_rem bt_wf_insert bt_wf_remove t(2) t(3))
  have wf: "bt_wf (regions_by_id rt')" "bt_wf (regions_by_key rt')"
    by (simp_all add: rt'_def bt_wf_insert bt_wf_remove t(1,2))
  note ok' = table_okI [OF wf 2 1]
  have "tiled rt'"
    using ok' partitions_split [OF part r(1) k] by (simp add: tiled_def)
  with run ok'(2) that show ?thesis by blast
qed

lemma split_region_rejects:
  assumes "fst (split_region rid k new_id rt) = Inl e"
  shows "snd (split_region rid k new_id rt) = rt"
  using assms by (auto simp: split_region_def Let_def split: option.splits if_splits)

lemma route_key_iff:
  assumes "tiled rt"
  shows "route_key rt key = Inr r \<longleftrightarrow> r \<in> regions rt \<and> contains_key r key"
proof -
  obtain r0 where r0: "route_key rt key = Inr r0" "r0 \<in> regions rt" "contains_key r0 key"
      "\<And>r'. r' \<in> regions rt \<Longrightarrow> contains_key r' key \<Longrightarrow> r' = r0"
    by (rule route_key_tiled [OF assms]) blast
  then show ?thesis by (metis Inr_inject)
qed

text \<open>The table with one region for the whole key space, as a node sets it up.\<close>

lemma initial_tiled: "tiled (insert_region (region_new i [] [] ps) router_new)"
  by (auto simp: tiled_def table_ok_def partitions_def regions_def insert_region_def router_new_def
      region_new_def contains_key_def bt_wf_def)

section \<open>Properties of the router\<close>

text \<open>C28. Splitting: for a key inside a region and other than its start key, and a fresh region
  identifier, \<open>split_region\<close> succeeds; the table stays tiled, keys of the region below the
  split key are routed to the left part and the others of the region to the right part, and
  all other keys are routed as before.\<close>

theorem split_region_reroutes:
  assumes "tiled rt" "get_region rt rid = Some r" "contains_key r k" "k \<noteq> start_key r"
    and "\<forall>r' \<in> regions rt. region_id r' \<noteq> new_id"
  shows "fst (split_region rid k new_id rt) = Inr (split_left r k, split_right r k new_id) \<and>
    tiled (snd (split_region rid k new_id rt)) \<and>
    route_key (snd (split_region rid k new_id rt)) key =
      (if route_key rt key = Inr r then Inr (if key < k then split_left r k else split_right r k new_id)
       else route_key rt key)"
proof -
  obtain rt' where s: "split_region rid k new_id rt = (Inr (split_left r k, split_right r k new_id), rt')"
      "tiled rt'" "regions rt' = regions rt - {r} \<union> {split_left r k, split_right r k new_id}"
    by (rule split_region_tiled [OF assms])
  note c = contains_split [OF assms(3,4)]
  obtain r0 where r0: "route_key rt key = Inr r0" "r0 \<in> regions rt" "contains_key r0 key"
    by (rule route_key_tiled [OF assms(1), of key]) blast
  have "route_key rt' key = (if route_key rt key = Inr r then Inr (if key < k then split_left r k else split_right r k new_id)
       else route_key rt key)"
  proof (cases "r0 = r")
    case True
    with r0 c show ?thesis
      by (simp add: route_key_iff [OF s(2)] s(3) not_less)
  next
    case False
    with r0 have "route_key rt' key = Inr r0" by (simp add: route_key_iff [OF s(2)] s(3))
    with r0 False show ?thesis by simp
  qed
  with s show ?thesis by simp
qed

theorem split_region_reroutes_witness:
  "route_key (snd (split_region 1 [5] 2 (insert_region (region_new 1 [] [] [1]) router_new))) [7] =
   Inr (split_right (region_new 1 [] [] [1]) [5] 2)"
proof -
  let ?rt = "insert_region (region_new 1 [] [] [1]) router_new"
  have "get_region ?rt 1 = Some (region_new 1 [] [] [1])" "route_key ?rt [7] = Inr (region_new 1 [] [] [1])"
    by (simp_all add: get_region_def insert_region_def router_new_def region_new_def route_key_def contains_key_def)
  with split_region_reroutes [OF initial_tiled, of 1 "[1]" 1 "region_new 1 [] [] [1]" "[5]" 2 "[7]"]
  show ?thesis
    by (simp add: regions_def insert_region_def router_new_def region_new_def contains_key_def)
qed

end
