(* ===== verification/Raft_Store.thy ===== *)
theory Raft_Store
  imports Storage_Engine
begin

text \<open>
  \<^verbatim>\<open>raft-engine/src/store.rs\<close>: the log of a Raft group, kept in memory and mirrored into
  the default partition of the engine under keys of their own. Log entries, hard states and
  configuration states are generated protobuf types of the crate \<^verbatim>\<open>raft\<close>, so they are type
  parameters, and the record \<open>raft_pb\<close> holds what the code calls on them; the locale
  \<open>raft_codec\<close> says that parsing inverts serialising. Panics of indexing are values.
\<close>

section \<open>The parameters\<close>

record ('e, 'h, 'c) raft_pb =
  en_index :: "'e \<Rightarrow> u64"
  en_term :: "'e \<Rightarrow> u64"
  en_data :: "'e \<Rightarrow> bytes"
  en_dummy :: 'e
  en_parse :: "bytes \<Rightarrow> 'e option"
  en_write :: "'e \<Rightarrow> bytes option"
  hs_default :: 'h
  hs_parse :: "bytes \<Rightarrow> 'h option"
  hs_write :: "'h \<Rightarrow> bytes option"
  cs_default :: 'c
  cs_parse :: "bytes \<Rightarrow> 'c option"
  cs_write :: "'c \<Rightarrow> bytes option"

locale raft_codec =
  fixes pb :: "('e, 'h, 'c) raft_pb"
  assumes en_codec: "en_write pb e = Some b \<Longrightarrow> en_parse pb b = Some e"
    and hs_codec: "hs_write pb h = Some b \<Longrightarrow> hs_parse pb b = Some h"
    and cs_codec: "cs_write pb c = Some b \<Longrightarrow> cs_parse pb b = Some c"
    and dummy_index: "en_index pb (en_dummy pb) = 0"

section \<open>Keys\<close>

definition ascii :: "string \<Rightarrow> bytes" where
  "ascii = map of_char"

definition digit :: "nat \<Rightarrow> u8" where
  "digit d = word_of_nat (48 + d)"

text \<open>\<^verbatim>\<open>{}\<close> and \<^verbatim>\<open>{:020}\<close> of a \<^verbatim>\<open>u64\<close>, which has at most 20 digits.\<close>

fun dec :: "nat \<Rightarrow> bytes" where
  "dec n = (if n < 10 then [digit n] else dec (n div 10) @ [digit (n mod 10)])"

declare dec.simps [simp del]

primrec dec_fixed :: "nat \<Rightarrow> nat \<Rightarrow> bytes" where
  "dec_fixed 0 n = []"
| "dec_fixed (Suc w) n = dec_fixed w (n div 10) @ [digit (n mod 10)]"

definition hs_key :: "u64 \<Rightarrow> bytes" where
  "hs_key rid = ascii ''r_hs_'' @ dec (unat rid)"

definition cs_key :: "u64 \<Rightarrow> bytes" where
  "cs_key rid = ascii ''r_cs_'' @ dec (unat rid)"

definition entry_prefix :: "u64 \<Rightarrow> bytes" where
  "entry_prefix rid = ascii ''r_entry_'' @ dec (unat rid) @ ascii ''_''"

definition entry_key :: "u64 \<Rightarrow> u64 \<Rightarrow> bytes" where
  "entry_key rid idx = ascii ''r_entry_'' @ dec (unat rid) @ ascii ''_'' @ dec_fixed 20 (unat idx)"

section \<open>The storage\<close>

datatype raft_error = Compacted | Unavailable

datatype 'a raft_res = ROk 'a | RErr raft_error | RPanic

record ('e, 'h, 'c) RaftStorageCore =
  hard_state :: 'h
  conf_state :: 'c
  entries :: "'e list"

definition parse_or :: "(bytes \<Rightarrow> 'a option) \<Rightarrow> 'a \<Rightarrow> fjall_error + bytes option \<Rightarrow> 'a" where
  "parse_or parse d g = (case g of
     Inr (Some b) \<Rightarrow> (case parse b of Some x \<Rightarrow> x | None \<Rightarrow> d)
   | _ \<Rightarrow> d)"

fun load_entries :: "(bytes \<Rightarrow> 'e option) \<Rightarrow> bytes \<Rightarrow> items \<Rightarrow> 'e list" where
  "load_entries parse pfx [] = []"
| "load_entries parse pfx (Inl e # its) = load_entries parse pfx its"
| "load_entries parse pfx (Inr (k, v) # its) =
     (if \<not> prefix pfx k then []
      else case parse v of
        Some entry \<Rightarrow> entry # load_entries parse pfx its
      | None \<Rightarrow> load_entries parse pfx its)"

definition raft_storage_new ::
  "('e, 'h, 'c) raft_pb \<Rightarrow> 's env \<Rightarrow> u64 \<Rightarrow> 's \<Rightarrow> ('e, 'h, 'c) RaftStorageCore \<times> 's" where
  "raft_storage_new pb E rid s =
     (case fj_get E P_Default (hs_key rid) s of (h, s1) \<Rightarrow>
      case fj_get E P_Default (cs_key rid) s1 of (c, s2) \<Rightarrow>
      case fj_range_from E P_Default (entry_prefix rid) s2 of (its, s3) \<Rightarrow>
        let es = load_entries (en_parse pb) (entry_prefix rid) its in
        (\<lparr>hard_state = parse_or (hs_parse pb) (hs_default pb) h,
          conf_state = parse_or (cs_parse pb) (cs_default pb) c,
          entries = (if es = [] then [en_dummy pb] else es)\<rparr>, s3))"

text \<open>The batch of \<^verbatim>\<open>append\<close>: entries that do not serialise are left out.\<close>

definition entry_ops :: "('e, 'h, 'c) raft_pb \<Rightarrow> u64 \<Rightarrow> 'e list \<Rightarrow> batch" where
  "entry_ops pb rid es = concat (map (\<lambda>e. case en_write pb e of
     Some b \<Rightarrow> [Insert P_Default (entry_key rid (en_index pb e)) b]
   | None \<Rightarrow> []) es)"

definition raft_append ::
  "('e, 'h, 'c) raft_pb \<Rightarrow> 's env \<Rightarrow> u64 \<Rightarrow> 'e list \<Rightarrow> ('e, 'h, 'c) RaftStorageCore \<Rightarrow> 's \<Rightarrow>
     unit raft_res \<times> ('e, 'h, 'c) RaftStorageCore \<times> 's" where
  "raft_append pb E rid es core s =
     (case es of
        [] \<Rightarrow> (ROk (), core, s)
      | e # _ \<Rightarrow>
          (case entries core of
             [] \<Rightarrow> (RPanic, core, s)
           | base # _ \<Rightarrow>
               if en_index pb e < en_index pb base then (RErr Compacted, core, s)
               else
                 let diff = unat (en_index pb e - en_index pb base);
                     old = (if length (entries core) > diff then take diff (entries core) else entries core);
                     core' = core\<lparr>entries := old @ es\<rparr>
                 in (case commit_batch E (entry_ops pb rid es) s of (_, s') \<Rightarrow> (ROk (), core', s'))))"

definition set_hard_state ::
  "('e, 'h, 'c) raft_pb \<Rightarrow> 's env \<Rightarrow> u64 \<Rightarrow> 'h \<Rightarrow> ('e, 'h, 'c) RaftStorageCore \<Rightarrow> 's \<Rightarrow>
     ('e, 'h, 'c) RaftStorageCore \<times> 's" where
  "set_hard_state pb E rid hs core s =
     (core\<lparr>hard_state := hs\<rparr>,
      case hs_write pb hs of
        None \<Rightarrow> s
      | Some b \<Rightarrow> snd (commit_batch E [Insert P_Default (hs_key rid) b] s))"

definition set_conf_state ::
  "('e, 'h, 'c) raft_pb \<Rightarrow> 's env \<Rightarrow> u64 \<Rightarrow> 'c \<Rightarrow> ('e, 'h, 'c) RaftStorageCore \<Rightarrow> 's \<Rightarrow>
     ('e, 'h, 'c) RaftStorageCore \<times> 's" where
  "set_conf_state pb E rid cs core s =
     (core\<lparr>conf_state := cs\<rparr>,
      case cs_write pb cs of
        None \<Rightarrow> s
      | Some b \<Rightarrow> snd (commit_batch E [Insert P_Default (cs_key rid) b] s))"

definition initial_state :: "('e, 'h, 'c) RaftStorageCore \<Rightarrow> 'h \<times> 'c" where
  "initial_state core = (hard_state core, conf_state core)"

definition raft_entries ::
  "('e, 'h, 'c) raft_pb \<Rightarrow> u64 \<Rightarrow> u64 \<Rightarrow> ('e, 'h, 'c) RaftStorageCore \<Rightarrow> 'e list raft_res" where
  "raft_entries pb low high core =
     (case entries core of
        [] \<Rightarrow> RPanic
      | e # _ \<Rightarrow>
          let first_idx = en_index pb e; last_idx = en_index pb (last (entries core)) in
          if low < first_idx then RErr Compacted
          else if high > last_idx + 1 then RErr Unavailable
          else
            let start = unat (low - first_idx); stop = unat (high - first_idx) in
            if start \<le> stop \<and> stop \<le> length (entries core)
            then ROk (take (stop - start) (drop start (entries core)))
            else RPanic)"

definition raft_term ::
  "('e, 'h, 'c) raft_pb \<Rightarrow> u64 \<Rightarrow> ('e, 'h, 'c) RaftStorageCore \<Rightarrow> u64 raft_res" where
  "raft_term pb idx core =
     (case entries core of
        [] \<Rightarrow> RPanic
      | e # _ \<Rightarrow>
          if idx < en_index pb e then RErr Compacted
          else
            let offset = unat (idx - en_index pb e) in
            if length (entries core) \<le> offset then RErr Unavailable
            else ROk (en_term pb (entries core ! offset)))"

definition raft_first_index ::
  "('e, 'h, 'c) raft_pb \<Rightarrow> ('e, 'h, 'c) RaftStorageCore \<Rightarrow> u64 raft_res" where
  "raft_first_index pb core =
     (case entries core of [] \<Rightarrow> RPanic | e # _ \<Rightarrow> ROk (en_index pb e + 1))"

definition raft_last_index ::
  "('e, 'h, 'c) raft_pb \<Rightarrow> ('e, 'h, 'c) RaftStorageCore \<Rightarrow> u64 raft_res" where
  "raft_last_index pb core =
     (case entries core of [] \<Rightarrow> RPanic | _ \<Rightarrow> ROk (en_index pb (last (entries core))))"

record 'c snapshot_meta =
  snap_index :: u64
  snap_term :: u64
  snap_conf_state :: 'c

definition raft_snapshot ::
  "('e, 'h, 'c) raft_pb \<Rightarrow> ('e, 'h, 'c) RaftStorageCore \<Rightarrow> 'c snapshot_meta raft_res" where
  "raft_snapshot pb core =
     (case entries core of
        [] \<Rightarrow> RPanic
      | e # _ \<Rightarrow> ROk \<lparr>snap_index = en_index pb e, snap_term = en_term pb e, snap_conf_state = conf_state core\<rparr>)"

end
