(* ===== verification/Raft_Log.thy ===== *)
theory Raft_Log
  imports Raft_Store
begin

text \<open>
  Facts on the Raft log: on a contiguous log the lookups by index are right, an append that
  leaves no gap keeps the log contiguous, and what was appended is found again by reading
  the engine.
\<close>

section \<open>Contiguous logs\<close>

definition contiguous :: "('e, 'h, 'c) raft_pb \<Rightarrow> 'e list \<Rightarrow> bool" where
  "contiguous pb es \<longleftrightarrow> es \<noteq> [] \<and>
     (\<forall>i < length es. unat (en_index pb (es ! i)) = unat (en_index pb (hd es)) + i)"

lemma contiguousD: "contiguous pb es \<Longrightarrow> i < length es \<Longrightarrow> unat (en_index pb (es ! i)) = unat (en_index pb (hd es)) + i"
  by (simp add: contiguous_def)

lemma contiguous_last: "contiguous pb es \<Longrightarrow> unat (en_index pb (last es)) = unat (en_index pb (hd es)) + (length es - 1)"
  by (simp add: contiguous_def last_conv_nth)

lemma contiguous_mem:
  assumes "contiguous pb es" "e \<in> set es"
  obtains i where "i < length es" "e = es ! i" "unat (en_index pb e) = unat (en_index pb (hd es)) + i"
  using assms by (metis contiguousD in_set_conv_nth)

lemma contiguous_distinct: "contiguous pb es \<Longrightarrow> distinct (map (en_index pb) es)"
  unfolding distinct_conv_nth by (metis add_left_cancel contiguousD length_map nth_map)

lemma contiguous_sorted: "contiguous pb es \<Longrightarrow> sorted_wrt (<) (map (en_index pb) es)"
  by (auto simp: sorted_wrt_iff_nth_less word_less_nat_alt contiguousD)

lemma unat_minus: "b \<le> a \<Longrightarrow> unat (a - b) = unat (a :: u64) - unat b"
  by (rule unat_sub)

lemma contiguous_append:
  assumes old: "contiguous pb old" and es: "contiguous pb es"
    and first: "unat (en_index pb (hd es)) = unat (en_index pb (hd old)) + n" "n \<le> length old"
  shows "contiguous pb (take n old @ es)"
proof -
  let ?xs = "take n old @ es"
  have hd: "unat (en_index pb (hd ?xs)) = unat (en_index pb (hd old))"
    using first old by (cases "n = 0") (auto simp: hd_append contiguous_def)
  have "unat (en_index pb (?xs ! i)) = unat (en_index pb (hd old)) + i" if "i < length ?xs" for i
    using that first contiguousD [OF old, of i] contiguousD [OF es, of "i - n"]
    by (auto simp: nth_append)
  with hd es show ?thesis by (simp add: contiguous_def)
qed

lemma contiguous_takeWhile:
  assumes "contiguous pb xs" "en_index pb (hd xs) \<le> i"
  shows "takeWhile (\<lambda>e. en_index pb e < i) xs = take (unat i - unat (en_index pb (hd xs))) xs"
proof (rule takeWhile_eq_take_P_nth)
  let ?n = "unat i - unat (en_index pb (hd xs))"
  have le: "unat (en_index pb (hd xs)) \<le> unat i" using assms(2) by (simp add: word_le_nat_alt)
  show "en_index pb (xs ! j) < i" if "j < ?n" "j < length xs" for j
    using that le contiguousD [OF assms(1) that(2)] by (simp add: word_less_nat_alt)
  show "\<not> en_index pb (xs ! ?n) < i" if "?n < length xs"
    using le contiguousD [OF assms(1) that] by (simp add: word_less_nat_alt)
qed

lemma contiguous_takeWhile_iff:
  assumes "contiguous pb xs"
  shows "e \<in> set (takeWhile (\<lambda>e. en_index pb e < i) xs) \<longleftrightarrow> e \<in> set xs \<and> en_index pb e < i"
proof
  assume e: "e \<in> set xs \<and> en_index pb e < i"
  have "sorted_wrt (\<lambda>x y. en_index pb x < en_index pb y) xs"
    using contiguous_sorted [OF assms] by (simp add: sorted_wrt_map)
  then show "e \<in> set (takeWhile (\<lambda>e. en_index pb e < i) xs)"
    using e by (induction xs) auto
qed (auto dest: set_takeWhileD)

lemma raft_append_log:
  assumes old: "contiguous pb (entries core)" and es: "contiguous pb es"
    and first: "en_index pb (hd (entries core)) \<le> en_index pb (hd es)"
      "unat (en_index pb (hd es)) \<le> unat (en_index pb (last (entries core))) + 1"
  defines "n \<equiv> unat (en_index pb (hd es)) - unat (en_index pb (hd (entries core)))"
  shows "raft_append pb E rid es core s =
      (ROk (), core\<lparr>entries := take n (entries core) @ es\<rparr>, snd (commit_batch E (entry_ops pb rid es) s))"
    and "contiguous pb (take n (entries core) @ es)"
proof -
  obtain e es' where es': "es = e # es'" using es by (cases es) (auto simp: contiguous_def)
  obtain b old' where old': "entries core = b # old'" using old by (cases "entries core") (auto simp: contiguous_def)
  have n: "unat (en_index pb e - en_index pb b) = n"
    using first(1) by (simp add: n_def es' old' unat_minus)
  have "(if length (entries core) > n then take n (entries core) else entries core) = take n (entries core)"
    by simp
  with n first(1) show "raft_append pb E rid es core s =
      (ROk (), core\<lparr>entries := take n (entries core) @ es\<rparr>, snd (commit_batch E (entry_ops pb rid es) s))"
    by (simp add: raft_append_def es' old' not_less [symmetric] case_prod_unfold Let_def)
  show "contiguous pb (take n (entries core) @ es)"
  proof (rule contiguous_append [OF old es])
    show "unat (en_index pb (hd es)) = unat (en_index pb (hd (entries core))) + n"
      using first(1) by (simp add: n_def word_le_nat_alt)
    show "n \<le> length (entries core)"
      using first(2) contiguous_last [OF old] by (simp add: n_def old')
  qed
qed

text \<open>An append right after the last entry.\<close>

lemma raft_extends:
  assumes log: "contiguous pb (entries core)" "contiguous pb es"
    and first: "unat (en_index pb (hd es)) = unat (en_index pb (last (entries core))) + 1"
  shows "raft_append pb E rid es core s =
      (ROk (), core\<lparr>entries := entries core @ es\<rparr>, snd (commit_batch E (entry_ops pb rid es) s))"
    and "contiguous pb (entries core @ es)"
proof -
  have hd: "en_index pb (hd (entries core)) \<le> en_index pb (hd es)"
    using contiguous_last [OF log(1)] first by (simp add: word_le_nat_alt)
  have last: "unat (en_index pb (hd es)) \<le> unat (en_index pb (last (entries core))) + 1"
    using first by simp
  have "length (entries core) \<le> unat (en_index pb (hd es)) - unat (en_index pb (hd (entries core)))"
    using contiguous_last [OF log(1)] log(1) first by (cases "entries core") (simp_all add: contiguous_def)
  with raft_append_log(1) [OF log hd last, of E rid s] raft_append_log(2) [OF log hd last]
  show "raft_append pb E rid es core s =
      (ROk (), core\<lparr>entries := entries core @ es\<rparr>, snd (commit_batch E (entry_ops pb rid es) s))"
    and "contiguous pb (entries core @ es)" by simp_all
qed

text \<open>Lookups.\<close>

lemma raft_last_index_log:
  "entries core \<noteq> [] \<Longrightarrow> raft_last_index pb core = ROk (en_index pb (last (entries core)))"
  by (cases "entries core") (simp_all add: raft_last_index_def)

lemma raft_term_log:
  assumes log: "contiguous pb (entries core)" and e: "e \<in> set (entries core)"
  shows "raft_term pb (en_index pb e) core = ROk (en_term pb e)"
proof -
  obtain i where i: "i < length (entries core)" "e = entries core ! i"
      "unat (en_index pb e) = unat (en_index pb (hd (entries core))) + i"
    using contiguous_mem [OF log e] .
  obtain b old' where b: "entries core = b # old'" using log by (cases "entries core") (auto simp: contiguous_def)
  have le: "en_index pb b \<le> en_index pb e" using i(3) b by (simp add: word_le_nat_alt)
  then have "unat (en_index pb e - en_index pb b) = i" using i(3) b by (simp add: unat_minus)
  with le i b show ?thesis by (auto simp: raft_term_def Let_def)
qed

lemma raft_entries_log:
  assumes log: "contiguous pb (entries core)"
    and low: "en_index pb (hd (entries core)) \<le> low" "low \<le> high"
    and high: "unat high \<le> unat (en_index pb (last (entries core))) + 1" "unat (en_index pb (last (entries core))) + 1 < 2 ^ 64"
  shows "\<exists>es. raft_entries pb low high core = ROk es \<and>
    map (unat \<circ> en_index pb) es = [unat low ..< unat high] \<and> set es \<subseteq> set (entries core)"
proof -
  let ?xs = "entries core"
  obtain b old' where b: "?xs = b # old'" using log by (cases ?xs) (auto simp: contiguous_def)
  let ?i = "unat low - unat (en_index pb b)" and ?j = "unat high - unat (en_index pb b)"
  have h: "en_index pb b \<le> high" using low b by simp
  have i: "unat (low - en_index pb b) = ?i" "unat (high - en_index pb b) = ?j"
    using low b h by (simp_all add: unat_minus)
  have len: "?j \<le> length ?xs"
    using high(1) contiguous_last [OF log] b by simp
  have le: "?i \<le> ?j" using low(2) by (simp add: word_le_nat_alt diff_le_mono)
  have "unat (en_index pb (last ?xs) + 1) = unat (en_index pb (last ?xs)) + 1"
    using high(2) by (subst unat_add_lem [THEN iffD1]) simp_all
  then have nh: "\<not> high > en_index pb (last ?xs) + 1" using high(1) by (simp add: word_less_nat_alt)
  let ?es = "take (?j - ?i) (drop ?i ?xs)"
  have "raft_entries pb low high core = ROk ?es"
    using low(1) nh i len le b by (auto simp: raft_entries_def Let_def)
  moreover have "map (unat \<circ> en_index pb) ?es = [unat low ..< unat high]"
  proof (rule nth_equalityI)
    have lb: "unat (en_index pb b) \<le> unat low" using low(1) b by (simp add: word_le_nat_alt)
    show len': "length (map (unat \<circ> en_index pb) ?es) = length [unat low ..< unat high]"
      using len le lb by simp
    fix k assume k: "k < length (map (unat \<circ> en_index pb) ?es)"
    then have "?i + k < length ?xs" by auto
    then have "unat (en_index pb (?xs ! (?i + k))) = unat (en_index pb b) + (?i + k)"
      using contiguousD [OF log, of "?i + k"] b by simp
    with k lb len le show "map (unat \<circ> en_index pb) ?es ! k = [unat low ..< unat high] ! k"
      by simp
  qed
  moreover have "set ?es \<subseteq> set ?xs" by (meson set_drop_subset set_take_subset subset_trans)
  ultimately show ?thesis by blast
qed

section \<open>Keys of the log\<close>

lemma unat_digit: "d < 10 \<Longrightarrow> unat (digit d) = 48 + d"
  by (simp only: digit_def unat_of_nat) simp

lemma digit_less: "d < 10 \<Longrightarrow> d' < 10 \<Longrightarrow> digit d < digit d' \<longleftrightarrow> d < d'"
  by (simp add: word_less_nat_alt unat_digit)

lemma digit_not_underscore: "d < 10 \<Longrightarrow> digit d \<noteq> 95"
  using unat_digit [of d] by auto

lemma length_dec_fixed [simp]: "length (dec_fixed w n) = w"
  by (induction w arbitrary: n) simp_all

lemma snoc_less_same_length:
  "length xs = length ys \<Longrightarrow> xs @ [x] < ys @ [y] \<longleftrightarrow> xs < ys \<or> xs = ys \<and> (x :: 'a :: linorder) < y"
  by (induction xs ys rule: list_induct2) auto

lemma dec_fixed_less: "n < 10 ^ w \<Longrightarrow> m < 10 ^ w \<Longrightarrow> dec_fixed w n < dec_fixed w m \<longleftrightarrow> n < m"
proof (induction w arbitrary: n m)
  case (Suc w)
  have b: "n div 10 < 10 ^ w" "m div 10 < 10 ^ w"
    using Suc.prems by (simp_all add: less_mult_imp_div_less mult.commute)
  have inj: "dec_fixed w (n div 10) = dec_fixed w (m div 10) \<longleftrightarrow> n div 10 = m div 10"
  proof
    assume eq: "dec_fixed w (n div 10) = dec_fixed w (m div 10)"
    have "\<not> n div 10 < m div 10" using Suc.IH [OF b] by (simp add: eq)
    moreover have "\<not> m div 10 < n div 10" using Suc.IH [OF b(2,1)] by (simp add: eq)
    ultimately show "n div 10 = m div 10" by simp
  qed simp
  have "n < m \<longleftrightarrow> n div 10 < m div 10 \<or> n div 10 = m div 10 \<and> n mod 10 < m mod 10"
    using div_mult_mod_eq [of n 10] div_mult_mod_eq [of m 10] mod_less_divisor [of 10 n] mod_less_divisor [of 10 m]
    by linarith
  with Suc.IH [OF b] inj show ?case by (simp add: snoc_less_same_length digit_less)
qed simp

lemma entry_key_prefix: "entry_key rid i = entry_prefix rid @ dec_fixed 20 (unat i)"
  by (simp add: entry_key_def entry_prefix_def)

lemma entry_key_less: "entry_key rid i < entry_key rid j \<longleftrightarrow> i < j"
proof -
  have "unat (x :: u64) < 10 ^ 20" for x
    using unsigned_less [where ?'a = nat and w = x] by simp
  then show ?thesis by (simp add: entry_key_prefix dec_fixed_less word_less_nat_alt)
qed

lemma entry_key_inject [simp]: "entry_key rid i = entry_key rid j \<longleftrightarrow> i = j"
  using entry_key_less [of rid i j] entry_key_less [of rid j i] by (cases i j rule: linorder_cases) auto

text \<open>A decimal numeral ends at the first underscore, so the keys of one region do not carry the
  prefix of another.\<close>

definition dec_value :: "bytes \<Rightarrow> nat" where
  "dec_value = foldl (\<lambda>a d. a * 10 + (unat d - 48)) 0"

lemma dec_value_dec: "dec_value (dec n) = n"
proof (induction n rule: dec.induct)
  case (1 n)
  show ?case
  proof (cases "n < 10")
    case True
    then show ?thesis by (simp add: dec.simps [of n] dec_value_def unat_digit)
  next
    case False
    with 1 show ?thesis by (simp add: dec.simps [of n] dec_value_def unat_digit)
  qed
qed

lemma dec_no_underscore: "d \<in> set (dec n) \<Longrightarrow> d \<noteq> 95"
proof (induction n rule: dec.induct)
  case (1 n)
  then show ?case
    by (cases "n < 10") (auto simp: dec.simps [of n] digit_not_underscore)
qed

lemma ascii_consts:
  "ascii ''r_hs_'' = [114, 95, 104, 115, 95]" "ascii ''r_cs_'' = [114, 95, 99, 115, 95]"
  "ascii ''r_entry_'' = [114, 95, 101, 110, 116, 114, 121, 95]" "ascii ''_'' = [95]"
  by code_simp+

lemma takeWhile_dec: "takeWhile (\<lambda>d. d \<noteq> 95) (dec n @ 95 # x) = dec n"
  using dec_no_underscore by (simp add: takeWhile_append2)

lemma entry_prefix_region:
  assumes "prefix (entry_prefix rid) (entry_key rid' i)"
  shows "rid = rid'"
proof -
  obtain x where "dec (unat rid) @ 95 # x = dec (unat rid') @ 95 # dec_fixed 20 (unat i)"
    using assms by (auto simp: prefix_def entry_prefix_def entry_key_def ascii_consts)
  then have "dec (unat rid) = dec (unat rid')" by (metis takeWhile_dec)
  then show ?thesis by (metis dec_value_dec word_unat_eq_iff)
qed

lemma not_entry_keys:
  "\<not> prefix (entry_prefix rid) (hs_key rid')" "\<not> prefix (entry_prefix rid) (cs_key rid')"
  "hs_key rid \<noteq> cs_key rid'" "entry_key rid i \<noteq> hs_key rid'" "entry_key rid i \<noteq> cs_key rid'"
  by (auto simp: prefix_def entry_prefix_def entry_key_def hs_key_def cs_key_def ascii_consts)

section \<open>The persisted log\<close>

definition log_of :: "('e, 'h, 'c) raft_pb \<Rightarrow> u64 \<Rightarrow> view \<Rightarrow> u64 \<Rightarrow> 'e option" where
  "log_of pb rid v i = Option.bind (v P_Default (entry_key rid i)) (en_parse pb)"

text \<open>Everything stored under the prefix of the region is an entry under its own index.\<close>

definition log_wf :: "('e, 'h, 'c) raft_pb \<Rightarrow> u64 \<Rightarrow> view \<Rightarrow> bool" where
  "log_wf pb rid v \<longleftrightarrow> (\<forall>k b. v P_Default k = Some b \<and> prefix (entry_prefix rid) k \<longrightarrow>
     (\<exists>e. en_parse pb b = Some e \<and> k = entry_key rid (en_index pb e)))"

text \<open>The entries in the order of their indices.\<close>

definition reloaded :: "('e, 'h, 'c) raft_pb \<Rightarrow> u64 \<Rightarrow> view \<Rightarrow> 'e list \<Rightarrow> bool" where
  "reloaded pb rid v es \<longleftrightarrow> sorted_wrt (<) (map (en_index pb) es) \<and>
     (\<forall>e. e \<in> set es \<longleftrightarrow> log_of pb rid v (en_index pb e) = Some e)"

lemma load_entries_map:
  "load_entries parse pfx (map Inr kvs) = List.map_filter (\<lambda>kv. parse (snd kv)) (takeWhile (\<lambda>kv. prefix pfx (fst kv)) kvs)"
  by (induction kvs) (auto simp: map_filter_simps split: option.split)

lemma takeWhile_prefix_scan:
  assumes "scan_of m pfx kvs"
  shows "(k, b) \<in> set (takeWhile (\<lambda>kv. prefix pfx (fst kv)) kvs) \<longleftrightarrow> m k = Some b \<and> prefix pfx k"
proof
  assume "(k, b) \<in> set (takeWhile (\<lambda>kv. prefix pfx (fst kv)) kvs)"
  with set_takeWhileD [OF this] scan_of_mem [OF assms] show "m k = Some b \<and> prefix pfx k" by auto
next
  assume kb: "m k = Some b \<and> prefix pfx k"
  then obtain x where x: "k = pfx @ x" by (auto simp: prefix_def)
  have le: "pfx \<le> k" using append_le_same_prefix [of pfx "[]" x] x by simp
  have mem: "(k, b) \<in> set kvs" using scan_of_mem [OF assms] kb le by blast
  show "(k, b) \<in> set (takeWhile (\<lambda>kv. prefix pfx (fst kv)) kvs)"
  proof (rule takeWhile_mem_sorted [OF scan_of_sorted [OF assms] mem])
    fix y assume y: "y \<in> set kvs" "fst y \<le> fst (k, b)"
    then have "pfx \<le> fst y" using scan_of_mem [OF assms, of "fst y" "snd y"] by simp
    with y(2) x between_prefix [of pfx "[]" "fst y" x] show "prefix pfx (fst y)" by simp
  qed
qed

lemma load_entries_reloaded:
  assumes scan: "scan_of (v P_Default) (entry_prefix rid) kvs" and wf: "log_wf pb rid v"
  shows "reloaded pb rid v (load_entries (en_parse pb) (entry_prefix rid) (map Inr kvs))"
proof -
  let ?tw = "takeWhile (\<lambda>kv. prefix (entry_prefix rid) (fst kv)) kvs"
  have ent: "\<exists>e. en_parse pb (snd kv) = Some e \<and> fst kv = entry_key rid (en_index pb e)" if "kv \<in> set ?tw" for kv
    using takeWhile_prefix_scan [OF scan, of "fst kv" "snd kv"] that wf unfolding log_wf_def by simp
  define f where "f kv = the (en_parse pb (snd kv))" for kv :: "bytes \<times> bytes"
  have f: "en_parse pb (snd kv) = Some (f kv)" "fst kv = entry_key rid (en_index pb (f kv))" if "kv \<in> set ?tw" for kv
    using ent [OF that] by (auto simp: f_def)
  have "List.map_filter (\<lambda>kv. en_parse pb (snd kv)) kvs' = map f kvs'" if "set kvs' \<subseteq> set ?tw" for kvs'
    using that by (induction kvs') (auto simp: map_filter_simps f(1))
  then have load: "load_entries (en_parse pb) (entry_prefix rid) (map Inr kvs) = map f ?tw"
    by (simp add: load_entries_map)
  have "sorted_wrt (\<lambda>x y. fst x < fst y) ?tw"
    using scan_of_sorted [OF scan] sorted_wrt_takeWhile by (auto simp: sorted_wrt_map)
  then have "sorted_wrt (\<lambda>x y. en_index pb (f x) < en_index pb (f y)) ?tw"
    by (rule sorted_wrt_mono_rel [rotated]) (metis f(2) entry_key_less)
  then have 1: "sorted_wrt (<) (map (en_index pb) (map f ?tw))" by (simp add: sorted_wrt_map)
  have 2: "e \<in> set (map f ?tw) \<longleftrightarrow> log_of pb rid v (en_index pb e) = Some e" for e
  proof
    assume "e \<in> set (map f ?tw)"
    then obtain kv where kv: "kv \<in> set ?tw" "e = f kv" by auto
    then have "v P_Default (fst kv) = Some (snd kv)"
      using takeWhile_prefix_scan [OF scan, of "fst kv" "snd kv"] by simp
    with f [OF kv(1)] kv(2) show "log_of pb rid v (en_index pb e) = Some e" by (simp add: log_of_def)
  next
    assume "log_of pb rid v (en_index pb e) = Some e"
    then obtain b where b: "v P_Default (entry_key rid (en_index pb e)) = Some b" "en_parse pb b = Some e"
      by (auto simp: log_of_def bind_eq_Some_conv)
    have "prefix (entry_prefix rid) (entry_key rid (en_index pb e))" by (simp add: entry_key_prefix)
    with b takeWhile_prefix_scan [OF scan] have "(entry_key rid (en_index pb e), b) \<in> set ?tw" by blast
    from imageI [OF this, of f] b(2) show "e \<in> set (map f ?tw)" by (simp add: f_def)
  qed
  from 1 2 show ?thesis unfolding load reloaded_def by blast
qed

lemma reloaded_unique: "reloaded pb rid v es \<Longrightarrow> reloaded pb rid v es' \<Longrightarrow> es = es'"
proof -
  assume *: "reloaded pb rid v es" "reloaded pb rid v es'"
  let ?p = "\<lambda>e. (en_index pb e, e)"
  have "map ?p es = map ?p es'"
    by (rule sorted_wrt_less_fst_unique)
       (use * in \<open>auto simp: reloaded_def comp_def\<close>)
  then have "map snd (map ?p es) = map snd (map ?p es')" by (rule arg_cong)
  then show "es = es'" by (simp add: comp_def)
qed

section \<open>Appending and restarting\<close>

lemma log_of_insert:
  "log_of pb rid (apply_op v (Insert P_Default (entry_key rid' i) b)) j =
     (if rid' = rid \<and> j = i then en_parse pb b else log_of pb rid v j)"
proof (cases "entry_key rid j = entry_key rid' i")
  case True
  then have "prefix (entry_prefix rid) (entry_key rid' i)" by (metis entry_key_prefix prefixI)
  then have "rid = rid'" by (rule entry_prefix_region)
  with True show ?thesis by (simp add: log_of_def)
next
  case False
  then show ?thesis by (auto simp: log_of_def)
qed

lemma log_wf_insert:
  assumes "log_wf pb rid v" "en_parse pb b = Some e"
  shows "log_wf pb rid (apply_op v (Insert P_Default (entry_key rid' (en_index pb e)) b))"
  unfolding log_wf_def
proof (intro allI impI, elim conjE)
  fix k c
  assume c: "apply_op v (Insert P_Default (entry_key rid' (en_index pb e)) b) P_Default k = Some c"
    and p: "prefix (entry_prefix rid) k"
  show "\<exists>e. en_parse pb c = Some e \<and> k = entry_key rid (en_index pb e)"
  proof (cases "k = entry_key rid' (en_index pb e)")
    case True
    with p have "rid = rid'" using entry_prefix_region by blast
    with True c assms(2) show ?thesis by auto
  next
    case False
    with c p assms(1) show ?thesis unfolding log_wf_def by simp
  qed
qed

context raft_codec
begin

lemma apply_entry_ops:
  assumes "list_all (\<lambda>e. en_write pb e \<noteq> None) es" "distinct (map (en_index pb) es)" "log_wf pb rid v"
  shows "log_wf pb rid (apply_batch (entry_ops pb rid es) v) \<and>
    log_of pb rid (apply_batch (entry_ops pb rid es) v) i =
      (case find (\<lambda>e. en_index pb e = i) es of Some e \<Rightarrow> Some e | None \<Rightarrow> log_of pb rid v i)"
  using assms
proof (induction es arbitrary: v)
  case Nil
  then show ?case by (simp add: entry_ops_def)
next
  case (Cons e es)
  then obtain b where b: "en_write pb e = Some b" by auto
  let ?v = "apply_op v (Insert P_Default (entry_key rid (en_index pb e)) b)"
  have ops: "apply_batch (entry_ops pb rid (e # es)) v = apply_batch (entry_ops pb rid es) ?v"
    by (simp add: entry_ops_def b del: apply_op.simps)
  note p = en_codec [OF b]
  have wf: "log_wf pb rid ?v" using log_wf_insert [OF Cons.prems(3) p] .
  have "find (\<lambda>x. en_index pb x = en_index pb e) es = None"
    using Cons.prems(2) by (simp add: find_None_iff) (metis imageI)
  moreover have "list_all (\<lambda>e. en_write pb e \<noteq> None) es" "distinct (map (en_index pb) es)"
    using Cons.prems by simp_all
  note Cons.IH [OF this wf]
  ultimately show ?case
    unfolding ops log_of_insert p by (auto simp del: apply_op.simps split: option.split)
qed

end

text \<open>The engine holds the log of the group, apart from the artificial entry at index 0.\<close>

definition persisted :: "('e, 'h, 'c) raft_pb \<Rightarrow> u64 \<Rightarrow> view \<Rightarrow> ('e, 'h, 'c) RaftStorageCore \<Rightarrow> bool" where
  "persisted pb rid v core \<longleftrightarrow> log_wf pb rid v \<and>
     (\<forall>e. log_of pb rid v (en_index pb e) = Some e \<longleftrightarrow> e \<in> set (entries core) \<and> en_index pb e \<noteq> 0)"

definition real_entries :: "('e, 'h, 'c) raft_pb \<Rightarrow> 'e list \<Rightarrow> 'e list" where
  "real_entries pb es = filter (\<lambda>e. en_index pb e \<noteq> 0) es"

lemma persisted_reloaded:
  assumes "persisted pb rid v core" "contiguous pb (entries core)" "reloaded pb rid v es"
  shows "es = real_entries pb (entries core)"
proof (rule reloaded_unique [OF assms(3)])
  have "sorted_wrt (\<lambda>x y. en_index pb x < en_index pb y) (real_entries pb (entries core))"
    using contiguous_sorted [OF assms(2)] sorted_wrt_filter unfolding real_entries_def sorted_wrt_map by blast
  with assms(1) show "reloaded pb rid v (real_entries pb (entries core))"
    by (auto simp: reloaded_def persisted_def real_entries_def sorted_wrt_map)
qed

lemma contiguous_index:
  assumes "contiguous pb es" "en_index pb (hd es) \<le> i" "i \<le> en_index pb (last es)"
  obtains e where "e \<in> set es" "en_index pb e = i"
proof -
  let ?j = "unat i - unat (en_index pb (hd es))"
  have le: "unat (en_index pb (hd es)) \<le> unat i" "unat i \<le> unat (en_index pb (last es))"
    using assms(2,3) by (simp_all add: word_le_nat_alt)
  then have "?j < length es"
    using contiguous_last [OF assms(1)] assms(1) by (cases es) (simp_all add: contiguous_def)
  with contiguousD [OF assms(1) this] le that [of "es ! ?j"] show ?thesis by (simp add: word_unat_eq_iff)
qed

text \<open>Entries that continue or replace the end of the log, without leaving a gap and without
  shortening it.\<close>

lemma persisted_replace:
  assumes codec: "raft_codec pb" and p: "persisted pb rid v core" and log: "contiguous pb (entries core)" "contiguous pb es"
    and first: "en_index pb (hd (entries core)) \<le> en_index pb (hd es)" "en_index pb (hd es) \<noteq> 0"
    and covers: "en_index pb (last (entries core)) \<le> en_index pb (last es)"
    and w: "list_all (\<lambda>e. en_write pb e \<noteq> None) es"
  shows "persisted pb rid (apply_batch (entry_ops pb rid es) v)
    (core\<lparr>entries := take (unat (en_index pb (hd es)) - unat (en_index pb (hd (entries core)))) (entries core) @ es\<rparr>)"
    (is "persisted _ _ _ (core\<lparr>entries := take ?n _ @ es\<rparr>)")
proof -
  have wf: "log_wf pb rid v" using p by (simp add: persisted_def)
  note ops = raft_codec.apply_entry_ops [OF codec w contiguous_distinct [OF log(2)] wf]
  have new: "en_index pb (hd es) \<le> en_index pb e" if "e \<in> set es" for e
    by (rule contiguous_mem [OF log(2) that]) (simp add: word_le_nat_alt)
  have kept: "e \<in> set (take ?n (entries core)) \<longleftrightarrow> e \<in> set (entries core) \<and> en_index pb e < en_index pb (hd es)" for e
    unfolding contiguous_takeWhile [OF log(1) first(1), symmetric]
    using contiguous_takeWhile_iff [OF log(1)] by blast
  have old: "en_index pb e \<le> en_index pb (last es)" if "e \<in> set (entries core)" for e
    by (rule contiguous_mem [OF log(1) that])
       (use contiguous_last [OF log(1)] covers in \<open>simp add: word_le_nat_alt\<close>)
  have "log_of pb rid (apply_batch (entry_ops pb rid es) v) (en_index pb e) = Some e \<longleftrightarrow>
      e \<in> set (take ?n (entries core) @ es) \<and> en_index pb e \<noteq> 0" for e
  proof (cases "find (\<lambda>x. en_index pb x = en_index pb e) es")
    case None
    then have none: "\<nexists>x. x \<in> set es \<and> en_index pb x = en_index pb e" by (auto simp: find_None_iff)
    have "en_index pb e < en_index pb (hd es)" if "e \<in> set (entries core)"
      using contiguous_index [OF log(2), of "en_index pb e"] old [OF that] none by (metis not_less)
    with none None ops [of "en_index pb e"] p kept show ?thesis by (auto simp: persisted_def)
  next
    case (Some x)
    from find_SomeD [OF this] have x: "x \<in> set es" "en_index pb x = en_index pb e" by auto
    have "e \<notin> set (take ?n (entries core))" using new [OF x(1)] x(2) by (simp add: kept not_less)
    moreover have "en_index pb e \<noteq> 0" using new [OF x(1)] x(2) first(2) by auto
    moreover have "e \<in> set es \<longleftrightarrow> x = e"
      using contiguous_distinct [OF log(2)] x by (auto simp: distinct_map inj_on_def)
    ultimately show ?thesis using Some ops [of "en_index pb e"] by auto
  qed
  with ops show ?thesis by (auto simp: persisted_def)
qed

lemma persisted_extend:
  assumes "raft_codec pb" "persisted pb rid v core" and log: "contiguous pb (entries core)" "contiguous pb es"
    and first: "unat (en_index pb (hd es)) = unat (en_index pb (last (entries core))) + 1"
    and "list_all (\<lambda>e. en_write pb e \<noteq> None) es"
  shows "persisted pb rid (apply_batch (entry_ops pb rid es) v) (core\<lparr>entries := entries core @ es\<rparr>)"
proof -
  have "entries core \<noteq> []" using log(1) by (simp add: contiguous_def)
  then have "take (unat (en_index pb (hd es)) - unat (en_index pb (hd (entries core)))) (entries core) = entries core"
    using first contiguous_last [OF log(1)] by (cases "entries core") simp_all
  moreover have "en_index pb (hd (entries core)) \<le> en_index pb (hd es)" "en_index pb (hd es) \<noteq> 0"
      "en_index pb (last (entries core)) \<le> en_index pb (last es)"
    using first contiguous_last [OF log(1)] contiguous_last [OF log(2)] by (auto simp: word_le_nat_alt)
  ultimately show ?thesis using persisted_replace [OF assms(1,2) log _ _ _ assms(6)] by simp
qed

end
