(* ===== verification/Raft_Durable.thy ===== *)
theory Raft_Durable
  imports Raft_Log
begin

text \<open>
  Durability of the Raft storage on an engine that does not fail: what \<^verbatim>\<open>append\<close>,
  \<^verbatim>\<open>set_hard_state\<close> and \<^verbatim>\<open>set_conf_state\<close> stored is what \<^verbatim>\<open>RaftStorage::new\<close> reads after a
  restart, and the groups of a node do not disturb each other although they share a
  partition. The properties of the storage are at the end.
\<close>

section \<open>What a group reads at a restart\<close>

text \<open>The keys of a group.\<close>

definition group_keys :: "u64 \<Rightarrow> bytes set" where
  "group_keys rid = {hs_key rid, cs_key rid} \<union> {k. prefix (entry_prefix rid) k}"

lemma dec_inject [simp]: "dec m = dec n \<longleftrightarrow> m = n"
  by (metis dec_value_dec)

lemma hs_cs_key_inject [simp]: "hs_key rid = hs_key rid' \<longleftrightarrow> rid = rid'" "cs_key rid = cs_key rid' \<longleftrightarrow> rid = rid'"
  by (auto simp: hs_key_def cs_key_def word_unat_eq_iff)

lemma group_keys_disjoint:
  assumes "rid \<noteq> rid'"
  shows "hs_key rid' \<notin> group_keys rid" "cs_key rid' \<notin> group_keys rid" "entry_key rid' i \<notin> group_keys rid"
  using assms not_entry_keys(1-3) not_entry_keys(3) [symmetric] not_entry_keys(4,5) entry_prefix_region [of rid rid' i]
  by (simp_all add: group_keys_def) metis+

lemma load_entries_cong:
  assumes "scan_of m (entry_prefix rid) kvs" "scan_of m' (entry_prefix rid) kvs'"
    and same: "\<And>k. k \<in> group_keys rid \<Longrightarrow> m' k = m k"
  shows "load_entries parse (entry_prefix rid) (map Inr kvs') = load_entries parse (entry_prefix rid) (map Inr kvs)"
proof -
  let ?tw = "takeWhile (\<lambda>kv. prefix (entry_prefix rid) (fst kv))"
  have s: "sorted_wrt (<) (map fst (?tw xs))" if "sorted_wrt (<) (map fst xs)" for xs :: "(bytes \<times> bytes) list"
    using that sorted_wrt_takeWhile unfolding sorted_wrt_map by blast
  have "?tw kvs' = ?tw kvs"
  proof (rule sorted_wrt_less_fst_unique)
    show "sorted_wrt (<) (map fst (?tw kvs'))" "sorted_wrt (<) (map fst (?tw kvs))"
      using s scan_of_sorted assms(1,2) by blast+
    have "m' k = m k" if "prefix (entry_prefix rid) k" for k
      by (rule same) (use that in \<open>simp add: group_keys_def\<close>)
    then have "(k, b) \<in> set (?tw kvs') \<longleftrightarrow> (k, b) \<in> set (?tw kvs)" for k b
      using takeWhile_prefix_scan [OF assms(1), of k b] takeWhile_prefix_scan [OF assms(2), of k b] by auto
    then show "set (?tw kvs') = set (?tw kvs)" by auto
  qed
  then show ?thesis by (simp add: load_entries_map)
qed

text \<open>A batch over other keys of the default partition.\<close>

fun op_key :: "batch_op \<Rightarrow> bytes" where
  "op_key (Insert p k x) = k"
| "op_key (Remove p k) = k"

lemma apply_batch_frame:
  "k \<notin> op_key ` set b \<Longrightarrow> apply_batch b v p k = v p k"
proof (induction b arbitrary: v)
  case (Cons x b)
  then show ?case by (cases x) auto
qed simp

lemma entry_ops_keys: "op_key ` set (entry_ops pb rid es) \<subseteq> entry_key rid ` UNIV"
  by (auto simp: entry_ops_def split: option.splits)

context fjall_reliable
begin

lemma raft_storage_new_total:
  obtains kvs s' where "raft_storage_new pb E rid s =
      (\<lparr>hard_state = parse_or (hs_parse pb) (hs_default pb) (Inr (view s P_Default (hs_key rid))),
        conf_state = parse_or (cs_parse pb) (cs_default pb) (Inr (view s P_Default (cs_key rid))),
        entries = (let es = load_entries (en_parse pb) (entry_prefix rid) (map Inr kvs) in
          if es = [] then [en_dummy pb] else es)\<rparr>, s')"
    "view s' = view s" "scan_of (view s P_Default) (entry_prefix rid) kvs"
proof -
  obtain s1 where h: "fj_get E P_Default (hs_key rid) s = (Inr (view s P_Default (hs_key rid)), s1)" "view s1 = view s"
    by (rule get_reliable)
  obtain s2 where c: "fj_get E P_Default (cs_key rid) s1 = (Inr (view s1 P_Default (cs_key rid)), s2)" "view s2 = view s1"
    by (rule get_reliable)
  obtain kvs s3 where r: "fj_range_from E P_Default (entry_prefix rid) s2 = (map Inr kvs, s3)"
      "scan_of (view s2 P_Default) (entry_prefix rid) kvs" "view s3 = view s2"
    by (rule range_reliable)
  with h c show ?thesis
    by (intro that [of kvs s3]) (simp_all add: raft_storage_new_def Let_def)
qed

lemma raft_storage_new_cong:
  assumes "\<And>k. k \<in> group_keys rid \<Longrightarrow> view s' P_Default k = view s P_Default k"
  shows "fst (raft_storage_new pb E rid s') = fst (raft_storage_new pb E rid s)"
proof -
  obtain kvs t where 1: "raft_storage_new pb E rid s =
      (\<lparr>hard_state = parse_or (hs_parse pb) (hs_default pb) (Inr (view s P_Default (hs_key rid))),
        conf_state = parse_or (cs_parse pb) (cs_default pb) (Inr (view s P_Default (cs_key rid))),
        entries = (let es = load_entries (en_parse pb) (entry_prefix rid) (map Inr kvs) in
          if es = [] then [en_dummy pb] else es)\<rparr>, t)" "scan_of (view s P_Default) (entry_prefix rid) kvs"
    by (rule raft_storage_new_total)
  obtain kvs' t' where 2: "raft_storage_new pb E rid s' =
      (\<lparr>hard_state = parse_or (hs_parse pb) (hs_default pb) (Inr (view s' P_Default (hs_key rid))),
        conf_state = parse_or (cs_parse pb) (cs_default pb) (Inr (view s' P_Default (cs_key rid))),
        entries = (let es = load_entries (en_parse pb) (entry_prefix rid) (map Inr kvs') in
          if es = [] then [en_dummy pb] else es)\<rparr>, t')" "scan_of (view s' P_Default) (entry_prefix rid) kvs'"
    by (rule raft_storage_new_total)
  have "load_entries (en_parse pb) (entry_prefix rid) (map Inr kvs') = load_entries (en_parse pb) (entry_prefix rid) (map Inr kvs)"
    by (rule load_entries_cong [OF 1(2) 2(2) assms])
  moreover have "view s' P_Default (hs_key rid) = view s P_Default (hs_key rid)"
      "view s' P_Default (cs_key rid) = view s P_Default (cs_key rid)"
    by (rule assms; simp add: group_keys_def)+
  ultimately show ?thesis using 1 2 by simp
qed

lemma commit_batch_view: "view (snd (commit_batch E b s)) = apply_batch b (view s)"
  by (rule commit_batch_reliable [of b s]) simp

lemma raft_restart:
  assumes "persisted pb rid (view s) core" "contiguous pb (entries core)"
  shows "entries (fst (raft_storage_new pb E rid s)) =
    (if real_entries pb (entries core) = [] then [en_dummy pb] else real_entries pb (entries core))"
proof -
  obtain kvs s' where 1: "raft_storage_new pb E rid s =
      (\<lparr>hard_state = parse_or (hs_parse pb) (hs_default pb) (Inr (view s P_Default (hs_key rid))),
        conf_state = parse_or (cs_parse pb) (cs_default pb) (Inr (view s P_Default (cs_key rid))),
        entries = (let es = load_entries (en_parse pb) (entry_prefix rid) (map Inr kvs) in
          if es = [] then [en_dummy pb] else es)\<rparr>, s')" "scan_of (view s P_Default) (entry_prefix rid) kvs"
    by (rule raft_storage_new_total)
  have wf: "log_wf pb rid (view s)" using assms(1) by (simp add: persisted_def)
  have "load_entries (en_parse pb) (entry_prefix rid) (map Inr kvs) = real_entries pb (entries core)"
    by (rule persisted_reloaded [OF assms load_entries_reloaded [where v = "view s", OF 1(2) wf]])
  with 1(1) show ?thesis by (simp add: Let_def)
qed

lemma raft_append_view:
  "view (snd (snd (raft_append pb E rid es core s))) = view s \<or>
   view (snd (snd (raft_append pb E rid es core s))) = apply_batch (entry_ops pb rid es) (view s)"
  by (auto simp: raft_append_def Let_def case_prod_unfold commit_batch_view split: list.split)

lemma set_hard_state_view:
  "view (snd (set_hard_state pb E rid hs core s)) =
     (case hs_write pb hs of None \<Rightarrow> view s | Some b \<Rightarrow> apply_op (view s) (Insert P_Default (hs_key rid) b))"
  by (simp add: set_hard_state_def commit_batch_view split: option.split)

lemma set_conf_state_view:
  "view (snd (set_conf_state pb E rid cs core s)) =
     (case cs_write pb cs of None \<Rightarrow> view s | Some b \<Rightarrow> apply_op (view s) (Insert P_Default (cs_key rid) b))"
  by (simp add: set_conf_state_def commit_batch_view split: option.split)

lemma raft_groups_frame:
  assumes "rid \<noteq> rid'" "k \<in> group_keys rid"
  shows "view (snd (snd (raft_append pb E rid' es core s))) P_Default k = view s P_Default k"
    and "view (snd (set_hard_state pb E rid' hs core s)) P_Default k = view s P_Default k"
    and "view (snd (set_conf_state pb E rid' cs core s)) P_Default k = view s P_Default k"
proof -
  note d = group_keys_disjoint [OF assms(1)]
  have "k \<notin> op_key ` set (entry_ops pb rid' es)"
  proof
    assume "k \<in> op_key ` set (entry_ops pb rid' es)"
    with entry_ops_keys have "k \<in> entry_key rid' ` UNIV" by (rule subsetD)
    then obtain i where "k = entry_key rid' i" by (rule imageE)
    with d(3) [of i] assms(2) show False by simp
  qed
  then have "apply_batch (entry_ops pb rid' es) (view s) P_Default k = view s P_Default k"
    by (rule apply_batch_frame)
  then show "view (snd (snd (raft_append pb E rid' es core s))) P_Default k = view s P_Default k"
    using raft_append_view [of pb rid' es core s] by (elim disjE) simp_all
  have k: "k \<noteq> hs_key rid'" "k \<noteq> cs_key rid'" using d(1,2) assms(2) by metis+
  show "view (snd (set_hard_state pb E rid' hs core s)) P_Default k = view s P_Default k"
    using k by (cases "hs_write pb hs") (simp_all add: set_hard_state_view)
  show "view (snd (set_conf_state pb E rid' cs core s)) P_Default k = view s P_Default k"
    using k by (cases "cs_write pb cs") (simp_all add: set_conf_state_view)
qed

end

lemma log_other_key:
  assumes "\<not> prefix (entry_prefix rid) k"
  shows "log_of pb rid (apply_op v (Insert P_Default k b)) = log_of pb rid v"
    and "log_wf pb rid (apply_op v (Insert P_Default k b)) = log_wf pb rid v"
    and "persisted pb rid (apply_op v (Insert P_Default k b)) = persisted pb rid v"
proof -
  have "entry_key rid i \<noteq> k" for i using assms by (auto simp: entry_key_prefix)
  then show 1: "log_of pb rid (apply_op v (Insert P_Default k b)) = log_of pb rid v"
    by (auto simp: log_of_def fun_eq_iff)
  show 2: "log_wf pb rid (apply_op v (Insert P_Default k b)) = log_wf pb rid v"
    using assms by (auto simp: log_wf_def)
  show "persisted pb rid (apply_op v (Insert P_Default k b)) = persisted pb rid v"
    unfolding persisted_def fun_eq_iff 1 2 by (rule allI) (rule refl)
qed

section \<open>An instance of the protobuf parameters\<close>

text \<open>A concrete choice of the parameters that satisfies \<open>raft_codec\<close>: an entry is its index,
  term and data, a hard state its term, vote and commit index, a configuration state a byte
  string; all are written with fixed-width integers.\<close>

type_synonym plain_entry = "u64 \<times> u64 \<times> bytes"
type_synonym plain_hs = "u64 \<times> u64 \<times> u64"

definition plain_pb :: "(plain_entry, plain_hs, bytes) raft_pb" where
  "plain_pb =
     \<lparr>en_index = (\<lambda>(i, t, d). i), en_term = (\<lambda>(i, t, d). t), en_data = (\<lambda>(i, t, d). d), en_dummy = (0, 0, []),
      en_parse = (\<lambda>bs. if length bs < 16 then None
        else Some (u64_from_be_bytes (take 8 bs), u64_from_be_bytes (slice 8 16 bs), drop 16 bs)),
      en_write = (\<lambda>(i, t, d). Some (u64_to_be_bytes i @ u64_to_be_bytes t @ d)),
      hs_default = (0, 0, 0),
      hs_parse = (\<lambda>bs. if length bs \<noteq> 24 then None
        else Some (u64_from_be_bytes (take 8 bs), u64_from_be_bytes (slice 8 16 bs), u64_from_be_bytes (drop 16 bs))),
      hs_write = (\<lambda>(t, v, c). Some (u64_to_be_bytes t @ u64_to_be_bytes v @ u64_to_be_bytes c)),
      cs_default = [], cs_parse = Some, cs_write = Some\<rparr>"

interpretation plain: raft_codec plain_pb
  by unfold_locales (auto simp: plain_pb_def slice_def)

section \<open>Properties of the Raft storage\<close>

text \<open>\<open>raft_append\<close> of a contiguous run of entries that leaves no gap to the log and does not
  reach below its first entry succeeds: the entries from the first new index on are replaced,
  earlier ones stay, the log is contiguous again, its last index is the last appended one, and
  every entry of the new log is found by its index.\<close>

lemma raft_append_replaces_suffix:
  assumes "contiguous pb (entries core)" "contiguous pb es"
    and "en_index pb (hd (entries core)) \<le> en_index pb (hd es)"
      "unat (en_index pb (hd es)) \<le> unat (en_index pb (last (entries core))) + 1"
  shows "\<exists>core'. fst (raft_append pb E rid es core s) = ROk () \<and> fst (snd (raft_append pb E rid es core s)) = core' \<and>
    entries core' = takeWhile (\<lambda>e. en_index pb e < en_index pb (hd es)) (entries core) @ es \<and>
    contiguous pb (entries core') \<and> raft_last_index pb core' = ROk (en_index pb (last es)) \<and>
    list_all (\<lambda>e. raft_term pb (en_index pb e) core' = ROk (en_term pb e)) (entries core')"
proof -
  note r = raft_append_log(1) [OF assms, of E rid s] raft_append_log(2) [OF assms]
  let ?n = "unat (en_index pb (hd es)) - unat (en_index pb (hd (entries core)))"
  let ?core = "core\<lparr>entries := take ?n (entries core) @ es\<rparr>"
  have "takeWhile (\<lambda>e. en_index pb e < en_index pb (hd es)) (entries core) = take ?n (entries core)"
    by (rule contiguous_takeWhile [OF assms(1,3)])
  moreover have "raft_last_index pb ?core = ROk (en_index pb (last es))"
    using assms(2) by (simp add: raft_last_index_log contiguous_def)
  moreover have "raft_term pb (en_index pb e) ?core = ROk (en_term pb e)" if "e \<in> set (entries ?core)" for e
    by (rule raft_term_log) (use r(2) that in simp_all)
  ultimately show ?thesis using r by (auto simp: list_all_iff)
qed

definition raft_core0 :: "(plain_entry, plain_hs, bytes) RaftStorageCore" where
  "raft_core0 = \<lparr>hard_state = (0, 0, 0), conf_state = [], entries = [(0, 0, []), (1, 1, [7]), (2, 1, [8])]\<rparr>"

lemma raft_append_replaces_suffix_example:
  "entries (fst (snd (raft_append plain_pb mem_env 1 [(2, 2, [9]), (3, 2, [])] raft_core0 (mem_init [])))) =
     [(0, 0, []), (1, 1, [7]), (2, 2, [9]), (3, 2, [])]"
proof -
  have "contiguous plain_pb (entries raft_core0)" "contiguous plain_pb [(2, 2, [9]), (3, 2, [])]"
    by (simp_all add: contiguous_def plain_pb_def raft_core0_def All_less_Suc)
  from raft_append_replaces_suffix [OF this, of mem_env 1 "mem_init []"] show ?thesis
    by (simp add: plain_pb_def raft_core0_def)
qed

text \<open>C39. Ranges: for bounds inside the log, \<open>raft_entries\<close> returns exactly the entries with the
  indices from \<open>low\<close> up to but excluding \<open>high\<close>, and it does not panic.\<close>

theorem raft_entries_returns_range:
  assumes "contiguous pb (entries core)"
    and "en_index pb (hd (entries core)) \<le> low" "low \<le> high"
    and "unat high \<le> unat (en_index pb (last (entries core))) + 1" "unat (en_index pb (last (entries core))) + 1 < 2 ^ 64"
  shows "\<exists>es. raft_entries pb low high core = ROk es \<and>
    map (unat \<circ> en_index pb) es = [unat low ..< unat high] \<and> set es \<subseteq> set (entries core)"
  by (rule raft_entries_log [OF assms])

theorem raft_entries_returns_range_witness:
  "\<exists>es. raft_entries plain_pb 1 3 raft_core0 = ROk es \<and> map (unat \<circ> en_index plain_pb) es = [1, 2]"
proof -
  have "contiguous plain_pb (entries raft_core0)"
    by (simp add: contiguous_def plain_pb_def raft_core0_def All_less_Suc)
  from raft_entries_returns_range [OF this, of 1 3] show ?thesis
    by (auto simp: plain_pb_def raft_core0_def upt_rec)
qed

text \<open>C29. Durability of the log: when the engine does not fail and holds the log of the group, and
  entries that all serialise are appended right after its last one, then a storage opened on
  the engine afterwards has the whole log with the new entries, except for the artificial
  entry at index 0.\<close>

theorem raft_log_survives_restart:
  assumes "fjall_reliable E view" "raft_codec pb"
    and "persisted pb rid (view s) core" "contiguous pb (entries core)" "contiguous pb es"
    and "unat (en_index pb (hd es)) = unat (en_index pb (last (entries core))) + 1"
    and "list_all (\<lambda>e. en_write pb e \<noteq> None) es"
  shows "entries (fst (raft_storage_new pb E rid (snd (snd (raft_append pb E rid es core s))))) =
      real_entries pb (entries core) @ es \<and>
    persisted pb rid (view (snd (snd (raft_append pb E rid es core s)))) (fst (snd (raft_append pb E rid es core s)))"
proof -
  let ?core = "core\<lparr>entries := entries core @ es\<rparr>" and ?s = "snd (commit_batch E (entry_ops pb rid es) s)"
  have run: "raft_append pb E rid es core s = (ROk (), ?core, ?s)" "contiguous pb (entries ?core)"
    using raft_extends [OF assms(4-6)] by simp_all
  have p: "persisted pb rid (view ?s) ?core"
    unfolding fjall_reliable.commit_batch_view [OF assms(1)] by (rule persisted_extend [OF assms(2-7)])
  have nz: "en_index pb e \<noteq> 0" if "e \<in> set es" for e
    by (rule contiguous_mem [OF assms(5) that]) (use assms(6) in auto)
  then have "real_entries pb (entries ?core) = real_entries pb (entries core) @ es"
    by (auto simp: real_entries_def filter_id_conv)
  moreover have "es \<noteq> []" using assms(5) by (simp add: contiguous_def)
  ultimately show ?thesis using fjall_reliable.raft_restart [OF assms(1) p run(2)] p run(1) by simp
qed

definition raft_core_empty :: "(plain_entry, plain_hs, bytes) RaftStorageCore" where
  "raft_core_empty = \<lparr>hard_state = (0, 0, 0), conf_state = [], entries = [(0, 0, [])]\<rparr>"

lemma raft_core_empty_persisted:
  "persisted plain_pb rid (mem_view (mem_init c)) raft_core_empty" "contiguous plain_pb (entries raft_core_empty)"
  by (auto simp: persisted_def log_wf_def log_of_def mem_init_def mem_view_def raft_core_empty_def plain_pb_def contiguous_def)

theorem raft_log_survives_restart_witness:
  "entries (fst (raft_storage_new plain_pb mem_env 1
     (snd (snd (raft_append plain_pb mem_env 1 [(1, 1, [7]), (2, 1, [8])] raft_core_empty (mem_init [])))))) =
   [(1, 1, [7]), (2, 1, [8])]"
proof -
  have "contiguous plain_pb [(1, 1, [7]), (2, 1, [8])]"
    by (simp add: contiguous_def plain_pb_def All_less_Suc)
  from raft_log_survives_restart [OF mem.fjall_reliable_axioms plain.raft_codec_axioms raft_core_empty_persisted this]
  show ?thesis by (simp add: plain_pb_def raft_core_empty_def real_entries_def)
qed

text \<open>Durability of the states: a hard state or a configuration state that serialises is
  read back by a storage opened afterwards on an engine that does not fail, whatever was
  stored before, and storing it leaves the persisted log as it was.\<close>

lemma raft_state_survives_restart:
  assumes "fjall_reliable E view" "raft_codec pb" "hs_write pb hs \<noteq> None" "cs_write pb cs \<noteq> None"
  shows "initial_state (fst (raft_storage_new pb E rid
      (snd (set_conf_state pb E rid cs core' (snd (set_hard_state pb E rid hs core s)))))) = (hs, cs) \<and>
    persisted pb rid (view (snd (set_conf_state pb E rid cs core' (snd (set_hard_state pb E rid hs core s))))) =
      persisted pb rid (view s)"
proof -
  obtain h c where w: "hs_write pb hs = Some h" "cs_write pb cs = Some c" using assms(3,4) by blast
  note parse = raft_codec.hs_codec [OF assms(2) w(1)] raft_codec.cs_codec [OF assms(2) w(2)]
  let ?s = "snd (set_conf_state pb E rid cs core' (snd (set_hard_state pb E rid hs core s)))"
  have v: "view ?s = apply_op (apply_op (view s) (Insert P_Default (hs_key rid) h)) (Insert P_Default (cs_key rid) c)"
    by (simp only: fjall_reliable.set_conf_state_view [OF assms(1)] fjall_reliable.set_hard_state_view [OF assms(1)] w option.case)
  have "view ?s P_Default (hs_key rid) = Some h" "view ?s P_Default (cs_key rid) = Some c"
    using not_entry_keys(3) [of rid rid] by (simp_all add: v)
  then have "initial_state (fst (raft_storage_new pb E rid ?s)) = (hs, cs)"
    by (rule_tac fjall_reliable.raft_storage_new_total [OF assms(1), of pb rid ?s])
       (simp add: initial_state_def parse_or_def parse)
  moreover have "persisted pb rid (view ?s) = persisted pb rid (view s)"
    unfolding v by (simp only: log_other_key(3) not_entry_keys(1,2) not_False_eq_True)
  ultimately show ?thesis by blast
qed

lemma raft_state_survives_restart_example:
  "initial_state (fst (raft_storage_new plain_pb mem_env 1
      (snd (set_conf_state plain_pb mem_env 1 [1, 2] raft_core_empty
        (snd (set_hard_state plain_pb mem_env 1 (3, 1, 2) raft_core_empty (mem_init []))))))) = ((3, 1, 2), [1, 2])"
  using raft_state_survives_restart [OF mem.fjall_reliable_axioms plain.raft_codec_axioms,
      of "(3, 1, 2)" "[1, 2]" 1 raft_core_empty raft_core_empty "mem_init []"]
  by (simp add: plain_pb_def)

text \<open>Isolation of the groups: whatever one group appends or stores, on an engine that does
  not fail, a storage opened for another group reads the same as before.\<close>

lemma raft_groups_independent:
  assumes "fjall_reliable E view" "rid \<noteq> rid'"
  shows "fst (raft_storage_new pb E rid (snd (snd (raft_append pb E rid' es core s)))) = fst (raft_storage_new pb E rid s) \<and>
    fst (raft_storage_new pb E rid (snd (set_hard_state pb E rid' hs core s))) = fst (raft_storage_new pb E rid s) \<and>
    fst (raft_storage_new pb E rid (snd (set_conf_state pb E rid' cs core s))) = fst (raft_storage_new pb E rid s)"
  by (intro conjI fjall_reliable.raft_storage_new_cong [OF assms(1)] fjall_reliable.raft_groups_frame [OF assms])

lemma raft_groups_independent_example:
  "fst (raft_storage_new plain_pb mem_env 1 (snd (snd (raft_append plain_pb mem_env 11 [(1, 1, [7])] raft_core_empty (mem_init []))))) =
   fst (raft_storage_new plain_pb mem_env 1 (mem_init []))"
  using raft_groups_independent [OF mem.fjall_reliable_axioms, of 1 11 plain_pb "[(1, 1, [7])]" raft_core_empty "mem_init []"]
  by simp

section \<open>Limits of the storage\<close>

text \<open>An append over existing entries replaces them in memory, but the records of a longer
  replaced suffix stay in the engine: after a restart the entry at index 3 is back.\<close>

definition raft_truncated :: "mem_db" where
  "raft_truncated = (case raft_append plain_pb mem_env 1 [(1, 1, [7]), (2, 1, [8]), (3, 1, [9])] raft_core_empty (mem_init []) of
     (_, core, d) \<Rightarrow> snd (snd (raft_append plain_pb mem_env 1 [(2, 2, [5])] core d)))"

lemma raft_stale_suffix_returns:
  "entries (fst (raft_storage_new plain_pb mem_env 1 raft_truncated)) = [(1, 1, [7]), (2, 2, [5]), (3, 1, [9])]"
  by code_simp

text \<open>The artificial entry is not stored, so after a restart the first real entry takes its place
  and the first index moves from 1 to 2.\<close>

lemma raft_first_index_moves:
  "raft_first_index plain_pb raft_core_empty = ROk 1 \<and>
   raft_first_index plain_pb (fst (raft_storage_new plain_pb mem_env 1
     (snd (snd (raft_append plain_pb mem_env 1 [(1, 1, [7])] raft_core_empty (mem_init [])))))) = ROk 2"
  by code_simp

text \<open>A failed write of the entries is not reported.\<close>

lemma raft_append_ignores_failure:
  "fst (raft_append plain_pb flaky_env 1 [(1, 1, [7])] raft_core_empty ((mem_init [])\<lparr>m_faults := [True]\<rparr>)) = ROk () \<and>
   mem_view (snd (snd (raft_append plain_pb flaky_env 1 [(1, 1, [7])] raft_core_empty ((mem_init [])\<lparr>m_faults := [True]\<rparr>))))
     P_Default (entry_key 1 1) = None"
  by code_simp

text \<open>An append beyond the end of the log is accepted, and lookups by index are then wrong.\<close>

lemma raft_append_accepts_gap:
  "case raft_append plain_pb mem_env 1 [(5, 2, [7])] raft_core_empty (mem_init []) of
     (r, core, _) \<Rightarrow> r = ROk () \<and> raft_term plain_pb 5 core = RErr Unavailable \<and> raft_term plain_pb 1 core = ROk 2"
  by code_simp

end
