(* ===== verification/Raft_Node.thy ===== *)
theory Raft_Node
  imports Raft_Durable
begin

text \<open>
  \<^verbatim>\<open>raft-engine/src/node.rs\<close> and \<^verbatim>\<open>raft-engine/src/config.rs\<close>: a member of a Raft group. The
  consensus algorithm is \<^verbatim>\<open>RawNode\<close> of the crate \<^verbatim>\<open>raft\<close>, which is not part of the
  repository, so its calls are the parameter record \<open>raw_node\<close> over a state \<open>'r\<close>; it reads the
  storage it was given, whose in-memory part is therefore an argument of each call. What the
  code relies on is stated of the readies a node hands out: their entries follow the log of the
  node without a gap, and may replace its end (\<open>ready_follows\<close>).
\<close>

section \<open>Configuration\<close>

record RaftConfig =
  rc_node_id :: u64
  rc_heartbeat_tick :: nat
  rc_election_tick :: nat
  rc_tick_interval :: nat
  rc_max_size_per_msg :: u64
  rc_max_inflight_msgs :: nat

definition raft_config_default :: RaftConfig where
  "raft_config_default =
     \<lparr>rc_node_id = 1, rc_heartbeat_tick = 2, rc_election_tick = 10, rc_tick_interval = 100,
      rc_max_size_per_msg = 1024 * 1024, rc_max_inflight_msgs = 256\<rparr>"

text \<open>The fields of the crate's own configuration that the code sets.\<close>

record RawRaftConfig =
  raw_id :: u64
  raw_election_tick :: nat
  raw_heartbeat_tick :: nat
  raw_max_size_per_msg :: u64
  raw_max_inflight_msgs :: nat
  raw_applied :: u64

definition raw_raft_config :: "RaftConfig \<Rightarrow> RawRaftConfig" where
  "raw_raft_config cfg =
     \<lparr>raw_id = rc_node_id cfg, raw_election_tick = rc_election_tick cfg,
      raw_heartbeat_tick = rc_heartbeat_tick cfg, raw_max_size_per_msg = rc_max_size_per_msg cfg,
      raw_max_inflight_msgs = rc_max_inflight_msgs cfg, raw_applied = 0\<rparr>"

section \<open>The consensus library\<close>

text \<open>The code only passes errors of the library on.\<close>

datatype raft_lib_error = Raft_Lib_Error string

record ('e, 'h, 'm) Ready =
  rd_entries :: "'e list"
  rd_hs :: "'h option"
  rd_messages :: "'m list"
  rd_committed_entries :: "'e list"

record ('r, 'e, 'h, 'c, 'm) raw_node =
  rn_new :: "RawRaftConfig \<Rightarrow> ('e, 'h, 'c) RaftStorageCore \<Rightarrow> raft_lib_error + 'r"
  rn_tick :: "('e, 'h, 'c) RaftStorageCore \<Rightarrow> 'r \<Rightarrow> 'r"
  rn_step :: "'m \<Rightarrow> ('e, 'h, 'c) RaftStorageCore \<Rightarrow> 'r \<Rightarrow> (raft_lib_error + unit) \<times> 'r"
  rn_propose :: "bytes \<Rightarrow> bytes \<Rightarrow> ('e, 'h, 'c) RaftStorageCore \<Rightarrow> 'r \<Rightarrow> (raft_lib_error + unit) \<times> 'r"
  rn_has_ready :: "('e, 'h, 'c) RaftStorageCore \<Rightarrow> 'r \<Rightarrow> bool"
  rn_ready :: "('e, 'h, 'c) RaftStorageCore \<Rightarrow> 'r \<Rightarrow> ('e, 'h, 'm) Ready \<times> 'r"
  rn_advance :: "('e, 'h, 'm) Ready \<Rightarrow> ('e, 'h, 'c) RaftStorageCore \<Rightarrow> 'r \<Rightarrow> 'r"

section \<open>The node\<close>

datatype NodeError =
    Node_Raft raft_lib_error
  | Node_RaftStorage raft_error
  | Node_Storage StorageError

datatype 'a node_res = Node_Ok 'a | Node_Err NodeError | Node_Panic

datatype RaftCmd = SplitCmd u64 bytes u64 | TxnCmd bytes

record ('r, 'e, 'h, 'c) MultiRaftNode =
  mr_region_id :: u64
  mr_raw_node :: 'r
  mr_storage :: "('e, 'h, 'c) RaftStorageCore"

definition multi_raft_node_new ::
  "('e, 'h, 'c) raft_pb \<Rightarrow> ('r, 'e, 'h, 'c, 'm) raw_node \<Rightarrow> 's env \<Rightarrow> u64 \<Rightarrow> u64 list \<Rightarrow> RaftConfig \<Rightarrow> 's \<Rightarrow>
     (NodeError + ('r, 'e, 'h, 'c) MultiRaftNode) \<times> 's" where
  "multi_raft_node_new pb R E rid ps cfg s =
     (case raft_storage_new pb E rid s of (storage, s') \<Rightarrow>
        (case rn_new R (raw_raft_config cfg) storage of
           Inl e \<Rightarrow> (Inl (Node_Raft e), s')
         | Inr raw \<Rightarrow> (Inr \<lparr>mr_region_id = rid, mr_raw_node = raw, mr_storage = storage\<rparr>, s')))"

definition mr_tick ::
  "('r, 'e, 'h, 'c, 'm) raw_node \<Rightarrow> ('r, 'e, 'h, 'c) MultiRaftNode \<Rightarrow> ('r, 'e, 'h, 'c) MultiRaftNode" where
  "mr_tick R n = n\<lparr>mr_raw_node := rn_tick R (mr_storage n) (mr_raw_node n)\<rparr>"

definition mr_step ::
  "('r, 'e, 'h, 'c, 'm) raw_node \<Rightarrow> 'm \<Rightarrow> ('r, 'e, 'h, 'c) MultiRaftNode \<Rightarrow>
     (NodeError + unit) \<times> ('r, 'e, 'h, 'c) MultiRaftNode" where
  "mr_step R msg n =
     (case rn_step R msg (mr_storage n) (mr_raw_node n) of
        (Inl e, r) \<Rightarrow> (Inl (Node_Raft e), n\<lparr>mr_raw_node := r\<rparr>)
      | (Inr _, r) \<Rightarrow> (Inr (), n\<lparr>mr_raw_node := r\<rparr>))"

definition mr_propose ::
  "('r, 'e, 'h, 'c, 'm) raw_node \<Rightarrow> bytes \<Rightarrow> ('r, 'e, 'h, 'c) MultiRaftNode \<Rightarrow>
     (NodeError + unit) \<times> ('r, 'e, 'h, 'c) MultiRaftNode" where
  "mr_propose R data n =
     (case rn_propose R [] data (mr_storage n) (mr_raw_node n) of
        (Inl e, r) \<Rightarrow> (Inl (Node_Raft e), n\<lparr>mr_raw_node := r\<rparr>)
      | (Inr _, r) \<Rightarrow> (Inr (), n\<lparr>mr_raw_node := r\<rparr>))"

text \<open>\<^verbatim>\<open>serde_json::to_vec\<close> is a parameter; it may fail, and then the empty payload is proposed.\<close>

definition mr_propose_cmd ::
  "('r, 'e, 'h, 'c, 'm) raw_node \<Rightarrow> (RaftCmd \<Rightarrow> bytes option) \<Rightarrow> RaftCmd \<Rightarrow> ('r, 'e, 'h, 'c) MultiRaftNode \<Rightarrow>
     (NodeError + unit) \<times> ('r, 'e, 'h, 'c) MultiRaftNode" where
  "mr_propose_cmd R to_vec cmd n =
     mr_propose R (case to_vec cmd of Some data \<Rightarrow> data | None \<Rightarrow> []) n"

definition committed_payloads :: "('e, 'h, 'c) raft_pb \<Rightarrow> 'e list \<Rightarrow> bytes list" where
  "committed_payloads pb es = filter (\<lambda>d. d \<noteq> []) (map (en_data pb) es)"

text \<open>Saving a ready: the entries, then the hard state.\<close>

definition save_ready ::
  "('e, 'h, 'c) raft_pb \<Rightarrow> 's env \<Rightarrow> u64 \<Rightarrow> ('e, 'h, 'm) Ready \<Rightarrow> ('e, 'h, 'c) RaftStorageCore \<Rightarrow> 's \<Rightarrow>
     unit raft_res \<times> ('e, 'h, 'c) RaftStorageCore \<times> 's" where
  "save_ready pb E rid ready core s =
     (case (if rd_entries ready \<noteq> [] then raft_append pb E rid (rd_entries ready) core s else (ROk (), core, s)) of
        (ROk _, core1, s1) \<Rightarrow>
          (case rd_hs ready of
             Some hs \<Rightarrow> (case set_hard_state pb E rid hs core1 s1 of (core2, s2) \<Rightarrow> (ROk (), core2, s2))
           | None \<Rightarrow> (ROk (), core1, s1))
      | (r, core1, s1) \<Rightarrow> (r, core1, s1))"

definition process_ready ::
  "('e, 'h, 'c) raft_pb \<Rightarrow> ('r, 'e, 'h, 'c, 'm) raw_node \<Rightarrow> 's env \<Rightarrow> ('r, 'e, 'h, 'c) MultiRaftNode \<Rightarrow> 's \<Rightarrow>
     ('m list \<times> bytes list) node_res \<times> ('r, 'e, 'h, 'c) MultiRaftNode \<times> 's" where
  "process_ready pb R E n s =
     (if \<not> rn_has_ready R (mr_storage n) (mr_raw_node n) then (Node_Ok ([], []), n, s)
      else
        (case rn_ready R (mr_storage n) (mr_raw_node n) of (ready, r1) \<Rightarrow>
         case save_ready pb E (mr_region_id n) ready (mr_storage n) s of
           (ROk _, core, s1) \<Rightarrow>
             (Node_Ok (rd_messages ready, committed_payloads pb (rd_committed_entries ready)),
              n\<lparr>mr_storage := core, mr_raw_node := rn_advance R ready core r1\<rparr>, s1)
         | (RErr e, core, s1) \<Rightarrow> (Node_Err (Node_RaftStorage e), n\<lparr>mr_storage := core, mr_raw_node := r1\<rparr>, s1)
         | (RPanic, core, s1) \<Rightarrow> (Node_Panic, n\<lparr>mr_storage := core, mr_raw_node := r1\<rparr>, s1)))"

section \<open>The documented behaviour of the library\<close>

definition follows_log :: "('e, 'h, 'c) raft_pb \<Rightarrow> ('e, 'h, 'c) RaftStorageCore \<Rightarrow> 'e list \<Rightarrow> bool" where
  "follows_log pb core es \<longleftrightarrow> contiguous pb es \<and> en_index pb (hd (entries core)) \<le> en_index pb (hd es) \<and>
     unat (en_index pb (hd es)) \<le> unat (en_index pb (last (entries core))) + 1"

text \<open>What the storage relies on when it saves a ready: its entries follow the log. For a restart to
  find the log again, they start at a real index, do not end before the log does, and serialise,
  as the hard state does.\<close>

definition ready_follows :: "('e, 'h, 'c) raft_pb \<Rightarrow> ('e, 'h, 'c) RaftStorageCore \<Rightarrow> ('e, 'h, 'm) Ready \<Rightarrow> bool" where
  "ready_follows pb core ready \<longleftrightarrow> (rd_entries ready \<noteq> [] \<longrightarrow> follows_log pb core (rd_entries ready))"

definition ready_recoverable :: "('e, 'h, 'c) raft_pb \<Rightarrow> ('e, 'h, 'c) RaftStorageCore \<Rightarrow> ('e, 'h, 'm) Ready \<Rightarrow> bool" where
  "ready_recoverable pb core ready \<longleftrightarrow> ready_follows pb core ready \<and>
     (rd_entries ready \<noteq> [] \<longrightarrow> en_index pb (hd (rd_entries ready)) \<noteq> 0 \<and>
        en_index pb (last (entries core)) \<le> en_index pb (last (rd_entries ready))) \<and>
     list_all (\<lambda>e. en_write pb e \<noteq> None) (rd_entries ready) \<and>
     (case rd_hs ready of None \<Rightarrow> True | Some hs \<Rightarrow> hs_write pb hs \<noteq> None)"

end
