(* ===== verification/Node_Service.thy ===== *)
theory Node_Service
  imports Coordinator Router Raft_Node
begin

text \<open>
  \<^verbatim>\<open>node/src/server.rs\<close> and \<^verbatim>\<open>node/src/service.rs\<close>: the state of a server node and its gRPC
  handlers. A handler is a function of the request and of the node with its engine, and
  returns a response or a status, together with the node and the engine it leaves. The
  messages are the generated types of \<^verbatim>\<open>proto\<close>, as records. A text made by \<^verbatim>\<open>to_string\<close> or
  \<^verbatim>\<open>format!\<close> is represented by the error it displays.
\<close>

section \<open>The node\<close>

record ServerConfig =
  sc_node_id :: u64
  sc_addr :: string
  sc_data_dir :: string
  sc_raft_tick_ms :: u64
  sc_storage_config :: StorageConfig

definition server_config_default :: ServerConfig where
  "server_config_default =
     \<lparr>sc_node_id = 1, sc_addr = ''127.0.0.1:50051'', sc_data_dir = ''./data/node-1'',
      sc_raft_tick_ms = 100, sc_storage_config = storage_config_default\<rparr>"

record ('r, 'e, 'h, 'c) NodeState =
  ns_config :: ServerConfig
  ns_hlc :: HlcInner
  ns_router :: RegionRouter
  ns_raft_nodes :: "u64 \<Rightarrow> ('r, 'e, 'h, 'c) MultiRaftNode option"
  ns_next_region_id :: u64

definition node_raft_config :: "ServerConfig \<Rightarrow> RaftConfig" where
  "node_raft_config cfg = raft_config_default\<lparr>rc_node_id := sc_node_id cfg\<rparr>"

text \<open>Opening the engine is a call of the engine crate; the result \<open>None\<close> is the panic of
  \<^verbatim>\<open>expect\<close>.\<close>

definition node_state_new ::
  "('e, 'h, 'c) raft_pb \<Rightarrow> ('r, 'e, 'h, 'c, 'm) raw_node \<Rightarrow> 's env \<Rightarrow>
     (string \<Rightarrow> StorageConfig \<Rightarrow> StorageError + 's) \<Rightarrow> ServerConfig \<Rightarrow>
     (StorageError + ('r, 'e, 'h, 'c) NodeState \<times> 's) option" where
  "node_state_new pb R E open_with_config config =
     (case open_with_config (sc_data_dir config) (sc_storage_config config) of
        Inl e \<Rightarrow> Some (Inl e)
      | Inr s \<Rightarrow>
          (case sys_now E s of (now, s1) \<Rightarrow>
           case multi_raft_node_new pb R E 1 [sc_node_id config] (node_raft_config config) s1 of
             (Inl _, s2) \<Rightarrow> None
           | (Inr raft_node, s2) \<Rightarrow>
               Some (Inr
                 (\<lparr>ns_config = config, ns_hlc = hlc_new now,
                   ns_router = insert_region (region_new 1 [] [] [sc_node_id config]) router_new,
                   ns_raft_nodes = [1 \<mapsto> raft_node], ns_next_region_id = 2\<rparr>, s2))))"

definition alloc_region_id :: "('r, 'e, 'h, 'c) NodeState \<Rightarrow> u64 \<times> ('r, 'e, 'h, 'c) NodeState" where
  "alloc_region_id n = (ns_next_region_id n, n\<lparr>ns_next_region_id := ns_next_region_id n + 1\<rparr>)"

definition node_now :: "'s env \<Rightarrow> ('r, 'e, 'h, 'c) NodeState \<times> 's \<Rightarrow> u64 \<times> ('r, 'e, 'h, 'c) NodeState \<times> 's" where
  "node_now E w = (case w of (n, s) \<Rightarrow>
     (case begin_txn E (ns_hlc n) s of ((ts, hlc), s') \<Rightarrow> (ts, n\<lparr>ns_hlc := hlc\<rparr>, s')))"

text \<open>The timestamp of a read: the version asked for, or the clock when it is 0.\<close>

definition read_version ::
  "'s env \<Rightarrow> u64 \<Rightarrow> ('r, 'e, 'h, 'c) NodeState \<times> 's \<Rightarrow> u64 \<times> ('r, 'e, 'h, 'c) NodeState \<times> 's" where
  "read_version E ver w = (if ver = 0 then node_now E w else (ver, w))"

text \<open>A call of the coordinator runs on the engine of the node.\<close>

definition on_engine :: "('s \<Rightarrow> 'a \<times> 's) \<Rightarrow> 'n \<times> 's \<Rightarrow> 'a \<times> 'n \<times> 's" where
  "on_engine f w = (case w of (n, s) \<Rightarrow> (case f s of (r, s') \<Rightarrow> (r, n, s')))"

section \<open>Messages\<close>

text \<open>The batch requests have the fields of their single counterparts and share their records; a
  response with one field is the type of that field.\<close>

datatype Status =
    Status_Internal TxnError
  | Status_Aborted TxnError
  | Status_Out_Of_Range string
  | Status_Unimplemented string

datatype error_text = No_Text | Text string | Region_Missing u64 | Txn_Text TxnError | Router_Text RouterError

record PbMutation =
  pb_op :: "32 word"
  pb_key :: bytes
  pb_value :: bytes

datatype PbKeyError = Pb_Locked bytes bytes u64 u64 | Pb_Conflict bytes u64 u64

record GetRequest =
  gq_key :: bytes
  gq_version :: u64

record GetResponse =
  gr_value :: bytes
  gr_found :: bool
  gr_error :: error_text

record ScanRequest =
  sq_start_key :: bytes
  sq_end_key :: bytes
  sq_limit :: u32
  sq_version :: u64

record KeyValue =
  kv_key :: bytes
  kv_value :: bytes

record ScanResponse =
  sr_kvs :: "KeyValue list"
  sr_error :: error_text

record PrewriteRequest =
  pq_mutations :: "PbMutation list"
  pq_primary_lock :: bytes
  pq_start_ts :: u64
  pq_lock_ttl :: u64

record TxnRequest =
  xr_start_ts :: u64
  xr_commit_ts :: u64
  xr_mutations :: "PbMutation list"
  xr_primary_lock :: bytes

record TxnResponse =
  xp_success :: bool
  xp_error :: error_text

type_synonym BatchPrewriteRequest = PrewriteRequest
type_synonym PrewriteResponse = "PbKeyError list"
type_synonym BatchPrewriteResponse = PrewriteResponse

record CommitRequest =
  cq_keys :: "bytes list"
  cq_start_ts :: u64
  cq_commit_ts :: u64

type_synonym BatchCommitRequest = CommitRequest
type_synonym CommitResponse = "PbKeyError option"
type_synonym BatchCommitResponse = CommitResponse
type_synonym RollbackResponse = "PbKeyError option"

record RollbackRequest =
  rq_keys :: "bytes list"
  rq_start_ts :: u64

record CheckTxnStatusRequest =
  tq_primary_key :: bytes
  tq_lock_ts :: u64
  tq_caller_start_ts :: u64

record CheckTxnStatusResponse =
  tr_lock_ttl :: u64
  tr_commit_ts :: u64
  tr_is_rolled_back :: bool
  tr_error :: error_text

record TxnHeartBeatRequest =
  hq_start_ts :: u64
  hq_primary_lock :: bytes
  hq_ttl :: u64

record TxnHeartBeatResponse =
  hr_success :: bool
  hr_ttl :: u64
  hr_error :: error_text

record AskSplitRequest =
  aq_region_id :: u64
  aq_split_key :: bytes

record AskSplitResponse =
  ar_new_region_id :: u64
  ar_left_start_key :: bytes
  ar_left_end_key :: bytes
  ar_right_start_key :: bytes
  ar_right_end_key :: bytes
  ar_error :: error_text

record RegionStatsRequest =
  xq_region_id :: u64
  xq_key_count :: u64
  xq_bytes_written :: u64

record RegionStatsResponse =
  rr_split_recommended :: bool
  rr_suggested_split_key :: bytes

record RaftMessage =
  rm_region_id :: u64
  rm_from_peer :: u64
  rm_to_peer :: u64
  rm_message_data :: bytes

record RaftResponse =
  ra_accepted :: bool
  ra_error :: error_text

record SnapshotChunk =
  ck_region_id :: u64
  ck_snapshot_index :: u64
  ck_data :: bytes
  ck_is_last :: bool

record SnapshotResponse =
  sn_success :: bool
  sn_error :: error_text

definition decode_mutation :: "PbMutation \<Rightarrow> Mutation" where
  "decode_mutation m = (if pb_op m = 1 then M_Delete (pb_key m) else M_Put (pb_key m) (pb_value m))"

section \<open>The key-value service\<close>

definition kv_get ::
  "'s env \<Rightarrow> GetRequest \<Rightarrow> ('r, 'e, 'h, 'c) NodeState \<times> 's \<Rightarrow>
     (Status + GetResponse) \<times> ('r, 'e, 'h, 'c) NodeState \<times> 's" where
  "kv_get E req w =
     (if (case route_key (ns_router (fst w)) (gq_key req) of
            Inr region \<Rightarrow> \<not> contains_key region (gq_key req)
          | Inl _ \<Rightarrow> False)
      then (Inl (Status_Out_Of_Range ''ErrKeyNotInRegion''), w)
      else
        (case read_version E (gq_version req) w of (read_ts, w1) \<Rightarrow>
         case on_engine (coord_get E (gq_key req) read_ts) w1 of
           (Inr val, w2) \<Rightarrow>
             (Inr \<lparr>gr_value = (case val of Some x \<Rightarrow> x | None \<Rightarrow> []), gr_found = (val \<noteq> None),
                   gr_error = No_Text\<rparr>, w2)
         | (Inl e, w2) \<Rightarrow> (Inl (Status_Internal e), w2)))"

definition kv_scan ::
  "'s env \<Rightarrow> ScanRequest \<Rightarrow> ('r, 'e, 'h, 'c) NodeState \<times> 's \<Rightarrow>
     (Status + ScanResponse) \<times> ('r, 'e, 'h, 'c) NodeState \<times> 's" where
  "kv_scan E req w =
     (case read_version E (sq_version req) w of (read_ts, w1) \<Rightarrow>
      case on_engine (coord_scan E (sq_start_key req) (sq_end_key req) (sq_limit req) read_ts) w1 of
        (Inr kvs, w2) \<Rightarrow>
          (Inr \<lparr>sr_kvs = map (\<lambda>(key, val). \<lparr>kv_key = key, kv_value = val\<rparr>) kvs, sr_error = No_Text\<rparr>, w2)
      | (Inl e, w2) \<Rightarrow> (Inl (Status_Internal e), w2))"

definition kv_execute_txn :: "TxnRequest \<Rightarrow> 'w \<Rightarrow> (Status + TxnResponse) \<times> 'w" where
  "kv_execute_txn req w = (Inl (Status_Unimplemented ''Direct multi-key transaction execution endpoint''), w)"

definition kv_batch_prewrite ::
  "'s env \<Rightarrow> BatchPrewriteRequest \<Rightarrow> ('r, 'e, 'h, 'c) NodeState \<times> 's \<Rightarrow>
     (Status + BatchPrewriteResponse) \<times> ('r, 'e, 'h, 'c) NodeState \<times> 's" where
  "kv_batch_prewrite E req w =
     (case on_engine (batch_prewrite E (pq_start_ts req) (map decode_mutation (pq_mutations req))
             (pq_primary_lock req) (pq_lock_ttl req)) w of
        (Inr _, w1) \<Rightarrow> (Inr [], w1)
      | (Inl e, w1) \<Rightarrow> (Inl (Status_Aborted e), w1))"

definition kv_batch_commit ::
  "'s env \<Rightarrow> BatchCommitRequest \<Rightarrow> ('r, 'e, 'h, 'c) NodeState \<times> 's \<Rightarrow>
     (Status + BatchCommitResponse) \<times> ('r, 'e, 'h, 'c) NodeState \<times> 's" where
  "kv_batch_commit E req w =
     (case on_engine (batch_commit E (cq_start_ts req) (cq_commit_ts req) (cq_keys req)) w of
        (Inr _, w1) \<Rightarrow> (Inr None, w1)
      | (Inl e, w1) \<Rightarrow> (Inl (Status_Internal e), w1))"

definition split_failed :: "error_text \<Rightarrow> AskSplitResponse" where
  "split_failed err =
     \<lparr>ar_new_region_id = 0, ar_left_start_key = [], ar_left_end_key = [], ar_right_start_key = [],
      ar_right_end_key = [], ar_error = err\<rparr>"

text \<open>The key to split at: the one asked for, or the median of the region.\<close>

definition choose_split_key ::
  "'s env \<Rightarrow> bytes \<Rightarrow> Region \<Rightarrow> ('r, 'e, 'h, 'c) NodeState \<times> 's \<Rightarrow> bytes option \<times> ('r, 'e, 'h, 'c) NodeState \<times> 's" where
  "choose_split_key E asked region w =
     (if asked \<noteq> [] then (Some asked, w)
      else
        (case on_engine (find_median_key E (start_key region) (end_key region)) w of
           (Inr (Some k), w1) \<Rightarrow> (Some k, w1)
         | (_, w1) \<Rightarrow> (None, w1)))"

definition kv_ask_split ::
  "('e, 'h, 'c) raft_pb \<Rightarrow> ('r, 'e, 'h, 'c, 'm) raw_node \<Rightarrow> 's env \<Rightarrow> AskSplitRequest \<Rightarrow>
     ('r, 'e, 'h, 'c) NodeState \<times> 's \<Rightarrow> (Status + AskSplitResponse) \<times> ('r, 'e, 'h, 'c) NodeState \<times> 's" where
  "kv_ask_split pb R E req w =
     (case get_region (ns_router (fst w)) (aq_region_id req) of
        None \<Rightarrow> (Inr (split_failed (Region_Missing (aq_region_id req))), w)
      | Some region \<Rightarrow>
          (case choose_split_key E (aq_split_key req) region w of
             (None, w1) \<Rightarrow> (Inr (split_failed (Text ''Could not find split key'')), w1)
           | (Some split_key, n1, s1) \<Rightarrow>
               (case alloc_region_id n1 of (new_region_id, n2) \<Rightarrow>
                case split_region (aq_region_id req) split_key new_region_id (ns_router n2) of
                  (Inl e, router) \<Rightarrow> (Inr (split_failed (Router_Text e)), n2\<lparr>ns_router := router\<rparr>, s1)
                | (Inr (left, right), router) \<Rightarrow>
                    (case multi_raft_node_new pb R E new_region_id [sc_node_id (ns_config n2)]
                            (node_raft_config (ns_config n2)) s1 of
                       (new_node, s2) \<Rightarrow>
                         (Inr \<lparr>ar_new_region_id = new_region_id,
                               ar_left_start_key = start_key left, ar_left_end_key = end_key left,
                               ar_right_start_key = start_key right, ar_right_end_key = end_key right,
                               ar_error = No_Text\<rparr>,
                          n2\<lparr>ns_router := router,
                             ns_raft_nodes := (case new_node of
                                Inr nd \<Rightarrow> (ns_raft_nodes n2)(new_region_id \<mapsto> nd)
                              | Inl _ \<Rightarrow> ns_raft_nodes n2)\<rparr>, s2)))))"

definition kv_report_region_stats ::
  "'s env \<Rightarrow> RegionStatsRequest \<Rightarrow> ('r, 'e, 'h, 'c) NodeState \<times> 's \<Rightarrow>
     (Status + RegionStatsResponse) \<times> ('r, 'e, 'h, 'c) NodeState \<times> 's" where
  "kv_report_region_stats E req w =
     (case get_region (ns_router (fst w)) (xq_region_id req) of
        None \<Rightarrow> (Inr \<lparr>rr_split_recommended = False, rr_suggested_split_key = []\<rparr>, w)
      | Some region \<Rightarrow>
          (case on_engine (calculate_region_stats E (start_key region) (end_key region)) w of
             (r, w1) \<Rightarrow>
               (case (case r of Inr st \<Rightarrow> st | Inl _ \<Rightarrow> (0, 0)) of (key_count, total_bytes) \<Rightarrow>
                  if key_count \<ge> 10000 \<or> total_bytes \<ge> 64 * 1024 * 1024 then
                    (case on_engine (find_median_key E (start_key region) (end_key region)) w1 of
                       (m, w2) \<Rightarrow>
                         (Inr \<lparr>rr_split_recommended = True,
                               rr_suggested_split_key = (case m of Inr (Some k) \<Rightarrow> k | _ \<Rightarrow> [])\<rparr>, w2))
                  else (Inr \<lparr>rr_split_recommended = False, rr_suggested_split_key = []\<rparr>, w1))))"

section \<open>The transaction service\<close>

definition txn_prewrite ::
  "'s env \<Rightarrow> PrewriteRequest \<Rightarrow> ('r, 'e, 'h, 'c) NodeState \<times> 's \<Rightarrow>
     (Status + PrewriteResponse) \<times> ('r, 'e, 'h, 'c) NodeState \<times> 's" where
  "txn_prewrite E req w =
     (case on_engine (prewrite E (pq_start_ts req) (map decode_mutation (pq_mutations req))
             (pq_primary_lock req) (pq_lock_ttl req)) w of
        (Inr _, w1) \<Rightarrow> (Inr [], w1)
      | (Inl e, w1) \<Rightarrow> (Inl (Status_Aborted e), w1))"

definition txn_commit ::
  "'s env \<Rightarrow> CommitRequest \<Rightarrow> ('r, 'e, 'h, 'c) NodeState \<times> 's \<Rightarrow>
     (Status + CommitResponse) \<times> ('r, 'e, 'h, 'c) NodeState \<times> 's" where
  "txn_commit E req w =
     (case on_engine (commit E (cq_start_ts req) (cq_commit_ts req) (cq_keys req)) w of
        (Inr _, w1) \<Rightarrow> (Inr None, w1)
      | (Inl e, w1) \<Rightarrow> (Inl (Status_Internal e), w1))"

definition txn_rollback ::
  "'s env \<Rightarrow> RollbackRequest \<Rightarrow> ('r, 'e, 'h, 'c) NodeState \<times> 's \<Rightarrow>
     (Status + RollbackResponse) \<times> ('r, 'e, 'h, 'c) NodeState \<times> 's" where
  "txn_rollback E req w =
     (case on_engine (rollback E (rq_start_ts req) (rq_keys req)) w of
        (Inr _, w1) \<Rightarrow> (Inr None, w1)
      | (Inl e, w1) \<Rightarrow> (Inl (Status_Internal e), w1))"

fun status_response :: "TxnError + TxnStatus \<Rightarrow> CheckTxnStatusResponse" where
  "status_response (Inr (Locked ttl)) =
     \<lparr>tr_lock_ttl = ttl, tr_commit_ts = 0, tr_is_rolled_back = False, tr_error = No_Text\<rparr>"
| "status_response (Inr (Committed commit_ts)) =
     \<lparr>tr_lock_ttl = 0, tr_commit_ts = commit_ts, tr_is_rolled_back = False, tr_error = No_Text\<rparr>"
| "status_response (Inr RolledBack) =
     \<lparr>tr_lock_ttl = 0, tr_commit_ts = 0, tr_is_rolled_back = True, tr_error = No_Text\<rparr>"
| "status_response (Inl e) =
     \<lparr>tr_lock_ttl = 0, tr_commit_ts = 0, tr_is_rolled_back = False, tr_error = Txn_Text e\<rparr>"

definition txn_check_txn_status ::
  "'s env \<Rightarrow> CheckTxnStatusRequest \<Rightarrow> ('r, 'e, 'h, 'c) NodeState \<times> 's \<Rightarrow>
     (Status + CheckTxnStatusResponse) \<times> ('r, 'e, 'h, 'c) NodeState \<times> 's" where
  "txn_check_txn_status E req w =
     (case on_engine (coord_check_txn_status E (tq_primary_key req) (tq_lock_ts req)) w of
        (r, w1) \<Rightarrow> (Inr (status_response r), w1))"

definition txn_heart_beat ::
  "'s env \<Rightarrow> TxnHeartBeatRequest \<Rightarrow> ('r, 'e, 'h, 'c) NodeState \<times> 's \<Rightarrow>
     (Status + TxnHeartBeatResponse) \<times> ('r, 'e, 'h, 'c) NodeState \<times> 's" where
  "txn_heart_beat E req w =
     (case on_engine (heartbeat E (hq_primary_lock req) (hq_start_ts req) (hq_ttl req)) w of
        (Inr ttl, w1) \<Rightarrow> (Inr \<lparr>hr_success = True, hr_ttl = ttl, hr_error = No_Text\<rparr>, w1)
      | (Inl e, w1) \<Rightarrow> (Inr \<lparr>hr_success = False, hr_ttl = 0, hr_error = Txn_Text e\<rparr>, w1))"

section \<open>The Raft service\<close>

text \<open>Parsing a message is a call of the crate \<^verbatim>\<open>protobuf\<close>, hence a parameter. Messages that do
  not parse or name an unknown region, and errors of the step, are dropped.\<close>

definition raft_deliver ::
  "('r, 'e, 'h, 'c, 'm) raw_node \<Rightarrow> (bytes \<Rightarrow> 'm option) \<Rightarrow> RaftMessage \<Rightarrow>
     ('r, 'e, 'h, 'c) NodeState \<times> 's \<Rightarrow> ('r, 'e, 'h, 'c) NodeState \<times> 's" where
  "raft_deliver R parse_message msg w = (case w of (n, s) \<Rightarrow>
     (case parse_message (rm_message_data msg) of
        None \<Rightarrow> (n, s)
      | Some eraft_msg \<Rightarrow>
          (case ns_raft_nodes n (rm_region_id msg) of
             None \<Rightarrow> (n, s)
           | Some raft_node \<Rightarrow>
               (n\<lparr>ns_raft_nodes := (ns_raft_nodes n)(rm_region_id msg \<mapsto> snd (mr_step R eraft_msg raft_node))\<rparr>, s))))"

definition raft_send_message ::
  "('r, 'e, 'h, 'c, 'm) raw_node \<Rightarrow> (bytes \<Rightarrow> 'm option) \<Rightarrow> RaftMessage \<Rightarrow>
     ('r, 'e, 'h, 'c) NodeState \<times> 's \<Rightarrow> (Status + RaftResponse) \<times> ('r, 'e, 'h, 'c) NodeState \<times> 's" where
  "raft_send_message R parse_message msg w =
     (Inr \<lparr>ra_accepted = True, ra_error = No_Text\<rparr>, raft_deliver R parse_message msg w)"

definition raft_stream_snapshot :: "SnapshotChunk list \<Rightarrow> 'w \<Rightarrow> (Status + SnapshotResponse) \<times> 'w" where
  "raft_stream_snapshot req w = (Inr \<lparr>sn_success = True, sn_error = No_Text\<rparr>, w)"

text \<open>The stream of \<^verbatim>\<open>step\<close> is the list of its items; it ends at the first error.\<close>

fun raft_step_loop ::
  "('r, 'e, 'h, 'c, 'm) raw_node \<Rightarrow> (bytes \<Rightarrow> 'm option) \<Rightarrow> (Status + RaftMessage) list \<Rightarrow>
     ('r, 'e, 'h, 'c) NodeState \<times> 's \<Rightarrow> ('r, 'e, 'h, 'c) NodeState \<times> 's" where
  "raft_step_loop R parse_message [] w = w"
| "raft_step_loop R parse_message (Inl e # stream) w = w"
| "raft_step_loop R parse_message (Inr msg # stream) w =
     raft_step_loop R parse_message stream (raft_deliver R parse_message msg w)"

definition raft_step ::
  "('r, 'e, 'h, 'c, 'm) raw_node \<Rightarrow> (bytes \<Rightarrow> 'm option) \<Rightarrow> (Status + RaftMessage) list \<Rightarrow>
     ('r, 'e, 'h, 'c) NodeState \<times> 's \<Rightarrow> (Status + RaftResponse) \<times> ('r, 'e, 'h, 'c) NodeState \<times> 's" where
  "raft_step R parse_message stream w =
     (Inr \<lparr>ra_accepted = True, ra_error = No_Text\<rparr>, raft_step_loop R parse_message stream w)"

end
