(* ===== verification/Txn_Commit.thy ===== *)
theory Txn_Commit
  imports Coordinator
begin

text \<open>
  What the second phase of a transaction does to the store. Committing, rolling back and
  extending a key have abstract counterparts (\<open>commit_key\<close>, \<open>rollback_key\<close>); the operations
  over a list of keys are folds of them. Under engine failures \<open>commit\<close> and \<open>rollback\<close>
  process a prefix of the keys, the primary key first, and \<open>batch_commit\<close> is atomic.
\<close>

section \<open>Abstract operations\<close>

definition commit_key :: "u64 \<Rightarrow> u64 \<Rightarrow> bytes \<Rightarrow> mvcc \<Rightarrow> mvcc" where
  "commit_key st ct k m =
     (case m_locks m k of
        Some l \<Rightarrow> if lock_start_ts l = st then roll_forward k st ct (lock_op l) m else m
      | None \<Rightarrow> m)"

definition rollback_key :: "u64 \<Rightarrow> bytes \<Rightarrow> mvcc \<Rightarrow> mvcc" where
  "rollback_key st k m =
     (case m_locks m k of
        Some l \<Rightarrow> if lock_start_ts l = st then roll_back k st m else put_write k st (wr_new st Rollback) m
      | None \<Rightarrow> put_write k st (wr_new st Rollback) m)"

definition owns :: "mvcc \<Rightarrow> u64 \<Rightarrow> bytes \<Rightarrow> bool" where
  "owns m st k \<longleftrightarrow> (\<exists>l. m_locks m k = Some l \<and> lock_start_ts l = st)"

fun txn_io :: "TxnError \<Rightarrow> bool" where
  "txn_io (Txn_Storage (Storage_Fjall _)) = True"
| "txn_io (Txn_Fjall _) = True"
| "txn_io _ = False"

lemma commit_key_not_owned: "\<not> owns m st k \<Longrightarrow> commit_key st ct k m = m"
  by (auto simp: commit_key_def owns_def split: option.splits)

lemma commit_key_owned:
  "m_locks m k = Some l \<Longrightarrow> lock_start_ts l = st \<Longrightarrow> commit_key st ct k m = roll_forward k st ct (lock_op l) m"
  by (simp add: commit_key_def)

lemma owns_commit_key: "owns (commit_key st ct k m) st k' \<longleftrightarrow> k' \<noteq> k \<and> owns m st k'"
  by (auto simp: commit_key_def owns_def split: option.splits)

lemma m_vals_commit_key [simp]: "m_vals (commit_key st ct k m) = m_vals m"
  by (simp add: commit_key_def split: option.splits)

lemma m_vals_rollback_key [simp]: "m_vals (rollback_key st k m) = m_vals m"
  by (simp add: rollback_key_def split: option.splits)

section \<open>Runs of the state machine\<close>

text \<open>\<open>runs K v v'\<close>: from a well-formed store that satisfies the invariant, the change from
  \<open>v\<close> to \<open>v'\<close> is a run of the state machine to a well-formed store.\<close>

definition runs :: "bytes set \<Rightarrow> view \<Rightarrow> view \<Rightarrow> bool" where
  "runs K v v' \<longleftrightarrow> (wf_store K v \<and> si_inv (abs_mvcc v) \<longrightarrow>
     wf_store K v' \<and> mvcc_steps (abs_mvcc v) (abs_mvcc v'))"

lemma runs_refl [simp]: "runs K v v"
  by (simp add: runs_def)

lemma runs_trans: "runs K v v' \<Longrightarrow> runs K v' v'' \<Longrightarrow> runs K v v''"
  unfolding runs_def using mvcc_steps_si rtranclp_trans by metis

lemma runs_si:
  "runs K v v' \<Longrightarrow> wf_store K v \<Longrightarrow> si_inv (abs_mvcc v) \<Longrightarrow> wf_store K v' \<and> si_inv (abs_mvcc v')"
  unfolding runs_def using mvcc_steps_si by blast

text \<open>The locks of a well-formed store are for puts and deletes.\<close>

definition data_locks :: "mvcc \<Rightarrow> bool" where
  "data_locks m \<longleftrightarrow> (\<forall>k l. m_locks m k = Some l \<longrightarrow> lock_op l \<noteq> Rollback)"

lemma wf_data_locks: "wf_store K v \<Longrightarrow> data_locks (abs_mvcc v)"
  unfolding data_locks_def using wf_m_locks(3) by (metis valid_lock_def)

lemma commit_key_steps:
  assumes "data_locks m" "st \<le> ct"
  shows "mvcc_steps m (commit_key st ct k m)" "data_locks (commit_key st ct k m)"
proof -
  show "mvcc_steps m (commit_key st ct k m)"
    using assms
    by (auto simp: commit_key_def data_locks_def split: option.splits
        intro!: mvcc_steps_one step_commit)
  show "data_locks (commit_key st ct k m)"
    using assms(1) by (auto simp: commit_key_def data_locks_def split: option.splits)
qed

lemma rollback_key_step: "mvcc_step m (rollback_key st k m)"
  by (auto simp: rollback_key_def split: option.splits intro: step_rollback)

section \<open>The batches of the code\<close>

lemma abs_commit_key_batch:
  assumes "v P_Lock k = Some b" "lock_from_bytes b = Inr l" "lock_start_ts l = st"
  shows "abs_mvcc (apply_batch (commit_key_batch st ct k l) v) = commit_key st ct k (abs_mvcc v)"
proof -
  have "m_locks (abs_mvcc v) k = Some l"
    using assms by (simp add: m_locks_abs typed_def lock_decode_def)
  with assms(3) show ?thesis
    unfolding commit_key_batch_def by (simp only: abs_roll_forward_batch commit_key_owned)
qed

lemma wf_commit_key_batch:
  "wf_store K v \<Longrightarrow> k \<in> K \<Longrightarrow> wf_store K (apply_batch (commit_key_batch st ct k l) v)"
  unfolding commit_key_batch_def by (rule wf_roll_forward_batch)

lemma put_write_set_lock: "put_write k t r (set_lock k' l m) = set_lock k' l (put_write k t r m)"
  by (simp add: put_write_def set_lock_def)

lemma abs_rollback_key_batch:
  "abs_mvcc (apply_batch (rollback_key_batch st k (v P_Lock k)) v) = rollback_key st k (abs_mvcc v)"
proof (cases "owns (abs_mvcc v) st k")
  case True
  then obtain b l where b: "v P_Lock k = Some b" "lock_from_bytes b = Inr l" "lock_start_ts l = st"
      "m_locks (abs_mvcc v) k = Some l"
    unfolding owns_def using m_locks_SomeD by metis
  then have "rollback_key_batch st k (v P_Lock k) =
      [Remove P_Lock k, Insert P_Write (key_encode k st) (wr_to_bytes (wr_new st Rollback))]"
    by (simp add: rollback_key_batch_def)
  then have "abs_mvcc (apply_batch (rollback_key_batch st k (v P_Lock k)) v) =
      put_write k st (wr_new st Rollback) (set_lock k None (abs_mvcc v))"
    by (simp only: apply_batch_Cons apply_batch_Nil abs_insert_write abs_remove_lock)
  with b show ?thesis
    by (simp add: rollback_key_def roll_back_def put_write_set_lock)
next
  case False
  then have "rollback_key_batch st k (v P_Lock k) =
      [Insert P_Write (key_encode k st) (wr_to_bytes (wr_new st Rollback))]"
    by (auto simp: rollback_key_batch_def owns_def m_locks_abs typed_def lock_decode_def
        split: option.splits sum.splits)
  then have "abs_mvcc (apply_batch (rollback_key_batch st k (v P_Lock k)) v) =
      put_write k st (wr_new st Rollback) (abs_mvcc v)"
    by (simp only: apply_batch_Cons apply_batch_Nil abs_insert_write)
  with False show ?thesis
    by (auto simp: rollback_key_def owns_def split: option.splits)
qed

lemma wf_rollback_key_batch:
  assumes "wf_store K v" "k \<in> K"
  shows "wf_store K (apply_batch (rollback_key_batch st k lb) v)"
  unfolding rollback_key_batch_def
  by (auto simp only: apply_batch_append apply_batch_Cons apply_batch_Nil append_Nil
      intro!: wf_insert_write wf_remove_lock assms split: option.split sum.split if_split)

section \<open>Prefixes of a list of keys\<close>

text \<open>The step \<open>f\<close> was applied to a prefix of the keys: to all of them when the result is \<open>Inr\<close>,
  and when it was not, the engine failed.\<close>

definition prefix_done ::
  "(bytes \<Rightarrow> mvcc \<Rightarrow> mvcc) \<Rightarrow> bytes list \<Rightarrow> mvcc \<Rightarrow> TxnError + unit \<Rightarrow> mvcc \<Rightarrow> bool" where
  "prefix_done f keys m r m' \<longleftrightarrow>
     (\<exists>n. m' = fold f (take n keys) m \<and>
        (r = Inr () \<and> n = length keys \<or> (\<exists>e. r = Inl e \<and> txn_io e)))"

lemma prefix_done_Nil: "prefix_done f [] m (Inr ()) m"
  by (simp add: prefix_done_def)

lemma prefix_done_Cons: "prefix_done f keys (f k m) r m' \<Longrightarrow> prefix_done f (k # keys) m r m'"
  unfolding prefix_done_def by (metis fold_simps(2) length_Cons take_Suc_Cons)

lemma prefix_done_io: "txn_io e \<Longrightarrow> prefix_done f keys m (Inl e) m"
  unfolding prefix_done_def by (rule exI [of _ 0]) simp

section \<open>Commit\<close>

lemma m_locks_of_view:
  "v P_Lock k = Some b \<Longrightarrow> lock_from_bytes b = Inr l \<Longrightarrow> m_locks (abs_mvcc v) k = Some l"
  by (simp add: m_locks_abs typed_def lock_decode_def)

context fjall
begin

text \<open>Reading the lock of a key in a well-formed store.\<close>

lemma get_lock_cases:
  assumes "fj_get E P_Lock k s = (g, s1)" "wf_store K (view s)"
  obtains (io) e where "g = Inl e" "view s1 = view s"
    | (unlocked) "g = Inr None" "m_locks (abs_mvcc (view s)) k = None" "view s P_Lock k = None" "view s1 = view s"
    | (locked) b l where "g = Inr (Some b)" "lock_from_bytes b = Inr l"
        "view s P_Lock k = Some b" "m_locks (abs_mvcc (view s)) k = Some l" "view s1 = view s"
proof (cases g)
  case (Inl e)
  with io get_keeps [OF assms(1)] show ?thesis by blast
next
  case (Inr lb)
  then have lb: "lb = view s P_Lock k" using get_value assms(1) by blast
  show ?thesis
  proof (cases lb)
    case None
    with Inr lb unlocked get_keeps [OF assms(1)] show ?thesis by (simp add: wf_lock_None)
  next
    case (Some b)
    with lb obtain l where "lock_from_bytes b = Inr l" "m_locks (abs_mvcc (view s)) k = Some l"
      using wf_lock [OF assms(2)] by metis
    with Inr lb Some locked get_keeps [OF assms(1)] show ?thesis by simp
  qed
qed

text \<open>Committing one key: nothing to do, an engine failure, or the key committed.\<close>

lemma commit_key_run:
  assumes "commit_batch E (commit_key_batch st ct k l) s = (r, s')" "wf_store K (view s)" "k \<in> K"
    and "view s P_Lock k = Some b" "lock_from_bytes b = Inr l" "lock_start_ts l = st"
  obtains (ok) "r = Inr ()" "wf_store K (view s')"
      "abs_mvcc (view s') = commit_key st ct k (abs_mvcc (view s))"
    | (io) e where "r = Inl (Storage_Fjall e)" "view s' = view s"
  using assms(1)
proof (cases rule: commit_batch_cases)
  case ok
  then show ?thesis
    using that(1) abs_commit_key_batch [where v = "view s", OF assms(4-6)]
      wf_commit_key_batch [OF assms(2,3)] by simp
qed (rule that(2))

lemma commit_secondaries_prefix:
  assumes "commit_secondaries E st ct keys s = (r, s')" "wf_store K (view s)" "set keys \<subseteq> K"
  shows "wf_store K (view s') \<and>
    prefix_done (commit_key st ct) keys (abs_mvcc (view s)) r (abs_mvcc (view s'))"
  using assms
proof (induction keys arbitrary: s)
  case (Cons k keys)
  obtain g s1 where g: "fj_get E P_Lock k s = (g, s1)" by force
  let ?m = "abs_mvcc (view s)"
  have skip: ?case if "commit_secondaries E st ct keys s1 = (r, s')" "view s1 = view s" "\<not> owns ?m st k"
    using Cons.IH [OF that(1)] Cons.prems that(2,3)
    by (auto simp: commit_key_not_owned intro: prefix_done_Cons)
  from g Cons.prems(2) show ?case
  proof (cases rule: get_lock_cases)
    case io
    with Cons.prems g show ?thesis by (auto intro: prefix_done_io)
  next
    case unlocked
    with Cons.prems g show ?thesis by (intro skip) (auto simp: owns_def)
  next
    case (locked b l)
    show ?thesis
    proof (cases "lock_start_ts l = st")
      case False
      with Cons.prems g locked show ?thesis by (intro skip) (auto simp: owns_def)
    next
      case True
      obtain c s2 where c: "commit_batch E (commit_key_batch st ct k l) s1 = (c, s2)" by force
      have "wf_store K (view s1)" "k \<in> K" "view s1 P_Lock k = Some b"
        using Cons.prems locked by simp_all
      from c this locked(2) True show ?thesis
      proof (cases rule: commit_key_run)
        case ok
        with Cons.prems g locked True c have "commit_secondaries E st ct keys s2 = (r, s')" by simp
        from Cons.IH [OF this ok(2)] Cons.prems(3) ok(3) locked(5) show ?thesis
          by (auto intro: prefix_done_Cons)
      next
        case io
        with Cons.prems g locked True c show ?thesis by (auto intro: prefix_done_io)
      qed
    qed
  qed
qed (auto intro: prefix_done_Nil)

lemma commit_prefix:
  assumes run: "commit E st ct (pk # keys) s = (r, s')" and wf: "wf_store K (view s)"
    and keys: "pk \<in> K" "set keys \<subseteq> K"
  shows "wf_store K (view s') \<and>
    (if owns (abs_mvcc (view s)) st pk
     then prefix_done (commit_key st ct) (pk # keys) (abs_mvcc (view s)) r (abs_mvcc (view s'))
     else view s' = view s \<and> (r = Inl TransactionRolledBack \<or> (\<exists>e. r = Inl e \<and> txn_io e)))"
proof -
  obtain g s1 where g: "fj_get E P_Lock pk s = (g, s1)" by force
  from g wf show ?thesis
  proof (cases rule: get_lock_cases)
    case io
    with run g wf show ?thesis by (auto intro: prefix_done_io)
  next
    case unlocked
    with run g wf show ?thesis by (auto simp: owns_def)
  next
    case (locked b l)
    show ?thesis
    proof (cases "lock_start_ts l = st")
      case False
      with run g locked wf show ?thesis by (auto simp: owns_def)
    next
      case True
      then have own: "owns (abs_mvcc (view s)) st pk" using locked(4) by (auto simp: owns_def)
      obtain c s2 where c: "commit_batch E (commit_key_batch st ct pk l) s1 = (c, s2)" by force
      have "wf_store K (view s1)" "view s1 P_Lock pk = Some b"
        using wf locked by simp_all
      from c this(1) keys(1) this(2) locked(2) True show ?thesis
      proof (cases rule: commit_key_run)
        case ok
        with run g locked True c have "commit_secondaries E st ct keys s2 = (r, s')" by simp
        from commit_secondaries_prefix [OF this ok(2) keys(2)] ok(3) locked(5) own show ?thesis
          by (auto intro: prefix_done_Cons)
      next
        case io
        with run g locked True c own wf show ?thesis by (auto intro: prefix_done_io)
      qed
    qed
  qed
qed

lemma rollback_prefix:
  assumes "rollback E st keys s = (r, s')" "wf_store K (view s)" "set keys \<subseteq> K"
  shows "wf_store K (view s') \<and>
    prefix_done (rollback_key st) keys (abs_mvcc (view s)) r (abs_mvcc (view s'))"
  using assms
proof (induction keys arbitrary: s)
  case (Cons k keys)
  obtain g s1 where g: "fj_get E P_Lock k s = (g, s1)" by force
  note v1 = get_keeps [OF g]
  show ?case
  proof (cases g)
    case (Inl e)
    with Cons.prems g v1 show ?thesis by (auto intro: prefix_done_io)
  next
    case (Inr lb)
    then have lb: "lb = view s P_Lock k" using get_value g by blast
    obtain c s2 where c: "commit_batch E (rollback_key_batch st k lb) s1 = (c, s2)" by force
    from c show ?thesis
    proof (cases rule: commit_batch_cases)
      case ok
      with Cons.prems g Inr c have run: "rollback E st keys s2 = (r, s')" by simp
      have wf2: "wf_store K (view s2)"
        using ok(2) v1 Cons.prems wf_rollback_key_batch by simp
      have "abs_mvcc (view s2) = rollback_key st k (abs_mvcc (view s))"
        using ok(2) v1 lb abs_rollback_key_batch by simp
      with Cons.IH [OF run wf2] Cons.prems(3) show ?thesis
        by (auto intro: prefix_done_Cons)
    next
      case io
      with Cons.prems g Inr c v1 show ?thesis by (auto intro: prefix_done_io)
    qed
  qed
qed (auto intro: prefix_done_Nil)

lemma heartbeat_run:
  assumes run: "heartbeat E pk st ttl s = (r, s')" and wf: "wf_store K (view s)"
  shows "wf_store K (view s') \<and>
    (case m_locks (abs_mvcc (view s)) pk of
       Some l \<Rightarrow>
         if lock_start_ts l = st
         then r = Inr ttl \<and> abs_mvcc (view s') = set_lock pk (Some (l\<lparr>lock_ttl := ttl\<rparr>)) (abs_mvcc (view s)) \<or>
           (\<exists>e. r = Inl e \<and> txn_io e \<and> view s' = view s)
         else view s' = view s \<and> (r = Inl TransactionRolledBack \<or> (\<exists>e. r = Inl e \<and> txn_io e))
     | None \<Rightarrow> view s' = view s \<and> (r = Inl TransactionRolledBack \<or> (\<exists>e. r = Inl e \<and> txn_io e)))"
proof -
  obtain g s1 where g: "fj_get E P_Lock pk s = (g, s1)" by force
  from g wf show ?thesis
  proof (cases rule: get_lock_cases)
    case (locked b l)
    let ?l = "l\<lparr>lock_ttl := ttl\<rparr>"
    note l = wf_m_locks [OF wf locked(4)]
    show ?thesis
    proof (cases "lock_start_ts l = st")
      case True
      obtain c s2 where c: "commit_batch E [Insert P_Lock pk (lock_to_bytes ?l)] s1 = (c, s2)" by force
      with run g locked True have rs: "s' = s2" "r = (case c of Inl e \<Rightarrow> Inl (Txn_Storage e) | Inr _ \<Rightarrow> Inr ttl)"
        by (auto simp: heartbeat_def split: sum.splits)
      from c show ?thesis
      proof (cases rule: commit_batch_cases)
        case ok
        have v: "valid_lock ?l" using l(3) by (simp add: valid_lock_def)
        have "view s' = apply_op (view s) (Insert P_Lock pk (lock_to_bytes ?l))"
          using ok(2) locked(5) rs by (simp only: apply_batch_Cons apply_batch_Nil)
        with wf_insert_lock [OF wf l(1) _ v] l(2) abs_insert_lock [OF v]
        have "wf_store K (view s')" "abs_mvcc (view s') = set_lock pk (Some ?l) (abs_mvcc (view s))"
          by (simp_all del: apply_op.simps)
        with ok rs locked True show ?thesis by simp
      next
        case io
        with rs locked True wf show ?thesis by auto
      qed
    qed (use run g locked wf in \<open>auto simp: heartbeat_def\<close>)
  qed (use run g wf in \<open>auto simp: heartbeat_def split: option.splits\<close>)
qed

end

section \<open>Batch commit\<close>

text \<open>The loop reads all locks before anything is written; the batch it builds has the effect
  of committing the keys one after the other.\<close>

definition staged :: "u64 \<Rightarrow> u64 \<Rightarrow> bytes list \<Rightarrow> mvcc \<Rightarrow> batch" where
  "staged st ct keys m =
     concat (map (\<lambda>k. case m_locks m k of
        Some l \<Rightarrow> if lock_start_ts l = st then commit_key_batch st ct k l else []
      | None \<Rightarrow> []) keys)"

text \<open>\<open>m\<close> is \<open>m0\<close> with some of the keys of the transaction committed.\<close>

definition partly :: "u64 \<Rightarrow> u64 \<Rightarrow> mvcc \<Rightarrow> mvcc \<Rightarrow> bool" where
  "partly st ct m0 m \<longleftrightarrow> (\<forall>k. m_locks m k = m_locks m0 k \<or>
     (\<exists>l. m_locks m0 k = Some l \<and> lock_start_ts l = st \<and> m_locks m k = None \<and>
        m_writes m (k, ct) = Some (wr_new st (lock_op l))))"

lemma roll_forward_again:
  "m_locks m k = None \<Longrightarrow> m_writes m (k, ct) = Some (wr_new st op) \<Longrightarrow> roll_forward k st ct op m = m"
  by (cases m) (auto simp: roll_forward_def set_lock_def put_write_def)

lemma partly_commit_key:
  assumes "partly st ct m0 m" "m_locks m0 k = Some l" "lock_start_ts l = st"
  shows "roll_forward k st ct (lock_op l) m = commit_key st ct k m" "partly st ct m0 (commit_key st ct k m)"
proof -
  from assms have "m_locks m k = Some l \<or>
      m_locks m k = None \<and> m_writes m (k, ct) = Some (wr_new st (lock_op l))"
    unfolding partly_def by (metis option.inject)
  then show rf: "roll_forward k st ct (lock_op l) m = commit_key st ct k m"
    using assms(3) by (auto simp: commit_key_def roll_forward_again)
  show "partly st ct m0 (commit_key st ct k m)"
    using assms unfolding rf [symmetric] partly_def by auto
qed

lemma partly_not_owned:
  "partly st ct m0 m \<Longrightarrow> \<not> owns m0 st k \<Longrightarrow> commit_key st ct k m = m"
  unfolding partly_def by (metis commit_key_not_owned owns_def)

lemma apply_staged:
  assumes "partly st ct m0 (abs_mvcc v)" "wf_store K v" "set keys \<subseteq> K"
  shows "wf_store K (apply_batch (staged st ct keys m0) v) \<and>
    abs_mvcc (apply_batch (staged st ct keys m0) v) = fold (commit_key st ct) keys (abs_mvcc v)"
  using assms
proof (induction keys arbitrary: v)
  case (Cons k keys)
  show ?case
  proof (cases "owns m0 st k")
    case True
    then obtain l where l: "m_locks m0 k = Some l" "lock_start_ts l = st" by (auto simp: owns_def)
    let ?v = "apply_batch (commit_key_batch st ct k l) v"
    have v: "abs_mvcc ?v = commit_key st ct k (abs_mvcc v)"
      using partly_commit_key(1) [OF Cons.prems(1) l]
      unfolding commit_key_batch_def by (simp only: abs_roll_forward_batch)
    have "wf_store K ?v" "partly st ct m0 (abs_mvcc ?v)"
      using Cons.prems partly_commit_key(2) [OF _ l] wf_commit_key_batch by (auto simp: v)
    from Cons.IH [OF this(2,1)] Cons.prems(3) l v show ?thesis
      by (simp add: staged_def)
  next
    case False
    then have "staged st ct (k # keys) m0 = staged st ct keys m0"
      by (auto simp: staged_def owns_def split: option.splits)
    with Cons False partly_not_owned show ?thesis by simp
  qed
qed (simp add: staged_def)

context fjall
begin

lemma batch_commit_loop_staged:
  assumes "batch_commit_loop E st ct keys b s = (r, s')" "wf_store K (view s)"
  shows "view s' = view s \<and>
    (r = Inr (b @ staged st ct keys (abs_mvcc (view s))) \<or> (\<exists>e. r = Inl e \<and> txn_io e))"
  using assms
proof (induction keys arbitrary: s b)
  case (Cons k keys)
  obtain g s1 where g: "fj_get E P_Lock k s = (g, s1)" by force
  from g Cons.prems(2) show ?case
  proof (cases rule: get_lock_cases)
    case io
    with Cons.prems g show ?thesis by auto
  next
    case unlocked
    with Cons.prems g have "batch_commit_loop E st ct keys b s1 = (r, s')" by simp
    from Cons.IH [OF this] unlocked Cons.prems(2) show ?thesis by (simp add: staged_def)
  next
    case (locked x l)
    with Cons.prems g have "batch_commit_loop E st ct keys
        (if lock_start_ts l = st then b @ commit_key_batch st ct k l else b) s1 = (r, s')" by simp
    from Cons.IH [OF this] locked Cons.prems(2) show ?thesis by (auto simp: staged_def)
  qed
qed (auto simp: staged_def)

lemma batch_commit_atomic:
  assumes run: "batch_commit E st ct keys s = (r, s')" and wf: "wf_store K (view s)" and keys: "set keys \<subseteq> K"
  shows "wf_store K (view s') \<and>
    (r = Inr () \<and> abs_mvcc (view s') = fold (commit_key st ct) keys (abs_mvcc (view s)) \<or>
     (\<exists>e. r = Inl e \<and> txn_io e \<and> view s' = view s))"
proof (cases "keys = []")
  case True
  with run wf show ?thesis by (auto simp: batch_commit_def)
next
  case False
  let ?m = "abs_mvcc (view s)"
  obtain l s1 where l: "batch_commit_loop E st ct keys [] s = (l, s1)" by force
  from batch_commit_loop_staged [OF l wf] have v1: "view s1 = view s" by simp
  from batch_commit_loop_staged [OF l wf]
  consider (io) e where "l = Inl e" "txn_io e" | (staged) "l = Inr (staged st ct keys ?m)" by auto
  then show ?thesis
  proof cases
    case io
    with run l v1 wf False show ?thesis by (auto simp: batch_commit_def)
  next
    case staged
    obtain c s2 where c: "commit_batch E (staged st ct keys ?m) s1 = (c, s2)" by force
    have p: "partly st ct ?m (abs_mvcc (view s))" by (simp add: partly_def)
    from c show ?thesis
    proof (cases rule: commit_batch_cases)
      case ok
      with run l c staged v1 False apply_staged [OF p wf keys] show ?thesis
        by (simp add: batch_commit_def)
    next
      case io
      with run l c staged v1 False wf show ?thesis by (auto simp: batch_commit_def)
    qed
  qed
qed

end

section \<open>The operations as runs\<close>

lemma prefix_steps:
  assumes "prefix_done f keys m r m'" "P m"
    and "\<And>k m. P m \<Longrightarrow> mvcc_steps m (f k m)" "\<And>k m. P m \<Longrightarrow> P (f k m)"
  shows "mvcc_steps m m'"
proof -
  have "mvcc_steps m (fold f ks m)" for ks
    using assms(2)
  proof (induction ks arbitrary: m)
    case (Cons k ks)
    from rtranclp_trans [OF assms(3) [OF Cons.prems] Cons.IH [OF assms(4) [OF Cons.prems]]] show ?case
      by simp
  qed simp
  with assms(1) show ?thesis by (auto simp: prefix_done_def)
qed

lemma commit_prefix_steps:
  "prefix_done (commit_key st ct) keys m r m' \<Longrightarrow> data_locks m \<Longrightarrow> st \<le> ct \<Longrightarrow> mvcc_steps m m'"
  by (erule prefix_steps [where P = data_locks]) (auto intro: commit_key_steps)

lemma rollback_prefix_steps: "prefix_done (rollback_key st) keys m r m' \<Longrightarrow> mvcc_steps m m'"
  by (erule prefix_steps [where P = "\<lambda>_. True"]) (auto intro: mvcc_steps_one rollback_key_step)

lemma prefix_done_all: "m' = fold f keys m \<Longrightarrow> prefix_done f keys m (Inr ()) m'"
  unfolding prefix_done_def by (rule exI [of _ "length keys"]) simp

context fjall
begin

lemma commit_runs:
  assumes "commit E st ct keys s = (r, s')" "set keys \<subseteq> K" "st \<le> ct"
  shows "runs K (view s) (view s')"
proof (cases keys)
  case (Cons pk ks)
  show ?thesis
    unfolding runs_def
  proof (intro impI, elim conjE)
    assume wf: "wf_store K (view s)"
    with commit_prefix [of st ct pk ks s r s' K] assms Cons
    have "wf_store K (view s') \<and> (if owns (abs_mvcc (view s)) st pk
       then prefix_done (commit_key st ct) (pk # ks) (abs_mvcc (view s)) r (abs_mvcc (view s'))
       else view s' = view s)"
      by (auto split: if_splits)
    then show "wf_store K (view s') \<and> mvcc_steps (abs_mvcc (view s)) (abs_mvcc (view s'))"
      using commit_prefix_steps [OF _ wf_data_locks [OF wf] assms(3)] by (auto split: if_splits)
  qed
qed (use assms in simp)

lemma rollback_runs:
  "rollback E st keys s = (r, s') \<Longrightarrow> set keys \<subseteq> K \<Longrightarrow> runs K (view s) (view s')"
  unfolding runs_def using rollback_prefix rollback_prefix_steps by blast

lemma heartbeat_runs:
  assumes "heartbeat E pk st ttl s = (r, s')"
  shows "runs K (view s) (view s')"
  unfolding runs_def
proof (intro impI, elim conjE)
  assume wf: "wf_store K (view s)"
  from heartbeat_run [OF assms wf]
  show "wf_store K (view s') \<and> mvcc_steps (abs_mvcc (view s)) (abs_mvcc (view s'))"
    by (auto split: option.splits if_splits intro: mvcc_steps_one [OF step_extend])
qed

lemma batch_commit_runs:
  assumes "batch_commit E st ct keys s = (r, s')" "set keys \<subseteq> K" "st \<le> ct"
  shows "runs K (view s) (view s')"
  unfolding runs_def
proof (intro impI, elim conjE)
  assume wf: "wf_store K (view s)"
  from batch_commit_atomic [OF assms(1) wf assms(2)]
  show "wf_store K (view s') \<and> mvcc_steps (abs_mvcc (view s)) (abs_mvcc (view s'))"
    using commit_prefix_steps [OF prefix_done_all wf_data_locks [OF wf] assms(3)] by auto
qed

end

section \<open>Without failures\<close>

context fjall_reliable
begin

lemma commit_secondaries_no_io: "commit_secondaries E st ct keys s = (Inl e, s') \<Longrightarrow> \<not> txn_io e"
  by (induction keys arbitrary: s)
     (auto simp: never_fails split: prod.splits sum.splits option.splits if_splits)

lemma commit_no_io: "commit E st ct keys s = (Inl e, s') \<Longrightarrow> \<not> txn_io e"
  by (cases keys)
     (auto simp: never_fails dest: commit_secondaries_no_io
        split: prod.splits sum.splits option.splits if_splits)

lemma commit_correct:
  assumes "wf_store K (view s)" "pk \<in> K" "set keys \<subseteq> K"
  shows "if owns (abs_mvcc (view s)) st pk
    then fst (commit E st ct (pk # keys) s) = Inr () \<and>
      abs_mvcc (view (snd (commit E st ct (pk # keys) s))) = fold (commit_key st ct) (pk # keys) (abs_mvcc (view s))
    else fst (commit E st ct (pk # keys) s) = Inl TransactionRolledBack \<and>
      view (snd (commit E st ct (pk # keys) s)) = view s"
proof -
  obtain r s' where run: "commit E st ct (pk # keys) s = (r, s')" by force
  from commit_prefix [OF run assms] commit_no_io [of st ct "pk # keys" s] show ?thesis
    by (auto simp only: run fst_conv snd_conv prefix_done_def take_all order_refl split: if_splits)
qed

lemma rollback_no_io: "rollback E st keys s = (Inl e, s') \<Longrightarrow> \<not> txn_io e"
  by (induction keys arbitrary: s) (auto simp: never_fails split: prod.splits sum.splits)

lemma rollback_correct:
  assumes "wf_store K (view s)" "set keys \<subseteq> K"
  shows "fst (rollback E st keys s) = Inr ()"
    and "abs_mvcc (view (snd (rollback E st keys s))) = fold (rollback_key st) keys (abs_mvcc (view s))"
proof -
  obtain r s' where run: "rollback E st keys s = (r, s')" by force
  from rollback_prefix [OF run assms] rollback_no_io [of st keys s]
  show "fst (rollback E st keys s) = Inr ()"
    and "abs_mvcc (view (snd (rollback E st keys s))) = fold (rollback_key st) keys (abs_mvcc (view s))"
    by (auto simp: run prefix_done_def)
qed

lemma batch_commit_loop_no_io: "batch_commit_loop E st ct keys b s = (Inl e, s') \<Longrightarrow> \<not> txn_io e"
  by (induction keys arbitrary: s b)
     (auto simp: never_fails split: prod.splits sum.splits option.splits)

lemma batch_commit_correct:
  assumes "wf_store K (view s)" "set keys \<subseteq> K"
  shows "fst (batch_commit E st ct keys s) = Inr ()"
    and "abs_mvcc (view (snd (batch_commit E st ct keys s))) = fold (commit_key st ct) keys (abs_mvcc (view s))"
proof -
  obtain r s' where run: "batch_commit E st ct keys s = (r, s')" by force
  have "\<not> (\<exists>e. r = Inl e \<and> txn_io e)"
    using run by (auto simp: batch_commit_def never_fails dest: batch_commit_loop_no_io
        split: prod.splits sum.splits if_splits)
  with batch_commit_atomic [OF run assms]
  show "fst (batch_commit E st ct keys s) = Inr ()"
    and "abs_mvcc (view (snd (batch_commit E st ct keys s))) = fold (commit_key st ct) keys (abs_mvcc (view s))"
    by (auto simp: run)
qed

lemma heartbeat_correct:
  assumes "wf_store K (view s)"
  shows "if owns (abs_mvcc (view s)) st pk
    then fst (heartbeat E pk st ttl s) = Inr ttl \<and>
      abs_mvcc (view (snd (heartbeat E pk st ttl s))) =
        set_lock pk (map_option (lock_ttl_update (\<lambda>_. ttl)) (m_locks (abs_mvcc (view s)) pk)) (abs_mvcc (view s))
    else fst (heartbeat E pk st ttl s) = Inl TransactionRolledBack \<and>
      view (snd (heartbeat E pk st ttl s)) = view s"
proof -
  obtain r s' where run: "heartbeat E pk st ttl s = (r, s')" by force
  have "\<not> (\<exists>e. r = Inl e \<and> txn_io e)"
    using run by (auto simp: heartbeat_def never_fails
        split: prod.splits sum.splits option.splits if_splits)
  with heartbeat_run [OF run assms] show ?thesis
    by (auto simp: run owns_def split: option.splits if_splits)
qed

end

end
