(* ===== verification/Txn_Prewrite.thy ===== *)
theory Txn_Prewrite
  imports Txn_Commit
begin

text \<open>
  The first phase of a transaction. A key passes the conflict check when nothing is
  committed on it at the start timestamp or later and the transaction has not been rolled
  back there; a lock of another transaction is then resolved. The check is not repeated
  after the resolution, so a key is free for the transaction only if no pending commit of
  another one is at or after its start (\<open>settled\<close>). Under that condition \<open>prewrite\<close> and
  \<open>batch_prewrite\<close> are runs of the state machine, and when they succeed the transaction owns
  all keys and its values are stored.
\<close>

section \<open>The conflict check\<close>

text \<open>Nothing on the key stops a transaction that started at \<open>st\<close>.\<close>

definition passes :: "mvcc \<Rightarrow> bytes \<Rightarrow> u64 \<Rightarrow> bool" where
  "passes m k st \<longleftrightarrow> (\<forall>t r. committed m k t r \<longrightarrow> t < st) \<and> \<not> rolled_back m k st"

lemma free_for_passes: "free_for st k m \<longleftrightarrow> passes m k st \<and> (\<forall>l. m_locks m k = Some l \<longrightarrow> lock_start_ts l = st)"
  by (auto simp: free_for_def passes_def)

text \<open>The verdict of the check on the records of the key, newest first.\<close>

fun conflict_of :: "bytes \<Rightarrow> u64 \<Rightarrow> (u64 \<times> WriteRecord) list \<Rightarrow> TxnError + unit" where
  "conflict_of k st [] = Inr ()"
| "conflict_of k st ((t, r) # rs) =
     (if wr_start_ts r = st \<and> wr_op r = Rollback then Inl TransactionRolledBack
      else if st \<le> t then Inl (WriteConflict k st) else conflict_of k st rs)"

lemma conflict_scan_of:
  assumes "yields its kvs" "decodes kvs"
  shows "(\<exists>e. conflict_scan k st its = Inl (Txn_Fjall e)) \<or>
    conflict_scan k st its = conflict_of k st (records k kvs)"
  using assms
proof (induction its arbitrary: kvs)
  case (Cons it its)
  show ?case
  proof (cases it)
    case (Inr kv)
    with Cons.prems obtain kvs' where kvs: "kvs = kv # kvs'" "yields its kvs'"
      by (cases kvs) auto
    from Cons.prems(2) kvs obtain ek b k' t r where
      d: "kv = (ek, b)" "key_decode ek = Inr (k', t)" "wr_from_bytes b = Some r" "decodes kvs'"
      by (auto elim: decodes_ConsE)
    with Cons.IH [OF kvs(2) d(4)] kvs Inr show ?thesis by auto
  qed simp
qed simp

lemma conflict_of_Inr:
  "conflict_of k st rs = Inr () \<longleftrightarrow> (\<forall>(t, r) \<in> set rs. t < st \<and> \<not> (wr_start_ts r = st \<and> wr_op r = Rollback))"
  by (induction k st rs rule: conflict_of.induct) auto

lemma conflict_of_Inl:
  "conflict_of k st rs = Inl e \<Longrightarrow>
     e = TransactionRolledBack \<and> (\<exists>(t, r) \<in> set rs. wr_start_ts r = st \<and> wr_op r = Rollback) \<or>
     e = WriteConflict k st \<and> (\<exists>(t, r) \<in> set rs. st \<le> t)"
  by (induction k st rs rule: conflict_of.induct) (auto split: if_splits)

context fjall
begin

lemma check_write_conflict_cases:
  assumes run: "check_write_conflict E k st s = (r, s')"
    and K: "good_keys K" "k \<in> K" "wf_store K (view s)"
  obtains (io) e where "r = Inl e" "txn_io e" "view s' = view s"
    | (rolled) "r = Inl TransactionRolledBack" "rolled_back (abs_mvcc (view s)) k st" "view s' = view s"
    | (conflict) t w where "r = Inl (WriteConflict k st)" "m_writes (abs_mvcc (view s)) (k, t) = Some w"
        "st \<le> t" "view s' = view s"
    | (ok) "r = Inr ()" "\<forall>t w. m_writes (abs_mvcc (view s)) (k, t) = Some w \<longrightarrow> t < st"
        "\<not> rolled_back (abs_mvcc (view s)) k st" "view s' = view s"
proof -
  obtain its s1 where rng: "fj_range_from E P_Write (key_encode k (-1)) s = (its, s1)" by force
  obtain kvs where kvs: "yields its kvs" "scan_of (view s P_Write) (key_encode k (-1)) kvs"
    using range_yields [OF rng] by blast
  have v: "view s' = view s" "r = conflict_scan k st its"
    using run rng range_keeps [OF rng] by (auto simp: check_write_conflict_def)
  note rs = records_scan_all [OF K kvs(2)]
  from conflict_scan_of [OF kvs(1) scan_of_decodes [OF K(3) kvs(2)], of k st]
  consider (io') e where "r = Inl (Txn_Fjall e)" | (scan) "r = conflict_of k st (records k kvs)"
    by (auto simp: v)
  then show ?thesis
  proof cases
    case io'
    with v(1) show ?thesis by (intro io [of "Txn_Fjall e"]) simp_all
  next
    case scan
    show ?thesis
    proof (cases r)
      case (Inl e)
      from conflict_of_Inl [OF scan [unfolded Inl, symmetric]] rs Inl v rolled conflict show ?thesis
        by (auto simp: rolled_back_def)
    next
      case (Inr u)
      with scan have "conflict_of k st (records k kvs) = Inr ()" by simp
      with rs Inr v ok show ?thesis
        unfolding conflict_of_Inr by (auto simp: rolled_back_def)
    qed
  qed
qed

end

section \<open>Resolution keeps keys free\<close>

text \<open>Resolving a lock of another transaction leaves the locks of \<open>st\<close> alone.\<close>

lemma status_spec_locks:
  "status_spec now pk s m status m' \<Longrightarrow> m_locks m' k = m_locks m k \<or>
     (\<exists>l. m_locks m k = Some l \<and> lock_start_ts l = s \<and> m_locks m' k = None)"
  by (induction rule: status_spec.induct) auto

lemma resolve_spec_owned:
  assumes "resolve_spec now now' k l m r m'" "m_locks m k = Some l" "lock_start_ts l \<noteq> st"
    and "m_locks m k' = Some l'" "lock_start_ts l' = st"
  shows "m_locks m' k' = Some l'"
  using assms by (auto elim!: resolve_spec.cases dest!: status_spec_locks [where k = k'])

lemma status_spec_vals: "status_spec now pk s m status m' \<Longrightarrow> m_vals m' = m_vals m"
  by (induction rule: status_spec.induct) auto

lemma resolve_spec_vals: "resolve_spec now now' k l m r m' \<Longrightarrow> m_vals m' = m_vals m"
  by (induction rule: resolve_spec.induct) (auto dest: status_spec_vals)

lemma passes_roll_back: "passes m k st \<Longrightarrow> s \<noteq> st \<Longrightarrow> passes (roll_back k' s m) k st"
  by (auto simp: passes_def committed_roll_back rolled_back_def split: if_splits)

lemma passes_roll_forward:
  "passes m k st \<Longrightarrow> k' \<noteq> k \<or> ct < st \<Longrightarrow> op \<noteq> Rollback \<Longrightarrow> passes (roll_forward k' s ct op m) k st"
  by (auto simp: passes_def committed_roll_forward rolled_back_def split: if_splits)

lemma passes_status: "status_spec now pk s m status m' \<Longrightarrow> s \<noteq> st \<Longrightarrow> passes m k st \<Longrightarrow> passes m' k st"
  by (induction rule: status_spec.induct) (auto intro: passes_roll_back)

lemma passes_resolve:
  assumes r: "resolve_spec now now' k l m r m'" and l: "m_locks m k = Some l" "lock_start_ts l \<noteq> st"
    and op: "lock_op l \<noteq> Rollback" and p: "passes m k' st" and st: "settled st m"
  shows "passes m' k' st"
  using r
proof cases
  case (resolve_forward ct m1)
  note c = status_spec_committedD [OF resolve_forward(3)]
  with settledD [OF st l] have "ct < st" by blast
  with c(1) p op resolve_forward show ?thesis by (auto intro: passes_roll_forward)
qed (use p l in \<open>auto intro: passes_roll_back passes_status\<close>)

lemma resolve_spec_no_new_locks:
  "resolve_spec now now' k l m r m' \<Longrightarrow> m_locks m' k' = Some l' \<Longrightarrow> m_locks m k' = Some l'"
  by (auto elim!: resolve_spec.cases dest!: status_spec_locks [where k = k'] split: if_splits)

text \<open>The record a rollback of \<open>st\<close> leaves on the key.\<close>

definition marked :: "mvcc \<Rightarrow> bytes \<Rightarrow> u64 \<Rightarrow> bool" where
  "marked m k st \<longleftrightarrow> m_writes m (k, st) = Some (wr_new st Rollback)"

lemma marked_not_passes: "marked m k st \<Longrightarrow> \<not> passes m k st"
  unfolding marked_def passes_def rolled_back_def using wr_new_simps by blast

lemma status_spec_marked:
  "status_spec now pk s m status m' \<Longrightarrow> s \<noteq> st \<Longrightarrow> marked m k st \<Longrightarrow> marked m' k st"
  by (induction rule: status_spec.induct) (auto simp: marked_def)

lemma resolve_spec_marked:
  assumes r: "resolve_spec now now' k l m r m'" and l: "m_locks m k = Some l" "lock_start_ts l \<noteq> st"
    and st: "settled st m" and k': "marked m k' st"
  shows "marked m' k' st"
  using r
proof cases
  case (resolve_forward ct m1)
  note c = status_spec_committedD [OF resolve_forward(3)]
  with settledD [OF st l] have "ct < st" by blast
  with c(1) k' resolve_forward show ?thesis by (auto simp: marked_def)
qed (use l k' in \<open>auto simp: marked_def dest: status_spec_marked [unfolded marked_def]\<close>)

text \<open>Nothing committed is lost when a lock is resolved: it is older than the lock.\<close>

lemma status_spec_committed:
  assumes "status_spec now pk s m status m'" "si_inv m" "committed m k t r"
  shows "committed m' k t r"
  using assms(1)
proof cases
  case (status_expired l)
  then have "(k, t) \<noteq> (pk, s)"
    using si_invD(3) [OF assms(2) status_expired(4), of t r] assms(3) by auto
  with status_expired assms(3) show ?thesis by (auto simp: committed_roll_back)
qed (use assms(3) in auto)

lemma resolve_spec_committed:
  assumes r: "resolve_spec now now' k l m r m'" and l: "m_locks m k = Some l"
    and inv: "si_inv m" and c: "committed m k' t w"
  shows "committed m' k' t w"
proof -
  have old: "k' = k \<Longrightarrow> t < lock_start_ts l" using si_invD(3) [OF inv l] c by blast
  have keep: "committed m1 k' t w" if "status_spec now (lock_primary_key l) (lock_start_ts l) m status m1" for status m1
    using status_spec_committed [OF that inv c] .
  from r show ?thesis
  proof cases
    case (resolve_forward ct m1)
    obtain q where "committed m (lock_primary_key l) ct q" "wr_start_ts q = lock_start_ts l"
      using status_spec_committedD(2) [OF resolve_forward(3)] by blast
    with si_invD(1) [OF inv] have "lock_start_ts l \<le> ct" by metis
    with old keep [OF resolve_forward(3)] resolve_forward show ?thesis
      by (auto simp: committed_roll_forward)
  qed (use old keep in \<open>auto simp: committed_roll_back\<close>)
qed

text \<open>The change from \<open>m\<close> to \<open>m'\<close> goes unnoticed by the transaction \<open>st\<close>: keys it may write
  stay writable, its locks, its marks, everything committed and all values stay, and no
  lock appears.\<close>

definition quiet :: "u64 \<Rightarrow> mvcc \<Rightarrow> mvcc \<Rightarrow> bool" where
  "quiet st m m' \<longleftrightarrow> mvcc_steps m m' \<and> settled st m' \<and> m_vals m' = m_vals m \<and>
     (\<forall>k. passes m k st \<longrightarrow> passes m' k st) \<and>
     (\<forall>k l. m_locks m k = Some l \<and> lock_start_ts l = st \<longrightarrow> m_locks m' k = Some l) \<and>
     (\<forall>k l. m_locks m' k = Some l \<longrightarrow> m_locks m k = Some l) \<and>
     (\<forall>k. marked m k st \<longrightarrow> marked m' k st) \<and>
     (\<forall>k t r. committed m k t r \<longrightarrow> committed m' k t r)"

lemma quietD:
  assumes "quiet st m m'"
  shows "mvcc_steps m m'" "settled st m'" "m_vals m' = m_vals m"
    "passes m k st \<Longrightarrow> passes m' k st"
    "m_locks m k = Some l \<Longrightarrow> lock_start_ts l = st \<Longrightarrow> m_locks m' k = Some l"
    "m_locks m' k = Some l \<Longrightarrow> m_locks m k = Some l"
    "marked m k st \<Longrightarrow> marked m' k st"
    "committed m k t r \<Longrightarrow> committed m' k t r"
  using assms unfolding quiet_def by blast+

lemma quiet_refl: "settled st m \<Longrightarrow> quiet st m m"
  by (simp add: quiet_def)

lemma quiet_trans:
  assumes "quiet st m m'" "quiet st m' m''"
  shows "quiet st m m''"
  unfolding quiet_def
proof (intro conjI allI impI)
  note 1 = quietD [OF assms(1)] and 2 = quietD [OF assms(2)]
  show "mvcc_steps m m''" by (rule rtranclp_trans [OF 1(1) 2(1)])
  show "settled st m''" "m_vals m'' = m_vals m" by (rule 2(2), simp only: 1(3) 2(3))
  show "passes m'' k st" if "passes m k st" for k by (rule 2(4) [OF 1(4) [OF that]])
  show "m_locks m'' k = Some l" if "m_locks m k = Some l \<and> lock_start_ts l = st" for k l
    by (rule 2(5) [OF 1(5)]) (simp_all add: that)
  show "m_locks m k = Some l" if "m_locks m'' k = Some l" for k l by (rule 1(6) [OF 2(6) [OF that]])
  show "marked m'' k st" if "marked m k st" for k by (rule 2(7) [OF 1(7) [OF that]])
  show "committed m'' k t r" if "committed m k t r" for k t r by (rule 2(8) [OF 1(8) [OF that]])
qed

lemma quiet_free_for: "quiet st m m' \<Longrightarrow> free_for st k m \<Longrightarrow> free_for st k m'"
  unfolding free_for_passes using quietD(4,6) by blast

lemma status_spec_no_new_locks:
  "status_spec now pk s m status m' \<Longrightarrow> m_locks m' k = Some l \<Longrightarrow> m_locks m k = Some l"
  by (auto dest: status_spec_locks [where k = k])

lemma status_spec_owned:
  "status_spec now pk s m status m' \<Longrightarrow> s \<noteq> st \<Longrightarrow> m_locks m k = Some l \<Longrightarrow> lock_start_ts l = st \<Longrightarrow>
   m_locks m' k = Some l"
  by (auto dest: status_spec_locks [where k = k])

lemma quiet_status:
  assumes "status_spec now pk s m status m'" "s \<noteq> st" "settled st m" "si_inv m"
  shows "quiet st m m'"
  unfolding quiet_def
  using status_spec_steps [OF assms(1)] settled_status [OF assms(1,3)] status_spec_vals [OF assms(1)]
    passes_status [OF assms(1,2)] status_spec_owned [OF assms(1,2)] status_spec_no_new_locks [OF assms(1)]
    status_spec_marked [OF assms(1,2)] status_spec_committed [OF assms(1,4)]
  by blast

lemma quiet_resolve:
  assumes "resolve_spec now now' k l m r m'" "m_locks m k = Some l" "lock_start_ts l \<noteq> st"
    and "lock_op l \<noteq> Rollback" "settled st m" "si_inv m"
  shows "quiet st m m'"
  unfolding quiet_def
  using resolve_spec_steps [OF assms(6,2) refl assms(4,1)] settled_resolve [OF assms(5,2,3,1)]
    resolve_spec_vals [OF assms(1)] passes_resolve [OF assms(1-4) _ assms(5)]
    resolve_spec_owned [OF assms(1-3)] resolve_spec_no_new_locks [OF assms(1)]
    resolve_spec_marked [OF assms(1-3,5)] resolve_spec_committed [OF assms(1,2,6)]
  by blast

section \<open>The lock check\<close>

context fjall
begin

lemma resolve_existing_quiet:
  assumes run: "resolve_existing E k st s = (r, s')"
    and K: "good_keys K" "k \<in> K" "wf_store K (view s)"
    and inv: "si_inv (abs_mvcc (view s))" "settled st (abs_mvcc (view s))"
  shows "wf_store K (view s') \<and> quiet st (abs_mvcc (view s)) (abs_mvcc (view s')) \<and>
    (case r of
       Inl e \<Rightarrow> txn_io e \<or> e = KeyLocked k
     | Inr b \<Rightarrow> \<forall>l. m_locks (abs_mvcc (view s')) k = Some l \<longrightarrow> lock_start_ts l = st)"
proof -
  obtain g s1 where g: "fj_get E P_Lock k s = (g, s1)" by force
  from g K(3) show ?thesis
  proof (cases rule: get_lock_cases)
    case io
    with run g K inv show ?thesis by (auto simp: resolve_existing_def quiet_refl)
  next
    case unlocked
    with run g K inv show ?thesis by (auto simp: resolve_existing_def quiet_refl)
  next
    case (locked b l)
    show ?thesis
    proof (cases "lock_start_ts l = st")
      case True
      with run g locked K inv show ?thesis by (auto simp: resolve_existing_def quiet_refl)
    next
      case False
      let ?m = "abs_mvcc (view s)"
      obtain c s2 where c: "resolve_lock E k l s1 = (c, s2)" by force
      have rs: "s' = s2" "r = (case c of Inl _ \<Rightarrow> Inl (KeyLocked k) | Inr _ \<Rightarrow> Inr True)"
        using run g locked False c by (auto simp: resolve_existing_def split: sum.splits)
      note l = wf_m_locks [OF K(3) locked(4)]
      have op: "lock_op l \<noteq> Rollback" using l(3) by (simp add: valid_lock_def)
      have wf1: "wf_store K (view s1)" using K(3) locked(5) by simp
      note ref = resolve_lock_refines [OF K(1,2) l(2) wf1 c, unfolded locked(5)]
      then have wf2: "wf_store K (view s2)" by blast
      from ref consider (io) e where "c = Inl e" "view s2 = view s"
        | (status) e now status where "c = Inl e"
            "status_spec now (lock_primary_key l) (lock_start_ts l) ?m status (abs_mvcc (view s2))"
        | (spec) now now' where "resolve_spec now now' k l ?m c (abs_mvcc (view s2))"
        by blast
      then show ?thesis
      proof cases
        case io
        with rs wf2 inv show ?thesis by (simp add: quiet_refl)
      next
        case status
        with quiet_status [OF status(2) False inv(2,1)] rs wf2 show ?thesis by simp
      next
        case spec
        from quiet_resolve [OF spec locked(4) False op inv(2,1)] rs wf2 spec show ?thesis
          by (cases c) (auto dest: resolve_spec_unlocks)
      qed
    qed
  qed
qed

lemma check_lock_quiet:
  assumes run: "check_lock E k st s = (r, s')"
    and K: "good_keys K" "k \<in> K" "wf_store K (view s)"
    and inv: "si_inv (abs_mvcc (view s))" "settled st (abs_mvcc (view s))"
  shows "wf_store K (view s') \<and> quiet st (abs_mvcc (view s)) (abs_mvcc (view s')) \<and>
    (case r of
       Inl e \<Rightarrow> txn_io e \<or> e = KeyLocked k
     | Inr b \<Rightarrow> \<forall>l. m_locks (abs_mvcc (view s')) k = Some l \<longrightarrow> lock_start_ts l = st)"
proof -
  obtain c s1 where c: "resolve_existing E k st s = (c, s1)" by force
  note q = resolve_existing_quiet [OF c K inv]
  then have wf1: "wf_store K (view s1)" by blast
  obtain g s2 where g: "fj_get E P_Lock k s1 = (g, s2)" by force
  from g wf1 show ?thesis
    by (cases rule: get_lock_cases)
       (use run c g q in \<open>auto simp: check_lock_def split: sum.splits bool.splits\<close>)
qed

end

section \<open>Laying a lock\<close>

definition lay :: "u64 \<Rightarrow> bytes \<Rightarrow> u64 \<Rightarrow> Mutation \<Rightarrow> mvcc \<Rightarrow> mvcc" where
  "lay st pk ttl mutation m =
     set_lock (mutation_key mutation) (Some (txn_lock st pk ttl mutation))
       (case mutation of M_Put k x \<Rightarrow> put_val k st x m | M_Delete k \<Rightarrow> m)"

lemma valid_txn_lock: "good_keys K \<Longrightarrow> pk \<in> K \<Longrightarrow> valid_lock (txn_lock st pk ttl mutation)"
  using good_keysD(2) [of K pk] by (cases mutation) (simp_all add: valid_lock_def txn_lock_def)

lemma txn_lock_simps [simp]:
  "lock_start_ts (txn_lock st pk ttl mutation) = st" "lock_primary_key (txn_lock st pk ttl mutation) = pk"
  "lock_op (txn_lock st pk ttl mutation) = mutation_op_type mutation"
  by (simp_all add: txn_lock_def)

lemma m_locks_lay [simp]:
  "m_locks (lay st pk ttl mutation m) = (m_locks m)(mutation_key mutation \<mapsto> txn_lock st pk ttl mutation)"
  by (simp add: lay_def split: Mutation.split)

lemma m_writes_lay [simp]: "m_writes (lay st pk ttl mutation m) = m_writes m"
  by (simp add: lay_def split: Mutation.split)

lemma m_vals_lay:
  "m_vals (lay st pk ttl mutation m) (k, t) =
     (case mutation of M_Put k' x \<Rightarrow> if k = k' \<and> t = st then Some x else m_vals m (k, t)
      | M_Delete k' \<Rightarrow> m_vals m (k, t))"
  by (simp add: lay_def split: Mutation.split)

lemma abs_stage_mutation:
  assumes "good_keys K" "pk \<in> K"
  shows "abs_mvcc (apply_batch (stage_mutation st pk ttl mutation) v) = lay st pk ttl mutation (abs_mvcc v)"
  using valid_txn_lock [OF assms, of st ttl mutation]
  unfolding stage_mutation_def lay_def
  by (cases mutation) (simp_all only: Mutation.case apply_batch_Cons apply_batch_Nil apply_batch_append
      append_Cons append_Nil abs_insert_lock abs_insert_val)

lemma wf_stage_mutation:
  assumes "good_keys K" "pk \<in> K" "mutation_key mutation \<in> K" "wf_store K v"
  shows "wf_store K (apply_batch (stage_mutation st pk ttl mutation) v)"
proof -
  note lock = wf_insert_lock [OF _ assms(3) _ valid_txn_lock [OF assms(1,2)], of _ st ttl mutation]
  have "wf_store K (apply_batch (case mutation of
      M_Put key val \<Rightarrow> [Insert P_Default (key_encode key st) val] | M_Delete key \<Rightarrow> []) v)"
    using assms(4) by (cases mutation) (simp_all del: apply_op.simps add: wf_insert_val)
  from lock [OF this] assms(2) show ?thesis
    unfolding stage_mutation_def by (simp only: apply_batch_append apply_batch_Cons apply_batch_Nil txn_lock_simps)
qed

lemma passes_writes [simp]:
  "passes (lay st' pk ttl mutation m) k st \<longleftrightarrow> passes m k st"
  "passes (put_val k' t x m) k st \<longleftrightarrow> passes m k st"
  by (simp_all add: passes_def committed_def rolled_back_def)

lemma free_for_lay: "free_for st k m \<Longrightarrow> free_for st k (lay st pk ttl mutation m)"
  by (auto simp: free_for_passes)

lemma settled_lay: "settled st m \<Longrightarrow> settled st (lay st pk ttl mutation m)"
  by (erule settled_weaken) (auto simp: committed_def split: if_splits)

lemma lay_steps:
  assumes "free_for st (mutation_key mutation) m"
  shows "mvcc_steps m (lay st pk ttl mutation m)"
proof (cases mutation)
  case (M_Put k x)
  have "mvcc_step m (put_val k st x m)"
    using assms M_Put by (intro step_value) simp
  moreover have "mvcc_step (put_val k st x m) (set_lock k (Some (txn_lock st pk ttl mutation)) (put_val k st x m))"
    using assms M_Put by (intro step_lock [of st]) (simp_all add: free_for_passes)
  ultimately show ?thesis
    by (auto simp: lay_def M_Put)
next
  case (M_Delete k)
  with assms show ?thesis
    by (auto simp: lay_def intro!: mvcc_steps_one step_lock [of st])
qed

section \<open>Prewrite\<close>

definition prewrite_error :: "mvcc \<Rightarrow> u64 \<Rightarrow> bytes \<Rightarrow> TxnError \<Rightarrow> bool" where
  "prewrite_error m st k e \<longleftrightarrow> txn_io e \<or> e = KeyLocked k \<or>
     e = TransactionRolledBack \<and> rolled_back m k st \<or>
     e = WriteConflict k st \<and> (\<exists>t r. m_writes m (k, t) = Some r \<and> st \<le> t)"

inductive prewrites :: "u64 \<Rightarrow> bytes \<Rightarrow> u64 \<Rightarrow> Mutation list \<Rightarrow> mvcc \<Rightarrow> TxnError + unit \<Rightarrow> mvcc \<Rightarrow> bool"
  for st pk ttl where
  pw_done: "prewrites st pk ttl [] m (Inr ()) m"
| pw_stop: "quiet st m m' \<Longrightarrow> prewrite_error m st (mutation_key mutation) e \<Longrightarrow>
     prewrites st pk ttl (mutation # mutations) m (Inl e) m'"
| pw_lay: "quiet st m m1 \<Longrightarrow> free_for st (mutation_key mutation) m1 \<Longrightarrow>
     prewrites st pk ttl mutations (lay st pk ttl mutation m1) r m' \<Longrightarrow>
     prewrites st pk ttl (mutation # mutations) m r m'"

lemma prewrites_steps: "prewrites st pk ttl mutations m r m' \<Longrightarrow> mvcc_steps m m'"
proof (induction rule: prewrites.induct)
  case (pw_lay m m1 mutation mutations r m')
  from quietD(1) [OF pw_lay(1)] lay_steps [OF pw_lay(2)] pw_lay(4) show ?case
    by (meson rtranclp_trans)
qed (auto dest: quietD(1))

lemma prewrites_settled: "prewrites st pk ttl mutations m r m' \<Longrightarrow> settled st m \<Longrightarrow> settled st m'"
  by (induction rule: prewrites.induct) (auto dest: quietD(2) intro: settled_lay)

text \<open>What a successful prewrite leaves: for each mutation its lock, and the value of a put.\<close>

definition laid :: "u64 \<Rightarrow> bytes \<Rightarrow> u64 \<Rightarrow> mvcc \<Rightarrow> Mutation \<Rightarrow> bool" where
  "laid st pk ttl m mutation \<longleftrightarrow>
     m_locks m (mutation_key mutation) = Some (txn_lock st pk ttl mutation) \<and>
     (\<forall>k x. mutation = M_Put k x \<longrightarrow> m_vals m (k, st) = Some x)"

lemma laid_lay: "laid st pk ttl (lay st pk ttl mutation m) mutation"
  by (auto simp: laid_def m_vals_lay)

lemma laid_quiet:
  assumes "quiet st m m'" "laid st pk ttl m mutation"
  shows "laid st pk ttl m' mutation"
  using assms(2) quietD(5) [OF assms(1), of "mutation_key mutation" "txn_lock st pk ttl mutation"]
  unfolding laid_def quietD(3) [OF assms(1)] by simp

lemma laid_lay_other:
  "laid st pk ttl m mutation \<Longrightarrow> mutation_key mutation \<noteq> mutation_key mutation' \<Longrightarrow>
   laid st pk ttl (lay st pk ttl mutation' m) mutation"
  by (auto simp: laid_def m_vals_lay split: Mutation.splits)

lemma prewrites_keep_laid:
  assumes "prewrites st pk ttl mutations m r m'" "laid st pk ttl m mutation"
    and "mutation_key mutation \<notin> mutation_key ` set mutations"
  shows "laid st pk ttl m' mutation"
  using assms by (induction rule: prewrites.induct) (auto intro: laid_quiet laid_lay_other)

lemma prewrites_laid:
  assumes "prewrites st pk ttl mutations m (Inr ()) m'" "distinct (map mutation_key mutations)"
    and "mutation \<in> set mutations"
  shows "laid st pk ttl m' mutation"
  using assms
proof (induction mutations m "Inr () :: TxnError + unit" m' rule: prewrites.induct)
  case (pw_lay m m1 mutation' mutations m')
  then show ?case
    using prewrites_keep_laid [OF pw_lay(3) laid_lay] by auto
qed simp

text \<open>A transaction rolled back on one of the keys cannot prewrite it.\<close>

lemma prewrites_marked:
  assumes "prewrites st pk ttl mutations m r m'" "marked m (mutation_key mutation) st"
    and "mutation \<in> set mutations"
  shows "r \<noteq> Inr ()"
  using assms
proof (induction rule: prewrites.induct)
  case (pw_lay m m1 mutation' mutations r m')
  have m1: "marked m1 (mutation_key mutation) st"
    by (rule quietD(7) [OF pw_lay(1,5)])
  with pw_lay(2) marked_not_passes have "mutation_key mutation \<noteq> mutation_key mutation'"
    by (auto simp: free_for_passes)
  with pw_lay(4,6) m1 show ?case by (auto simp: marked_def)
qed auto

text \<open>Neither can one with a commit at or after its start on the key.\<close>

lemma prewrites_conflict:
  assumes "prewrites st pk ttl mutations m r m'" "committed m (mutation_key mutation) t w" "st \<le> t"
    and "mutation \<in> set mutations"
  shows "r \<noteq> Inr ()"
  using assms
proof (induction rule: prewrites.induct)
  case (pw_lay m m1 mutation' mutations r m')
  have m1: "committed m1 (mutation_key mutation) t w"
    by (rule quietD(8) [OF pw_lay(1,5)])
  with pw_lay(2,6) have "mutation_key mutation \<noteq> mutation_key mutation'"
    unfolding free_for_def by (metis leD)
  with pw_lay(4,6,7) m1 show ?case by (auto simp: committed_def)
qed auto

context fjall
begin

lemma prewrite_one_cases:
  assumes run: "prewrite_one E st pk ttl mutation s = (r, s')"
    and K: "good_keys K" "mutation_key mutation \<in> K" "pk \<in> K" "wf_store K (view s)"
    and inv: "si_inv (abs_mvcc (view s))" "settled st (abs_mvcc (view s))"
  obtains (err) e where "r = Inl e" "wf_store K (view s')"
      "prewrite_error (abs_mvcc (view s)) st (mutation_key mutation) e"
      "quiet st (abs_mvcc (view s)) (abs_mvcc (view s'))"
    | (ok) m1 where "r = Inr ()" "wf_store K (view s')" "quiet st (abs_mvcc (view s)) m1"
        "free_for st (mutation_key mutation) m1" "abs_mvcc (view s') = lay st pk ttl mutation m1"
proof -
  let ?k = "mutation_key mutation" and ?m = "abs_mvcc (view s)"
  obtain c s1 where c: "check_write_conflict E ?k st s = (c, s1)" by force
  from c K(1,2,4) show ?thesis
  proof (cases rule: check_write_conflict_cases)
    case ok': ok
    then have p: "passes ?m ?k st" by (auto simp: passes_def committed_def)
    obtain d s2 where d: "check_lock E ?k st s1 = (d, s2)" by force
    have inv1: "wf_store K (view s1)" "si_inv (abs_mvcc (view s1))" "settled st (abs_mvcc (view s1))"
      using K(4) inv ok'(4) by simp_all
    note q = check_lock_quiet [OF d K(1,2) inv1, unfolded ok'(4)]
    show ?thesis
    proof (cases d)
      case (Inl e)
      with run c d ok' q show ?thesis
        by (intro err [of e]) (auto simp: prewrite_one_def prewrite_error_def)
    next
      case (Inr u)
      have free: "free_for st ?k (abs_mvcc (view s2))"
        using q p quietD(4) Inr by (auto simp: free_for_passes)
      obtain b s3 where b: "commit_batch E (stage_mutation st pk ttl mutation) s2 = (b, s3)" by force
      from b show ?thesis
      proof (cases rule: commit_batch_cases)
        case okc: ok
        with run c d ok' Inr b have "r = Inr ()" "s' = s3" by (simp_all add: prewrite_one_def)
        with okc q free wf_stage_mutation [OF K(1,3,2)] abs_stage_mutation [OF K(1,3)] show ?thesis
          by (intro ok [of "abs_mvcc (view s2)"]) simp_all
      next
        case (io e)
        with run c d ok' Inr b q show ?thesis
          by (intro err [of "Txn_Storage (Storage_Fjall e)"])
             (auto simp: prewrite_one_def prewrite_error_def)
      qed
    qed
  qed (use run c K inv err in \<open>auto simp: prewrite_one_def prewrite_error_def quiet_refl\<close>)
qed

lemma prewrite_refines:
  assumes "prewrite E st mutations pk ttl s = (r, s')"
    and "good_keys K" "mutation_key ` set mutations \<subseteq> K" "pk \<in> K" "wf_store K (view s)"
    and "si_inv (abs_mvcc (view s))" "settled st (abs_mvcc (view s))"
  shows "wf_store K (view s') \<and> prewrites st pk ttl mutations (abs_mvcc (view s)) r (abs_mvcc (view s'))"
  using assms
proof (induction mutations arbitrary: s)
  case Nil
  then show ?case by (auto intro: pw_done)
next
  case (Cons mutation mutations)
  obtain c s1 where c: "prewrite_one E st pk ttl mutation s = (c, s1)" by force
  have k: "mutation_key mutation \<in> K" using Cons.prems(3) by simp
  from c Cons.prems(2) k Cons.prems(4-7) show ?case
  proof (cases rule: prewrite_one_cases)
    case (err e)
    with Cons.prems(1) c show ?thesis by (auto intro: pw_stop)
  next
    case (ok m1)
    from Cons.prems(1) c ok(1) have run: "prewrite E st mutations pk ttl s1 = (r, s')" by simp
    have "si_inv (abs_mvcc (view s1))"
      using mvcc_steps_si quietD(1) [OF ok(3)] lay_steps [OF ok(4)] Cons.prems(6) ok(5) by metis
    moreover have "settled st (abs_mvcc (view s1))"
      using settled_lay quietD(2) [OF ok(3)] ok(5) by simp
    ultimately show ?thesis
      using Cons.IH [OF run Cons.prems(2) _ Cons.prems(4) ok(2)] Cons.prems(3) ok
      by (auto intro: pw_lay)
  qed
qed

end

section \<open>Batch prewrite\<close>

definition stage_all :: "u64 \<Rightarrow> bytes \<Rightarrow> u64 \<Rightarrow> Mutation list \<Rightarrow> batch" where
  "stage_all st pk ttl mutations = concat (map (stage_mutation st pk ttl) mutations)"

lemma stage_all_simps [simp]:
  "stage_all st pk ttl [] = []"
  "stage_all st pk ttl (mutation # mutations) = stage_mutation st pk ttl mutation @ stage_all st pk ttl mutations"
  by (simp_all add: stage_all_def)

lemma apply_stage_all:
  assumes "good_keys K" "pk \<in> K" "mutation_key ` set mutations \<subseteq> K" "wf_store K v"
  shows "wf_store K (apply_batch (stage_all st pk ttl mutations) v) \<and>
    abs_mvcc (apply_batch (stage_all st pk ttl mutations) v) = fold (lay st pk ttl) mutations (abs_mvcc v)"
  using assms(3,4)
proof (induction mutations arbitrary: v)
  case (Cons mutation mutations)
  then have "wf_store K (apply_batch (stage_mutation st pk ttl mutation) v)"
    by (intro wf_stage_mutation assms) auto
  with Cons abs_stage_mutation [OF assms(1,2)] show ?case by simp
qed simp

text \<open>Laying locks on keys that are free.\<close>

lemma lay_all_steps:
  "\<forall>mutation \<in> set mutations. free_for st (mutation_key mutation) m \<Longrightarrow>
   mvcc_steps m (fold (lay st pk ttl) mutations m)"
proof (induction mutations arbitrary: m)
  case (Cons mutation mutations)
  then have "mvcc_steps (lay st pk ttl mutation m) (fold (lay st pk ttl) mutations (lay st pk ttl mutation m))"
    by (intro Cons.IH) (auto intro: free_for_lay)
  moreover have "mvcc_steps m (lay st pk ttl mutation m)"
    using Cons.prems by (intro lay_steps) simp
  ultimately show ?case by (simp add: rtranclp_trans)
qed simp

lemma lay_all_laid:
  assumes "distinct (map mutation_key mutations)" "mutation \<in> set mutations"
  shows "laid st pk ttl (fold (lay st pk ttl) mutations m) mutation"
proof -
  have keep: "laid st pk ttl (fold (lay st pk ttl) ms m') mutation"
    if "laid st pk ttl m' mutation" "mutation_key mutation \<notin> mutation_key ` set ms" for ms m'
    using that by (induction ms arbitrary: m') (auto intro: laid_lay_other)
  show ?thesis
    using assms
  proof (induction mutations arbitrary: m)
    case (Cons a mutations)
    then show ?case using keep [OF laid_lay, of mutations] by auto
  qed simp
qed

lemma settled_lay_all: "settled st m \<Longrightarrow> settled st (fold (lay st pk ttl) mutations m)"
  by (induction mutations arbitrary: m) (auto intro: settled_lay)

context fjall
begin

lemma batch_prewrite_loop_quiet:
  assumes "batch_prewrite_loop E st mutations pk ttl b s = (r, s')"
    and "good_keys K" "mutation_key ` set mutations \<subseteq> K" "wf_store K (view s)"
    and "si_inv (abs_mvcc (view s))" "settled st (abs_mvcc (view s))"
  shows "wf_store K (view s') \<and> quiet st (abs_mvcc (view s)) (abs_mvcc (view s')) \<and>
    (case r of
       Inl e \<Rightarrow> \<exists>mutation \<in> set mutations. \<exists>m. quiet st (abs_mvcc (view s)) m \<and> prewrite_error m st (mutation_key mutation) e
     | Inr b' \<Rightarrow> b' = b @ stage_all st pk ttl mutations \<and>
         (\<forall>mutation \<in> set mutations. free_for st (mutation_key mutation) (abs_mvcc (view s'))))"
  using assms
proof (induction mutations arbitrary: s b)
  case Nil
  then show ?case by (auto intro: quiet_refl)
next
  case (Cons mutation mutations)
  let ?k = "mutation_key mutation" and ?m = "abs_mvcc (view s)"
  have k: "?k \<in> K" using Cons.prems(3) by simp
  have m: "quiet st ?m ?m" using Cons.prems(6) by (rule quiet_refl)
  obtain c s1 where c: "check_write_conflict E ?k st s = (c, s1)" by force
  have stop: ?case if "prewrite_error ?m st ?k e" "c = Inl e" "view s1 = view s" for e
  proof -
    have "r = Inl e" "s' = s1" using Cons.prems(1) c that(2) by simp_all
    with that m Cons.prems(4) show ?thesis by auto
  qed
  from c Cons.prems(2) k Cons.prems(4) show ?case
  proof (cases rule: check_write_conflict_cases)
    case ok
    then have p: "passes ?m ?k st" by (auto simp: passes_def committed_def)
    obtain d s2 where d: "resolve_existing E ?k st s1 = (d, s2)" by force
    have inv1: "wf_store K (view s1)" "si_inv (abs_mvcc (view s1))" "settled st (abs_mvcc (view s1))"
      using Cons.prems(4-6) ok(4) by simp_all
    note q = resolve_existing_quiet [OF d Cons.prems(2) k inv1, unfolded ok(4)]
    show ?thesis
    proof (cases d)
      case (Inl e)
      with Cons.prems(1) c d ok q m show ?thesis by (auto simp: prewrite_error_def)
    next
      case (Inr x)
      let ?m2 = "abs_mvcc (view s2)"
      have q2: "quiet st ?m ?m2" and wf2: "wf_store K (view s2)" using q by blast+
      have free: "free_for st ?k ?m2"
        using q p quietD(4) [OF q2] Inr by (auto simp: free_for_passes)
      from Cons.prems(1) c d ok Inr
      have run: "batch_prewrite_loop E st mutations pk ttl (b @ stage_mutation st pk ttl mutation) s2 = (r, s')"
        by simp
      have "si_inv ?m2" using mvcc_steps_si [OF quietD(1) [OF q2]] Cons.prems(5) .
      from Cons.IH [OF run Cons.prems(2) _ wf2 this quietD(2) [OF q2]] Cons.prems(3)
      have IH: "wf_store K (view s')" "quiet st ?m2 (abs_mvcc (view s'))"
        "case r of
           Inl e \<Rightarrow> \<exists>mutation \<in> set mutations. \<exists>m. quiet st ?m2 m \<and> prewrite_error m st (mutation_key mutation) e
         | Inr b' \<Rightarrow> b' = (b @ stage_mutation st pk ttl mutation) @ stage_all st pk ttl mutations \<and>
             (\<forall>mutation \<in> set mutations. free_for st (mutation_key mutation) (abs_mvcc (view s')))"
        by auto
      have "quiet st ?m (abs_mvcc (view s'))" by (rule quiet_trans [OF q2 IH(2)])
      moreover have "free_for st ?k (abs_mvcc (view s'))" by (rule quiet_free_for [OF IH(2) free])
      ultimately show ?thesis
        using IH(1,3) quiet_trans [OF q2] by (cases r) auto
    qed
  qed (rule stop; auto simp: prewrite_error_def)+
qed

lemma batch_prewrite_cases:
  assumes run: "batch_prewrite E st mutations pk ttl s = (r, s')"
    and K: "good_keys K" "mutation_key ` set mutations \<subseteq> K" "pk \<in> K" "wf_store K (view s)"
    and inv: "si_inv (abs_mvcc (view s))" "settled st (abs_mvcc (view s))"
  obtains (err) e m mutation where "r = Inl e" "wf_store K (view s')"
      "quiet st (abs_mvcc (view s)) (abs_mvcc (view s'))"
      "mutation \<in> set mutations" "quiet st (abs_mvcc (view s)) m"
      "prewrite_error m st (mutation_key mutation) e"
    | (ok) m1 where "r = Inr ()" "wf_store K (view s')" "quiet st (abs_mvcc (view s)) m1"
        "\<forall>mutation \<in> set mutations. free_for st (mutation_key mutation) m1"
        "abs_mvcc (view s') = fold (lay st pk ttl) mutations m1"
proof (cases "mutations = []")
  case True
  with run K inv show ?thesis
    by (intro ok [of "abs_mvcc (view s)"]) (auto simp: batch_prewrite_def quiet_refl)
next
  case False
  obtain l s1 where l: "batch_prewrite_loop E st mutations pk ttl [] s = (l, s1)" by force
  note q = batch_prewrite_loop_quiet [OF l K(1,2,4) inv]
  show ?thesis
  proof (cases l)
    case (Inl e)
    with run l False q err show ?thesis by (auto simp: batch_prewrite_def)
  next
    case (Inr b)
    with q have b: "b = stage_all st pk ttl mutations" by simp
    obtain c s2 where c: "commit_batch E b s1 = (c, s2)" by force
    from c show ?thesis
    proof (cases rule: commit_batch_cases)
      case okc: ok
      with run l False Inr c have "r = Inr ()" "s' = s2" by (simp_all add: batch_prewrite_def)
      with okc b q Inr apply_stage_all [OF K(1,3,2)] show ?thesis
        by (intro ok [of "abs_mvcc (view s1)"]) simp_all
    next
      case (io e)
      with run l False Inr c have "r = Inl (Txn_Storage (Storage_Fjall e))" "s' = s2"
        by (simp_all add: batch_prewrite_def)
      moreover obtain mutation where "mutation \<in> set mutations" using False by (cases mutations) auto
      ultimately show ?thesis
        using io q by (intro err [of _ mutation "abs_mvcc (view s1)"]) (auto simp: prewrite_error_def)
    qed
  qed
qed

lemma batch_prewrite_atomic:
  assumes "batch_prewrite E st mutations pk ttl s = (r, s')"
    and "good_keys K" "mutation_key ` set mutations \<subseteq> K" "pk \<in> K" "wf_store K (view s)"
    and "si_inv (abs_mvcc (view s))" "settled st (abs_mvcc (view s))" "distinct (map mutation_key mutations)"
  shows "case r of
      Inl e \<Rightarrow> quiet st (abs_mvcc (view s)) (abs_mvcc (view s'))
    | Inr _ \<Rightarrow> list_all (laid st pk ttl (abs_mvcc (view s'))) mutations"
  using assms(1-7)
proof (cases rule: batch_prewrite_cases)
  case (ok m1)
  with lay_all_laid [OF assms(8)] show ?thesis by (simp add: list_all_iff)
qed simp

section \<open>The prewrites as runs\<close>

lemma prewrite_runs:
  assumes "prewrite E st mutations pk ttl s = (r, s')"
    and "good_keys K" "mutation_key ` set mutations \<subseteq> K" "pk \<in> K" "settled st (abs_mvcc (view s))"
  shows "runs K (view s) (view s')"
  unfolding runs_def
  using prewrite_refines [OF assms(1-4) _ _ assms(5)] prewrites_steps by blast

lemma batch_prewrite_runs:
  assumes "batch_prewrite E st mutations pk ttl s = (r, s')"
    and "good_keys K" "mutation_key ` set mutations \<subseteq> K" "pk \<in> K" "settled st (abs_mvcc (view s))"
  shows "runs K (view s) (view s')"
  unfolding runs_def
proof (intro impI, elim conjE)
  assume "wf_store K (view s)" "si_inv (abs_mvcc (view s))"
  from assms(1-4) this assms(5)
  show "wf_store K (view s') \<and> mvcc_steps (abs_mvcc (view s)) (abs_mvcc (view s'))"
  proof (cases rule: batch_prewrite_cases)
    case err
    then show ?thesis by (auto dest: quietD(1))
  next
    case (ok m1)
    with lay_all_steps [OF ok(4)] quietD(1) [OF ok(3)] show ?thesis
      by (metis rtranclp_trans)
  qed
qed

end

end
