(* ===== verification/Txn_Reads.thy ===== *)
theory Txn_Reads
  imports Txn_Prewrite
begin

text \<open>
  Reads through the coordinator, and what a transaction that went through both phases has
  written. \<open>coord_get\<close> answers from the state it leaves, after resolving a lock in its way.
\<close>

section \<open>Point reads\<close>

context fjall
begin

lemma coord_get_cases:
  assumes run: "coord_get E k ts s = (r, s')"
    and K: "good_keys K" "k \<in> K" "wf_store K (view s)" and inv: "si_inv (abs_mvcc (view s))"
  shows "wf_store K (view s') \<and> mvcc_steps (abs_mvcc (view s)) (abs_mvcc (view s')) \<and>
    (\<forall>x. r = Inr x \<longrightarrow> read_result (abs_mvcc (view s')) k ts (Inr x) \<and>
       (\<nexists>l. locked_at (abs_mvcc (view s')) k ts l))"
proof -
  let ?m = "abs_mvcc (view s)"
  obtain g s1 where g: "reader_get E k ts s = (g, s1)" by force
  note v1 = reader_get_cases(1) [OF K g]
  show ?thesis
  proof (cases "\<exists>pk lts. g = Inl (KeyIsLocked pk lts)")
    case False
    have "r = map_sum Txn_Mvcc id g" "s' = s1"
      using run g False by (auto simp: coord_get_def split: sum.splits MvccError.splits)
    with reader_get_cases(2) [OF K g] False v1 K(3) show ?thesis
      by (cases g) auto
  next
    case True
    then obtain pk lts where gl: "g = Inl (KeyIsLocked pk lts)" by blast
    from reader_get_cases(2) [OF K g] gl obtain l where
      l: "m_locks ?m k = Some l" "pk = lock_primary_key l" "lts = lock_start_ts l"
      by (auto simp: locked_at_def)
    let ?l = "\<lparr>lock_primary_key = pk, lock_start_ts = lts, lock_ttl = 3000, lock_op = Put\<rparr>"
    obtain c s2 where c: "resolve_lock E k ?l s1 = (c, s2)" by force
    have pk: "lock_primary_key ?l \<in> K" using wf_m_locks(2) [OF K(3) l(1)] l(2) by simp
    note ref = resolve_lock_refines [OF K(1,2) pk _ c, unfolded v1, OF K(3)]
    then have wf2: "wf_store K (view s2)" by blast
    have steps: "mvcc_steps ?m (abs_mvcc (view s2))"
      using ref status_spec_steps resolve_spec_steps [OF inv l(1), of ?l] l(3) by fastforce
    show ?thesis
    proof (cases c)
      case (Inl e)
      with run g gl c wf2 steps show ?thesis by (auto simp: coord_get_def)
    next
      case (Inr u)
      obtain h s3 where h: "reader_get E k ts s2 = (h, s3)" by force
      with run g gl c Inr have "r = map_sum Txn_Mvcc id h" "s' = s3"
        by (auto simp: coord_get_def split: sum.splits)
      with reader_get_cases [OF K(1,2) wf2 h] wf2 steps show ?thesis
        by (cases h) auto
    qed
  qed
qed

lemma coord_get_runs:
  "coord_get E k ts s = (r, s') \<Longrightarrow> good_keys K \<Longrightarrow> k \<in> K \<Longrightarrow> runs K (view s) (view s')"
  unfolding runs_def using coord_get_cases by blast

end

context fjall_reliable
begin

text \<open>Without a lock in the way a read changes nothing and answers from the state.\<close>

lemma coord_get_unlocked:
  assumes K: "good_keys K" "k \<in> K" "wf_store K (view s)"
    and unlocked: "\<nexists>l. locked_at (abs_mvcc (view s)) k ts l"
  obtains x s' where "coord_get E k ts s = (map_sum Txn_Mvcc id x, s')" "view s' = view s"
    "read_result (abs_mvcc (view s)) k ts x"
proof -
  obtain g s1 where g: "reader_get E k ts s = (g, s1)" by force
  note c = reader_get_correct [OF K, of ts, unfolded g fst_conv snd_conv]
  from c(3) unlocked have r: "read_result (abs_mvcc (view s)) k ts g" by blast
  then have "g \<noteq> Inl (KeyIsLocked pk lts)" for pk lts
    by auto
  then have "coord_get E k ts s = (map_sum Txn_Mvcc id g, s1)"
    using g by (auto simp: coord_get_def split: sum.splits MvccError.splits)
  with r c(1) that show ?thesis by blast
qed

lemma coord_get_locked:
  assumes K: "good_keys K" "k \<in> K" "wf_store K (view s)"
    and l: "locked_at (abs_mvcc (view s)) k ts l"
  obtains now now' rr r s' where "coord_get E k ts s = (r, s')"
    "resolve_spec now now' k \<lparr>lock_primary_key = lock_primary_key l, lock_start_ts = lock_start_ts l,
       lock_ttl = 3000, lock_op = Put\<rparr> (abs_mvcc (view s)) rr (abs_mvcc (view s'))"
    "case rr of Inl _ \<Rightarrow> r = Inl (KeyLocked k)
     | Inr _ \<Rightarrow> \<exists>x. read_result (abs_mvcc (view s')) k ts x \<and> r = map_sum Txn_Mvcc id x"
proof -
  let ?l = "\<lparr>lock_primary_key = lock_primary_key l, lock_start_ts = lock_start_ts l,
       lock_ttl = 3000, lock_op = Put\<rparr>"
  obtain g s1 where g: "reader_get E k ts s = (g, s1)" by force
  note c = reader_get_correct [OF K, of ts, unfolded g fst_conv snd_conv]
  have gl: "g = Inl (KeyIsLocked (lock_primary_key l) (lock_start_ts l))" by (rule c(2) [OF l])
  have pk: "lock_primary_key ?l \<in> K"
    using wf_m_locks(2) [OF K(3), of k l] l by (simp add: locked_at_def)
  have wf1: "wf_store K (view s1)" using c(1) K(3) by simp
  let ?now = "status_clock E (lock_primary_key ?l) s1" and ?now' = "resolve_clock E ?l s1"
  obtain rr s2 where rr: "resolve_lock E k ?l s1 = (rr, s2)" "wf_store K (view s2)"
      "resolve_spec ?now ?now' k ?l (abs_mvcc (view s1)) rr (abs_mvcc (view s2))"
    by (rule resolve_lock_total [OF K(1,2) pk wf1])
  show ?thesis
  proof (cases rr)
    case (Inl e)
    with g gl rr c(1) show ?thesis
      by (intro that [of "Inl (KeyLocked k)" s2]) (auto simp: coord_get_def)
  next
    case (Inr u)
    obtain h s3 where h: "reader_get E k ts s2 = (h, s3)" by force
    note d = reader_get_correct [OF K(1,2) rr(2), of ts, unfolded h fst_conv snd_conv]
    have "m_locks (abs_mvcc (view s2)) k = None"
      using rr(3) Inr resolve_spec_unlocks by simp
    then have "read_result (abs_mvcc (view s2)) k ts h"
      using d(3) by (simp add: locked_at_def)
    with g gl rr Inr h c(1) d(1) show ?thesis
      by (intro that [of "map_sum Txn_Mvcc id h" s3 ?now ?now' rr]) (auto simp: coord_get_def split: sum.splits)
  qed
qed

end

section \<open>What a committed transaction has written\<close>

lemma commit_fold_locks:
  "m_locks (fold (commit_key st ct) keys m) k = (if k \<in> set keys \<and> owns m st k then None else m_locks m k)"
proof (induction keys arbitrary: m)
  case (Cons k' keys)
  have "m_locks (commit_key st ct k' m) k = (if k = k' \<and> owns m st k then None else m_locks m k)"
    by (auto simp: commit_key_def owns_def split: option.splits)
  then show ?case by (auto simp: Cons.IH owns_commit_key)
qed simp

lemma commit_fold_writes:
  "m_writes (fold (commit_key st ct) keys m) (k, t) =
     (if k \<in> set keys \<and> owns m st k \<and> t = ct then Some (wr_new st (lock_op (the (m_locks m k))))
      else m_writes m (k, t))"
proof (induction keys arbitrary: m)
  case (Cons k' keys)
  have w: "m_writes (commit_key st ct k' m) (k, t) = (if k = k' \<and> owns m st k \<and> t = ct
      then Some (wr_new st (lock_op (the (m_locks m k)))) else m_writes m (k, t))"
    by (auto simp: commit_key_def owns_def split: option.splits)
  have l: "k \<noteq> k' \<Longrightarrow> m_locks (commit_key st ct k' m) k = m_locks m k"
    by (auto simp: commit_key_def split: option.splits)
  show ?case
    using Cons.IH [of "commit_key st ct k' m"] w l owns_commit_key [of st ct k' m k]
    by (cases "k = k'") (auto split: if_splits)
qed simp

lemma commit_fold_vals [simp]: "m_vals (fold (commit_key st ct) keys m) = m_vals m"
  by (induction keys arbitrary: m) simp_all

lemma rollback_fold_locks:
  "m_locks (fold (rollback_key st) keys m) k = (if k \<in> set keys \<and> owns m st k then None else m_locks m k)"
proof (induction keys arbitrary: m)
  case (Cons k' keys)
  have l: "m_locks (rollback_key st k' m) k = (if k = k' \<and> owns m st k then None else m_locks m k)"
    by (auto simp: rollback_key_def owns_def split: option.splits)
  then have "owns (rollback_key st k' m) st k \<longleftrightarrow> k \<noteq> k' \<and> owns m st k"
    by (auto simp: owns_def)
  with l show ?case by (auto simp: Cons.IH)
qed simp

lemma rollback_fold_writes:
  "m_writes (fold (rollback_key st) keys m) (k, t) =
     (if k \<in> set keys \<and> t = st then Some (wr_new st Rollback) else m_writes m (k, t))"
proof (induction keys arbitrary: m)
  case (Cons k' keys)
  have "m_writes (rollback_key st k' m) (k, t) =
      (if k = k' \<and> t = st then Some (wr_new st Rollback) else m_writes m (k, t))"
    by (auto simp: rollback_key_def split: option.splits)
  then show ?case by (auto simp: Cons.IH)
qed simp

text \<open>The newest version of a key a transaction owned and committed is its own.\<close>

lemma commit_fold_visible:
  assumes inv: "si_inv m" and l: "m_locks m k = Some l" "lock_start_ts l = st" "lock_op l \<noteq> Rollback"
    and k: "k \<in> set keys" and ts: "st \<le> ct" "ct \<le> ts"
  shows "visible (fold (commit_key st ct) keys m) k ts ct (wr_new st (lock_op l))"
proof -
  have own: "owns m st k" using l by (auto simp: owns_def)
  have "wr_op r = Rollback" if "m_writes m (k, t) = Some r" "ct < t" for t r
  proof (rule ccontr)
    assume "wr_op r \<noteq> Rollback"
    with that have "committed m k t r" by (simp add: committed_def)
    from si_invD(3) [OF inv l(1) this] l(2) ts that show False by simp
  qed
  with own k l ts show ?thesis
    by (auto simp: visible_def commit_fold_writes)
qed

text \<open>A transaction that prewrote its mutations and committed them reads its writes back at
  every later timestamp.\<close>

lemma laid_commit_read:
  assumes inv: "si_inv m" and laid: "laid st pk ttl m mutation"
    and k: "mutation_key mutation \<in> set keys" and ts: "st \<le> ct" "ct \<le> ts"
  defines "m' \<equiv> fold (commit_key st ct) keys m"
  shows "\<nexists>l. locked_at m' (mutation_key mutation) ts l"
    and "read_result m' (mutation_key mutation) ts (Inr (case mutation of M_Put _ x \<Rightarrow> Some x | M_Delete _ \<Rightarrow> None))"
proof -
  let ?k = "mutation_key mutation"
  have l: "m_locks m ?k = Some (txn_lock st pk ttl mutation)" using laid by (simp add: laid_def)
  then have own: "owns m st ?k" by (simp add: owns_def)
  then show "\<nexists>l. locked_at m' ?k ts l"
    using k by (simp add: m'_def locked_at_def commit_fold_locks)
  have "lock_op (txn_lock st pk ttl mutation) \<noteq> Rollback" by (cases mutation) simp_all
  from commit_fold_visible [OF inv l txn_lock_simps(1) this k ts]
  have v: "visible m' ?k ts ct (wr_new st (mutation_op_type mutation))" by (simp add: m'_def)
  show "read_result m' ?k ts (Inr (case mutation of M_Put _ x \<Rightarrow> Some x | M_Delete _ \<Rightarrow> None))"
  proof (cases mutation)
    case (M_Put k x)
    with laid have "m_vals m' (k, st) = Some x" by (simp add: laid_def m'_def)
    with v M_Put show ?thesis by (auto intro: read_put)
  next
    case (M_Delete k)
    with v show ?thesis by (auto intro: read_deleted)
  qed
qed

end
