(* ===== verification/Storage_Gc.thy ===== *)
theory Storage_Gc
  imports Txn_Reads
begin

text \<open>
  What \<^verbatim>\<open>gc_keys_older_than\<close> of \<^verbatim>\<open>storage/src/engine.rs\<close> removes: of the records of a key
  below the safe point, all but the newest one, each with the value it points to. A read
  at or after the safe point is not affected as long as the record that is kept is not a
  rollback mark and shares its value with no older record.
\<close>

section \<open>The loop over decoded entries\<close>

type_synonym entry = "bytes \<times> u64 \<times> WriteRecord"

definition entries_of :: "(bytes \<times> bytes) list \<Rightarrow> entry list" where
  "entries_of kvs = map (\<lambda>(ek, b). (fst (projr (key_decode ek)), snd (projr (key_decode ek)), the (wr_from_bytes b))) kvs"

fun gc_removed :: "u64 \<Rightarrow> bytes option \<Rightarrow> bool \<Rightarrow> entry list \<Rightarrow> entry list" where
  "gc_removed sp l seen [] = []"
| "gc_removed sp l seen ((k, t, r) # es) =
     (let seen' = (l = Some k \<and> seen) in
      if t < sp then
        if seen' then (k, t, r) # gc_removed sp (Some k) True es else gc_removed sp (Some k) True es
      else gc_removed sp (Some k) seen' es)"

fun gc_ops :: "entry \<Rightarrow> batch" where
  "gc_ops (k, t, r) = [Remove P_Write (key_encode k t), Remove P_Default (key_encode k (wr_start_ts r))]"

lemma gc_scan_removed:
  assumes "yields its kvs" "decodes kvs"
  shows "(\<exists>e. gc_scan sp its l seen b n = Inl (Storage_Fjall e)) \<or>
    gc_scan sp its l seen b n =
      Inr (b @ concat (map gc_ops (gc_removed sp l seen (entries_of kvs))),
           n + length (gc_removed sp l seen (entries_of kvs)))"
  using assms
proof (induction its arbitrary: kvs l seen b n)
  case Nil
  then show ?case by (simp add: entries_of_def)
next
  case (Cons it its)
  show ?case
  proof (cases it)
    case (Inr kv)
    with Cons.prems obtain kvs' where kvs: "kvs = kv # kvs'" "yields its kvs'"
      by (cases kvs) auto
    from Cons.prems(2) kvs obtain ek x k t r where
      d: "kv = (ek, x)" "key_decode ek = Inr (k, t)" "wr_from_bytes x = Some r" "decodes kvs'"
      by (auto elim: decodes_ConsE)
    note IH = Cons.IH [OF kvs(2) d(4)]
    have e: "entries_of kvs = (k, t, r) # entries_of kvs'"
      by (simp add: entries_of_def kvs d)
    show ?thesis
    proof (cases "t < sp \<and> l = Some k \<and> seen")
      case True
      with IH [of "Some k" True "b @ gc_ops (k, t, r)" "n + 1"] Inr d e key_decode_Inr [OF d(2)]
      show ?thesis by simp
    next
      case False
      with IH [of "Some k" "if t < sp then True else l = Some k \<and> seen" b n] Inr d e
      show ?thesis by (auto simp: Let_def split: if_splits)
    qed
  qed simp
qed

text \<open>Entries in the order of a scan: by key, newest version first.\<close>

definition entry_less :: "entry \<Rightarrow> entry \<Rightarrow> bool" where
  "entry_less e e' \<longleftrightarrow> fst e < fst e' \<or> fst e = fst e' \<and> fst (snd e) > fst (snd e')"

lemma gc_removed_iff:
  assumes "sorted_wrt entry_less es" "\<forall>k0. l = Some k0 \<longrightarrow> (\<forall>e \<in> set es. k0 \<le> fst e)"
  shows "(k, t, r) \<in> set (gc_removed sp l seen es) \<longleftrightarrow>
    (k, t, r) \<in> set es \<and> t < sp \<and>
    (l = Some k \<and> seen \<or> (\<exists>t' r'. (k, t', r') \<in> set es \<and> t < t' \<and> t' < sp))"
  using assms
proof (induction es arbitrary: l seen)
  case (Cons e es)
  obtain k1 t1 r1 where e: "e = (k1, t1, r1)" by (cases e)
  have less: "k1 < k' \<or> k1 = k' \<and> t' < t1" if "(k', t', r') \<in> set es" for k' t' r'
    using Cons.prems(1) that by (auto simp: e entry_less_def)
  have IH: "(k, t, r) \<in> set (gc_removed sp (Some k1) seen' es) \<longleftrightarrow>
      (k, t, r) \<in> set es \<and> t < sp \<and>
      (k1 = k \<and> seen' \<or> (\<exists>t' r'. (k, t', r') \<in> set es \<and> t < t' \<and> t' < sp))" for seen'
  proof -
    have "k1 \<le> fst x" if "x \<in> set es" for x
      using less [of "fst x" "fst (snd x)" "snd (snd x)"] that by auto
    with Cons.prems(1) show ?thesis by (subst Cons.IH) auto
  qed
  have later: "l = Some k \<Longrightarrow> (k, t, r) \<in> set es \<Longrightarrow> k1 = k"
    using Cons.prems(2) less by (auto simp: e dest: leD)
  show ?case
    using less [of k t r] later less_trans [of t t1 sp]
    by (auto simp: e IH Let_def dest: less)
qed simp

lemma entries_of_scan:
  assumes "good_keys K" "wf_store K v" "scan_of (v P_Write) [] kvs"
  shows "sorted_wrt entry_less (entries_of kvs)"
    and "(k, t, r) \<in> set (entries_of kvs) \<longleftrightarrow> k \<in> K \<and> m_writes (abs_mvcc v) (k, t) = Some r"
proof -
  have mem: "\<exists>k t r. k \<in> K \<and> ek = key_encode k t \<and> wr_from_bytes b = Some r \<and> m_writes (abs_mvcc v) (k, t) = Some r"
    if "(ek, b) \<in> set kvs" for ek b
  proof -
    have "v P_Write ek = Some b" using assms(3) that by (simp add: scan_of_mem)
    then show ?thesis by (rule wf_write [OF assms(2)]) blast
  qed
  have "sorted_wrt (\<lambda>x y. fst x < fst y) kvs"
    using scan_of_sorted [OF assms(3)] by (simp add: sorted_wrt_map)
  then show "sorted_wrt entry_less (entries_of kvs)"
    unfolding entries_of_def sorted_wrt_map
  proof (rule sorted_wrt_mono_rel [rotated])
    fix x y assume xy: "x \<in> set kvs" "y \<in> set kvs" "fst x < fst y"
    obtain ek b ek' b' where x: "x = (ek, b)" "y = (ek', b')" by (cases x, cases y)
    obtain k t k' t' where k: "k \<in> K" "ek = key_encode k t" "k' \<in> K" "ek' = key_encode k' t'"
      using mem xy(1,2) x by metis
    with xy(3) x have "k < k' \<or> k = k' \<and> t' < t"
      using vk.enc_order [OF good_keysD(1) [OF assms(1)] k(1,3)] by simp
    then show "entry_less ((\<lambda>(ek, b). (fst (projr (key_decode ek)), snd (projr (key_decode ek)), the (wr_from_bytes b))) x)
        ((\<lambda>(ek, b). (fst (projr (key_decode ek)), snd (projr (key_decode ek)), the (wr_from_bytes b))) y)"
      by (simp add: x k entry_less_def)
  qed
  show "(k, t, r) \<in> set (entries_of kvs) \<longleftrightarrow> k \<in> K \<and> m_writes (abs_mvcc v) (k, t) = Some r"
  proof
    assume "(k, t, r) \<in> set (entries_of kvs)"
    then obtain ek b where "(ek, b) \<in> set kvs" "k = fst (projr (key_decode ek))"
        "t = snd (projr (key_decode ek))" "r = the (wr_from_bytes b)"
      by (auto simp: entries_of_def)
    with mem show "k \<in> K \<and> m_writes (abs_mvcc v) (k, t) = Some r" by fastforce
  next
    assume *: "k \<in> K \<and> m_writes (abs_mvcc v) (k, t) = Some r"
    then obtain b where b: "v P_Write (key_encode k t) = Some b" "wr_from_bytes b = Some r"
      by (auto simp: m_writes_abs typed_def bind_eq_Some_conv)
    then have "(key_encode k t, b) \<in> set kvs" using assms(3) by (simp add: scan_of_mem)
    with b show "(k, t, r) \<in> set (entries_of kvs)" by (force simp: entries_of_def)
  qed
qed

section \<open>The effect on the store\<close>

text \<open>The record is below the safe point and not the newest one there.\<close>

definition stale :: "mvcc \<Rightarrow> u64 \<Rightarrow> bytes \<Rightarrow> u64 \<Rightarrow> bool" where
  "stale m sp k t \<longleftrightarrow> t < sp \<and> (\<exists>t' r'. m_writes m (k, t') = Some r' \<and> t < t' \<and> t' < sp)"

definition collect :: "u64 \<Rightarrow> mvcc \<Rightarrow> mvcc" where
  "collect sp m = m
     \<lparr>m_writes := (\<lambda>(k, t). if stale m sp k t then None else m_writes m (k, t)),
      m_vals := (\<lambda>(k, st). if \<exists>t r. m_writes m (k, t) = Some r \<and> stale m sp k t \<and> wr_start_ts r = st
                            then None else m_vals m (k, st))\<rparr>"

lemma abs_gc_ops:
  "abs_mvcc (apply_batch (gc_ops (k, t, r)) v) = drop_value k (wr_start_ts r) (drop_version k t (abs_mvcc v))"
  by (auto simp: abs_mvcc_def drop_value_def drop_version_def typed_def fun_eq_iff)

lemma wf_gc_ops: "wf_store K v \<Longrightarrow> wf_store K (apply_batch (gc_ops e) v)"
  by (cases e) (simp only: gc_ops.simps apply_batch_Cons apply_batch_Nil wf_remove_write wf_remove_val)

definition drop_entry :: "entry \<Rightarrow> mvcc \<Rightarrow> mvcc" where
  "drop_entry e m = drop_value (fst e) (wr_start_ts (snd (snd e))) (drop_version (fst e) (fst (snd e)) m)"

lemma apply_gc:
  "wf_store K v \<Longrightarrow> wf_store K (apply_batch (concat (map gc_ops es)) v) \<and>
   abs_mvcc (apply_batch (concat (map gc_ops es)) v) = fold drop_entry es (abs_mvcc v)"
proof (induction es arbitrary: v)
  case (Cons e es)
  have "abs_mvcc (apply_batch (gc_ops e) v) = drop_entry e (abs_mvcc v)"
    by (cases e) (simp only: abs_gc_ops drop_entry_def fst_conv snd_conv)
  with Cons.IH [OF wf_gc_ops [OF Cons.prems], of e] show ?case by simp
qed simp

lemma drop_entry_steps: "mvcc_steps m (drop_entry e m)"
  unfolding drop_entry_def
  by (rule rtranclp_trans [OF mvcc_steps_one mvcc_steps_one]) (rule step_drop_version step_drop_value)+

lemma fold_drop_steps: "mvcc_steps m (fold drop_entry es m)"
proof (induction es arbitrary: m)
  case (Cons e es)
  then show ?case using drop_entry_steps by (metis fold_simps(2) rtranclp_trans)
qed simp

lemma fold_drop_entry:
  "m_locks (fold drop_entry es m) = m_locks m"
  "m_writes (fold drop_entry es m) (k, t) = (if \<exists>r. (k, t, r) \<in> set es then None else m_writes m (k, t))"
  "m_vals (fold drop_entry es m) (k, st) =
     (if \<exists>t r. (k, t, r) \<in> set es \<and> wr_start_ts r = st then None else m_vals m (k, st))"
proof (induction es arbitrary: m)
  case (Cons e es)
  obtain k' t' r' where e: "e = (k', t', r')" by (cases e)
  { case 1 show ?case by (simp only: fold_simps Cons.IH) (simp add: drop_entry_def) }
  { case 2 show ?case by (simp only: fold_simps Cons.IH) (auto simp: drop_entry_def e) }
  { case 3
    have "m_vals (drop_entry e m) (k, st) = (if k = k' \<and> st = wr_start_ts r' then None else m_vals m (k, st))"
      by (simp add: drop_entry_def e)
    then show ?case by (simp only: fold_simps Cons.IH) (auto simp: e) }
qed simp_all

section \<open>Reads after collection\<close>

definition newest_below :: "mvcc \<Rightarrow> u64 \<Rightarrow> bytes \<Rightarrow> u64 \<Rightarrow> WriteRecord \<Rightarrow> bool" where
  "newest_below m sp k t r \<longleftrightarrow> m_writes m (k, t) = Some r \<and> t < sp \<and>
     (\<forall>t'. m_writes m (k, t') \<noteq> None \<and> t' < sp \<longrightarrow> t' \<le> t)"

definition own_values :: "mvcc \<Rightarrow> bytes \<Rightarrow> bool" where
  "own_values m k \<longleftrightarrow> (\<forall>t r t' r'. m_writes m (k, t) = Some r \<and> m_writes m (k, t') = Some r' \<and>
     wr_start_ts r = wr_start_ts r' \<longrightarrow> t = t')"

lemma stale_newest:
  assumes "stale m sp k t"
  obtains t' r' where "newest_below m sp k t' r'" "t < t'" "\<not> stale m sp k t'"
proof -
  let ?T = "{t'. m_writes m (k, t') \<noteq> None \<and> t' < sp}"
  obtain u where u: "u \<in> ?T" "t < u" using assms by (auto simp: stale_def)
  have fin: "finite ?T" by simp
  have max: "Max ?T \<in> ?T" using Max_in [OF fin] u(1) by blast
  then obtain r where r: "m_writes m (k, Max ?T) = Some r" by auto
  have ge: "t' \<le> Max ?T" if "t' \<in> ?T" for t' using Max_ge [OF fin that] .
  show ?thesis
  proof (rule that)
    show "newest_below m sp k (Max ?T) r" using r max ge by (simp add: newest_below_def)
    show "t < Max ?T" using u(2) ge [OF u(1)] by (rule less_le_trans)
    show "\<not> stale m sp k (Max ?T)"
    proof
      assume "stale m sp k (Max ?T)"
      then obtain w where "w \<in> ?T" "Max ?T < w" by (auto simp: stale_def)
      with ge show False by (meson leD)
    qed
  qed
qed

lemma m_collect [simp]:
  "m_locks (collect sp m) = m_locks m"
  "m_writes (collect sp m) (k, t) = (if stale m sp k t then None else m_writes m (k, t))"
  by (simp_all add: collect_def)

lemma visible_collect:
  assumes sp: "sp \<le> ts" and top: "\<And>t r. newest_below m sp k t r \<Longrightarrow> wr_op r \<noteq> Rollback"
  shows "visible (collect sp m) k ts = visible m k ts"
proof (intro ext iffI)
  fix t r
  assume v: "visible m k ts t r"
  have "\<not> stale m sp k t"
  proof
    assume "stale m sp k t"
    then obtain t' r' where n: "newest_below m sp k t' r'" "t < t'" by (rule stale_newest)
    then have "t' \<le> ts" using sp by (auto simp: newest_below_def)
    with v n have "wr_op r' = Rollback" by (auto simp: visible_def newest_below_def)
    with top n(1) show False by blast
  qed
  with v show "visible (collect sp m) k ts t r" by (auto simp: visible_def split: if_splits)
next
  fix t r
  assume v: "visible (collect sp m) k ts t r"
  have "wr_op r' = Rollback" if r': "m_writes m (k, t') = Some r'" "t < t'" "t' \<le> ts" for t' r'
  proof (cases "stale m sp k t'")
    case True
    then obtain u q where n: "newest_below m sp k u q" "t' < u" "\<not> stale m sp k u" by (rule stale_newest)
    then have "u \<le> ts" "t < u" using sp r' by (auto simp: newest_below_def)
    moreover have "m_writes (collect sp m) (k, u) = Some q"
      using n by (simp add: newest_below_def)
    ultimately have "wr_op q = Rollback" using v unfolding visible_def by blast
    with top n(1) show ?thesis by blast
  next
    case False
    with r' have "m_writes (collect sp m) (k, t') = Some r'" by simp
    with v r' show ?thesis unfolding visible_def by blast
  qed
  with v show "visible m k ts t r" by (auto simp: visible_def split: if_splits)
qed

lemma collect_read:
  assumes "sp \<le> ts" "\<And>t r. newest_below m sp k t r \<Longrightarrow> wr_op r \<noteq> Rollback" "own_values m k"
  shows "read_result (collect sp m) k ts x \<longleftrightarrow> read_result m k ts x"
proof -
  have v: "visible (collect sp m) k ts = visible m k ts"
    using assms(1,2) by (rule visible_collect)
  have vals: "m_vals (collect sp m) (k, wr_start_ts r) = m_vals m (k, wr_start_ts r)"
    if "visible m k ts t r" for t r
  proof -
    have "\<not> stale m sp k t'" if "m_writes m (k, t') = Some r'" "wr_start_ts r' = wr_start_ts r" for t' r'
    proof -
      have "visible (collect sp m) k ts t r" using \<open>visible m k ts t r\<close> by (simp only: v)
      then have "\<not> stale m sp k t" "m_writes m (k, t) = Some r"
        by (auto simp: visible_def split: if_splits)
      with that assms(3) show ?thesis unfolding own_values_def by metis
    qed
    then show ?thesis by (auto simp: collect_def)
  qed
  show ?thesis
    using read_result_transfer [of m k ts x "collect sp m"] read_result_transfer [of "collect sp m" k ts x m] v vals
    by metis
qed

section \<open>Running the collector\<close>

lemma m_writes_keys:
  assumes "wf_store K v" "m_writes (abs_mvcc v) (k, t) = Some w"
  shows "k \<in> K"
proof -
  from assms(2) obtain b where "v P_Write (key_encode k t) = Some b"
    by (auto simp: m_writes_abs typed_def bind_eq_Some_conv)
  then show ?thesis by (rule wf_write [OF assms(1)]) simp
qed

lemma gc_removed_collect:
  assumes K: "good_keys K" "wf_store K v" and sc: "scan_of (v P_Write) [] kvs"
  shows "fold drop_entry (gc_removed sp None False (entries_of kvs)) (abs_mvcc v) = collect sp (abs_mvcc v)"
proof -
  let ?m = "abs_mvcc v" and ?es = "gc_removed sp None False (entries_of kvs)"
  note ent = entries_of_scan [OF K sc]
  have es: "(k, t, w) \<in> set ?es \<longleftrightarrow> m_writes ?m (k, t) = Some w \<and> stale ?m sp k t" for k t w
    by (subst gc_removed_iff [OF ent(1)]) (auto simp: ent(2) stale_def dest: m_writes_keys [OF K(2)])
  show ?thesis
  proof (rule mvcc.equality)
    show "m_writes (fold drop_entry ?es ?m) = m_writes (collect sp ?m)"
      by (auto simp: fun_eq_iff fold_drop_entry(2) es collect_def)
    show "m_vals (fold drop_entry ?es ?m) = m_vals (collect sp ?m)"
      by (auto simp: fun_eq_iff fold_drop_entry(3) es collect_def)
  qed (simp_all add: fold_drop_entry(1) collect_def)
qed

context fjall
begin

lemma gc_cases:
  assumes run: "gc_keys_older_than E sp s = (r, s')" and K: "good_keys K" "wf_store K (view s)"
  obtains (io) e where "r = Inl (Storage_Fjall e)" "view s' = view s"
    | (ok) n where "r = Inr n" "wf_store K (view s')" "abs_mvcc (view s') = collect sp (abs_mvcc (view s))"
        "mvcc_steps (abs_mvcc (view s)) (abs_mvcc (view s'))"
proof -
  let ?m = "abs_mvcc (view s)"
  obtain its s1 where it: "fj_iter E P_Write s = (its, s1)" by force
  obtain kvs where kvs: "yields its kvs" "scan_of (view s P_Write) [] kvs"
    using iter_yields [OF it] by blast
  note v1 = iter_keeps [OF it]
  let ?es = "gc_removed sp None False (entries_of kvs)"
  note col = gc_removed_collect [OF K kvs(2), of sp]
  from gc_scan_removed [OF kvs(1) scan_of_decodes [OF K(2) kvs(2)], of sp None False "[]" 0]
  consider (io') e where "gc_scan sp its None False [] 0 = Inl (Storage_Fjall e)"
    | (scan) "gc_scan sp its None False [] 0 = Inr (concat (map gc_ops ?es), length ?es)"
    by auto
  then show ?thesis
  proof cases
    case io'
    with run it v1 show ?thesis by (intro io [of e]) (auto simp: gc_keys_older_than_def)
  next
    case scan
    show ?thesis
    proof (cases "?es = []")
      case True
      with scan run it have "r = Inr 0" "s' = s1" by (auto simp: gc_keys_older_than_def)
      moreover have "collect sp ?m = ?m" by (subst col [symmetric]) (simp add: True)
      ultimately show ?thesis using v1 K by (intro ok [of 0]) simp_all
    next
      case False
      obtain c s2 where c: "commit_batch E (concat (map gc_ops ?es)) s1 = (c, s2)" by force
      have rs: "s' = s2" "r = (case c of Inl e \<Rightarrow> Inl e | Inr _ \<Rightarrow> Inr (length ?es))"
        using scan run it False c by (auto simp: gc_keys_older_than_def split: sum.splits)
      from c show ?thesis
      proof (cases rule: commit_batch_cases)
        case okc: ok
        with rs apply_gc [OF K(2), of ?es] col fold_drop_steps [of ?m ?es] v1 show ?thesis
          by (intro ok [of "length ?es"]) simp_all
      next
        case (io e)
        with rs v1 that(1) show ?thesis by simp
      qed
    qed
  qed
qed

lemma gc_runs: "gc_keys_older_than E sp s = (r, s') \<Longrightarrow> good_keys K \<Longrightarrow> runs K (view s) (view s')"
  unfolding runs_def by (metis gc_cases rtranclp.rtrancl_refl)

end


section \<open>Properties of the collector\<close>


text \<open>Two versions of the key 1, committed at 10 and 20, and a newer one at 40.\<close>

definition versions_db :: mem_db where
  "versions_db = (mem_init [])\<lparr>m_parts := (\<lambda>p. case p of
     P_Write \<Rightarrow> [(key_encode [1] 10, wr_to_bytes (wr_new 9 Put)), (key_encode [1] 20, wr_to_bytes (wr_new 19 Put)),
                 (key_encode [1] 40, wr_to_bytes (wr_new 39 Put))]
   | P_Default \<Rightarrow> [(key_encode [1] 9, [1]), (key_encode [1] 19, [2]), (key_encode [1] 39, [3])]
   | P_Lock \<Rightarrow> [])\<rparr>"

lemma versions_db_ok: "wf_store (set [[1], [2]]) (mem_view versions_db)"
  by (rule wf_mem) code_simp

lemma versions_db_state:
  "m_writes (abs_mvcc (mem_view versions_db)) (k, t) =
     (if k = [1] \<and> t = 10 then Some (wr_new 9 Put) else if k = [1] \<and> t = 20 then Some (wr_new 19 Put)
      else if k = [1] \<and> t = 40 then Some (wr_new 39 Put) else None)"
  by (auto simp: abs_mvcc_def mem_view_def versions_db_def typed_def)


text \<open>C36. Garbage collection keeps reads: a read at or after the safe point, of a key whose newest
  version below the safe point is not a rollback mark and whose versions have values of their
  own, returns the same before and after, also when the engine fails under the collector; no
  lock changes.\<close>

theorem gc_keeps_reads:
  assumes "fjall E view" "good_keys K" "wf_store K (view s)" "gc_keys_older_than E sp s = (r, s')"
    and "sp \<le> ts" "\<And>t w. newest_below (abs_mvcc (view s)) sp k t w \<Longrightarrow> wr_op w \<noteq> Rollback"
    and "own_values (abs_mvcc (view s)) k"
  shows "(read_result (abs_mvcc (view s')) k ts x \<longleftrightarrow> read_result (abs_mvcc (view s)) k ts x) \<and>
    m_locks (abs_mvcc (view s')) = m_locks (abs_mvcc (view s))"
proof -
  have "view s' = view s \<or> abs_mvcc (view s') = collect sp (abs_mvcc (view s))"
    by (rule fjall.gc_cases [OF assms(1,4,2,3)]) blast+
  with collect_read [OF assms(5-7)] show ?thesis by (auto simp: collect_def)
qed

theorem gc_keeps_reads_witness:
  "read_result (abs_mvcc (mem_view (snd (gc_keys_older_than mem_env 30 versions_db)))) [1] 35 (Inr (Some [2])) \<longleftrightarrow>
   read_result (abs_mvcc (mem_view versions_db)) [1] 35 (Inr (Some [2]))"
  by (rule gc_keeps_reads [OF mem.fjall_axioms two_keys versions_db_ok surjective_pairing, THEN conjunct1])
     (auto simp: newest_below_def own_values_def versions_db_state split: if_splits)

end
