(* ===== verification/Txn_Scan.thy ===== *)
theory Txn_Scan
  imports Storage_Gc
begin

text \<open>
  Range scans through the coordinator. A scan is a run of the state machine whatever it
  meets; on a range without locks at or before its timestamp it returns the visible pairs
  of the range in key order, cut to the limit. The start key has to be empty, a key of the
  store or unrelated to the stored keys by the prefix order: the seek position is the
  encoding of the start key, which sorts after the encodings of some of its extensions.
\<close>

section \<open>Scans as runs\<close>

definition keys_in :: "bytes set \<Rightarrow> (bytes \<times> bytes) list \<Rightarrow> bool" where
  "keys_in K kvs \<longleftrightarrow> (\<forall>(ek, b) \<in> set kvs. \<exists>k \<in> K. \<exists>t. ek = key_encode k t)"

lemma keys_in_Cons:
  assumes "keys_in K (kv # kvs)"
  obtains k t b where "kv = (key_encode k t, b)" "k \<in> K" "keys_in K kvs"
  using assms by (cases kv) (auto simp: keys_in_def)

lemma scan_of_keys_in:
  assumes "wf_store K v" "scan_of (v P_Write) lo kvs"
  shows "keys_in K kvs"
proof -
  have "\<exists>k \<in> K. \<exists>t. ek = key_encode k t" if "(ek, b) \<in> set kvs" for ek b
  proof -
    have "v P_Write ek = Some b" using assms(2) that by (simp add: scan_of_mem)
    then show ?thesis by (rule wf_write [OF assms(1)]) blast
  qed
  then show ?thesis by (auto simp: keys_in_def)
qed

context fjall
begin

lemma scan_loop_runs:
  assumes "scan_loop E a b lim ts its last_seen res s = (r, s')" "yields its kvs" "keys_in K kvs" "good_keys K"
  shows "runs K (view s) (view s')"
  using assms
proof (induction its arbitrary: kvs last_seen res s)
  case (Cons it its)
  show ?case
  proof (cases it)
    case (Inr kv)
    with Cons.prems(2) obtain kvs' where kvs: "kvs = kv # kvs'" "yields its kvs'"
      by (cases kvs) auto
    obtain k t x where k: "kv = (key_encode k t, x)" "k \<in> K" "keys_in K kvs'"
      using Cons.prems(3) kvs(1) by (auto elim: keys_in_Cons)
    note IH = Cons.IH [OF _ kvs(2) k(3) Cons.prems(4)]
    obtain g s1 where g: "coord_get E k ts s = (g, s1)" by force
    have one: "runs K (view s) (view s1)" by (rule coord_get_runs [OF g Cons.prems(4) k(2)])
    have rest: "runs K (view s) (view s')" if "scan_loop E a b lim ts its l res' s1 = (r, s')" for l res'
      by (rule runs_trans [OF one IH [OF that]])
    from Cons.prems(1) Inr k(1) g IH rest one show ?thesis
      by (auto simp: Let_def split: if_splits sum.splits option.splits)
  qed (use Cons.prems in simp)
qed simp

lemma coord_scan_runs:
  assumes run: "coord_scan E a b lim ts s = (r, s')" and K: "good_keys K"
  shows "runs K (view s) (view s')"
proof -
  obtain its s1 where rng: "fj_range_from E P_Write (if a = [] then [] else key_encode a ts) s = (its, s1)"
    by force
  obtain kvs where kvs: "yields its kvs" "scan_of (view s P_Write) (if a = [] then [] else key_encode a ts) kvs"
    using range_yields [OF rng] by blast
  have "scan_loop E a b lim ts its None [] s1 = (r, s')"
    using run rng by (simp add: coord_scan_def)
  from scan_loop_runs [OF this kvs(1) _ K] range_keeps [OF rng] scan_of_keys_in [where v = "view s", OF _ kvs(2)]
  show ?thesis by (auto simp: runs_def)
qed

end

section \<open>Scans of an unlocked range\<close>

text \<open>The pairs a scan meets, for keys in scan order and given what a read of each returns.\<close>

fun scan_pairs :: "bytes \<Rightarrow> bytes \<Rightarrow> (bytes \<Rightarrow> bytes option) \<Rightarrow> bytes list \<Rightarrow> bytes option \<Rightarrow> (bytes \<times> bytes) list" where
  "scan_pairs a b rd [] l = []"
| "scan_pairs a b rd (k # ks) l =
     (if outside_range a b k \<or> l = Some k then scan_pairs a b rd ks l
      else (case rd k of None \<Rightarrow> [] | Some x \<Rightarrow> [(k, x)]) @ scan_pairs a b rd ks (Some k))"

definition cut :: "u32 \<Rightarrow> 'a list \<Rightarrow> 'a list" where
  "cut lim xs = (if lim = 0 then xs else take (unat lim) xs)"

lemma scan_pairs_outside: "\<forall>k \<in> set ks. outside_range a b k \<Longrightarrow> scan_pairs a b rd ks l = []"
  by (induction ks arbitrary: l) auto

lemma scan_pairs_mem:
  assumes "sorted ks" "\<forall>k0. l = Some k0 \<longrightarrow> (\<forall>k' \<in> set ks. k0 \<le> k')"
  shows "(k, x) \<in> set (scan_pairs a b rd ks l) \<longleftrightarrow>
    k \<in> set ks \<and> \<not> outside_range a b k \<and> rd k = Some x \<and> l \<noteq> Some k"
  using assms
proof (induction ks arbitrary: l)
  case (Cons k1 ks)
  have 1: "(k, x) \<in> set (scan_pairs a b rd ks l) \<longleftrightarrow>
      k \<in> set ks \<and> \<not> outside_range a b k \<and> rd k = Some x \<and> l \<noteq> Some k"
    using Cons.prems by (intro Cons.IH) auto
  have 2: "(k, x) \<in> set (scan_pairs a b rd ks (Some k1)) \<longleftrightarrow>
      k \<in> set ks \<and> \<not> outside_range a b k \<and> rd k = Some x \<and> k1 \<noteq> k"
    using Cons.prems by (subst Cons.IH) auto
  have 3: "l \<noteq> Some k" if "k \<in> set ks" "l \<noteq> Some k1" "k1 \<noteq> k"
    using Cons.prems that by force
  show ?case
    using 1 2 3 by (cases "rd k1") auto
qed simp

lemma scan_pairs_sorted:
  assumes "sorted ks" "\<forall>k0. l = Some k0 \<longrightarrow> (\<forall>k' \<in> set ks. k0 \<le> k')"
  shows "sorted_wrt (<) (map fst (scan_pairs a b rd ks l))"
  using assms
proof (induction ks arbitrary: l)
  case (Cons k1 ks)
  have 1: "sorted_wrt (<) (map fst (scan_pairs a b rd ks l))"
    using Cons.prems by (intro Cons.IH) auto
  have 2: "sorted_wrt (<) (map fst (scan_pairs a b rd ks (Some k1)))"
    using Cons.prems by (intro Cons.IH) auto
  have "k1 < k" if "(k, x) \<in> set (scan_pairs a b rd ks (Some k1))" for k x
  proof -
    have "k \<in> set ks \<and> Some k1 \<noteq> Some k"
      using that Cons.prems by (subst (asm) scan_pairs_mem) auto
    then show ?thesis using Cons.prems(1) by auto
  qed
  with 1 2 show ?case by (auto split: option.split)
qed simp

context fjall
begin

text \<open>On a range whose reads all succeed without a change, the loop computes \<open>scan_pairs\<close>.\<close>

lemma scan_loop_pairs:
  assumes reads: "\<And>k s1. k \<in> fst ` set es \<Longrightarrow> \<not> outside_range a b k \<Longrightarrow> view s1 = v \<Longrightarrow>
      \<exists>s2. coord_get E k ts s1 = (Inr (rd k), s2) \<and> view s2 = v"
    and "view s = v" "sorted (map fst es)" "lim = 0 \<or> length res < unat lim"
  shows "\<exists>s'. scan_loop E a b lim ts (map (\<lambda>(k, t, x). Inr (key_encode k t, x)) es) l res s =
    (Inr (cut lim (res @ scan_pairs a b rd (map fst es) l)), s') \<and> view s' = v"
  using assms
proof (induction es arbitrary: l res s)
  case Nil
  then show ?case by (auto simp: cut_def)
next
  case (Cons e es)
  obtain k t x where e: "e = (k, t, x)" by (cases e)
  have IH: "\<exists>s'. scan_loop E a b lim ts (map (\<lambda>(k, t, x). Inr (key_encode k t, x)) es) l res s =
      (Inr (cut lim (res @ scan_pairs a b rd (map fst es) l)), s') \<and> view s' = v"
    if "view s = v" "lim = 0 \<or> length res < unat lim" for l res s
    by (rule Cons.IH) (use Cons.prems that in auto)
  show ?case
  proof (cases "outside_range a b k \<or> l = Some k")
    case True
    show ?thesis
    proof (cases "\<not> (a \<noteq> [] \<and> k < a) \<and> b \<noteq> [] \<and> b \<le> k")
      case end_reached: True
      then have "\<forall>k' \<in> set (k # map fst es). outside_range a b k'"
        using Cons.prems(3) by (auto simp: e outside_range_def)
      with Cons.prems(2,4) end_reached show ?thesis
        using scan_pairs_outside [of "k # map fst es" a b rd l] by (auto simp: e cut_def)
    next
      case False
      with True IH [OF Cons.prems(2,4), of l] show ?thesis
        by (auto simp: e outside_range_def)
    qed
  next
    case False
    then obtain s2 where g: "coord_get E k ts s = (Inr (rd k), s2)" "view s2 = v"
      using Cons.prems(1) [of k s] Cons.prems(2) by (auto simp: e)
    from False have guard: "\<not> (a \<noteq> [] \<and> k < a)" "\<not> (b \<noteq> [] \<and> b \<le> k)" "l \<noteq> Some k"
      by (auto simp: outside_range_def)
    show ?thesis
    proof (cases "rd k")
      case None
      with False g guard IH [OF g(2) Cons.prems(4), of "Some k"] show ?thesis by (auto simp: e)
    next
      case (Some y)
      show ?thesis
      proof (cases "0 < lim \<and> unat lim \<le> length res + 1")
        case True
        with Cons.prems(4) have "unat lim = length res + 1" "lim \<noteq> 0" by (auto simp: word_greater_zero_iff)
        with Some False g guard True show ?thesis by (auto simp: e cut_def)
      next
        case cont: False
        then have "lim = 0 \<or> length (res @ [(k, y)]) < unat lim"
          by (auto simp: word_greater_zero_iff)
        from IH [OF g(2) this, of "Some k"] Some False g guard cont show ?thesis by (auto simp: e)
      qed
    qed
  qed
qed

end

text \<open>The pairs of a range visible at a timestamp.\<close>

definition range_pairs :: "mvcc \<Rightarrow> u64 \<Rightarrow> bytes \<Rightarrow> bytes \<Rightarrow> (bytes \<times> bytes) list \<Rightarrow> bool" where
  "range_pairs m ts a b ps \<longleftrightarrow> sorted_wrt (<) (map fst ps) \<and>
     (\<forall>k x. (k, x) \<in> set ps \<longleftrightarrow> \<not> outside_range a b k \<and> read_result m k ts (Inr (Some x)))"

text \<open>No read of a key in the range meets a lock or a lost value.\<close>

definition readable :: "mvcc \<Rightarrow> u64 \<Rightarrow> bytes \<Rightarrow> bytes \<Rightarrow> bool" where
  "readable m ts a b \<longleftrightarrow> (\<forall>k. \<not> outside_range a b k \<longrightarrow>
     (\<nexists>l. locked_at m k ts l) \<and> \<not> read_result m k ts (Inl CorruptedState))"

lemma read_result_cases: "read_result m k ts x \<Longrightarrow> x = Inl CorruptedState \<or> (\<exists>y. x = Inr y)"
  by (auto elim: read_result.cases)

lemma read_result_SomeD: "read_result m k ts (Inr (Some x)) \<Longrightarrow> \<exists>t r. visible m k ts t r"
  by (elim read_result_SomeE) blast

lemma read_result_ex: "\<exists>x. read_result m k ts x"
proof (cases "\<exists>t r. visible m k ts t r")
  case True
  then obtain t r where v: "visible m k ts t r" by blast
  then have "wr_op r \<noteq> Rollback" by (simp add: visible_def)
  with v show ?thesis
    by (cases "wr_op r"; cases "m_vals m (k, wr_start_ts r)") (auto intro: read_result.intros)
qed (auto intro: read_absent)

text \<open>The entries of a scan, decoded.\<close>

lemma keys_in_decoded:
  assumes "keys_in K kvs"
  obtains es where "kvs = map (\<lambda>(k, t, x). (key_encode k t, x)) es" "fst ` set es \<subseteq> K"
proof -
  have "\<exists>es. kvs = map (\<lambda>(k, t, x). (key_encode k t, x)) es \<and> fst ` set es \<subseteq> K"
    using assms
  proof (induction kvs)
    case (Cons kv kvs)
    obtain k t b where k: "kv = (key_encode k t, b)" "k \<in> K" "keys_in K kvs"
      using Cons.prems by (rule keys_in_Cons)
    from Cons.IH [OF k(3)] obtain es where
      "kvs = map (\<lambda>(k, t, x). (key_encode k t, x)) es \<and> fst ` set es \<subseteq> K" by blast
    with k show ?case by (intro exI [of _ "(k, t, b) # es"]) simp
  qed simp
  with that show ?thesis by blast
qed

lemma decoded_sorted:
  assumes "prefix_free K" "fst ` set es \<subseteq> K"
    and "sorted_wrt (<) (map fst (map (\<lambda>(k, t, x). (key_encode k t, x)) es))"
  shows "sorted (map fst es)"
  using assms(2,3)
proof (induction es)
  case (Cons e es)
  obtain k t x where e: "e = (k, t, x)" by (cases e)
  have "k \<le> k'" if "(k', t', x') \<in> set es" for k' t' x'
  proof -
    have "key_encode k t < key_encode k' t'" using Cons.prems(2) that by (force simp: e)
    moreover have "k \<in> K" "k' \<in> K" using Cons.prems(1) that by (force simp: e)+
    ultimately show ?thesis using vk.enc_order [OF assms(1)] by auto
  qed
  with Cons show ?case by (auto simp: e)
qed simp

text \<open>The answers of the reads in a readable range.\<close>

lemma readable_answers:
  assumes "readable m ts a b"
  obtains f where "\<And>k y. \<not> outside_range a b k \<Longrightarrow> read_result m k ts (Inr y) \<longleftrightarrow> y = f k"
proof -
  have "\<exists>y. read_result m k ts (Inr y)" if "\<not> outside_range a b k" for k
  proof -
    obtain x where x: "read_result m k ts x" using read_result_ex by blast
    moreover from x assms that have "x \<noteq> Inl CorruptedState" by (auto simp: readable_def)
    ultimately show ?thesis using read_result_cases by blast
  qed
  then obtain f where "\<And>k. \<not> outside_range a b k \<Longrightarrow> read_result m k ts (Inr (f k))" by metis
  then show ?thesis using that read_result_unique by blast
qed

text \<open>A visible key of the range has an entry at or after the position the scan starts from.\<close>

lemma visible_after_start:
  assumes "a = [] \<or> prefix_free (insert a K)" "k \<in> K" "\<not> outside_range a b k" "t \<le> ts"
  shows "(if a = [] then [] else key_encode a ts) \<le> key_encode k t"
proof (cases "a = [] \<or> a = k")
  case True
  with assms(4) show ?thesis by (auto simp: key_encode_le)
next
  case False
  with assms(3) have "a < k" by (auto simp: outside_range_def)
  with False assms(1,2) vk.enc_order [of "insert a K" a k ts t] show ?thesis by auto
qed

lemma scan_meets_visible:
  assumes wf: "wf_store K v" and a: "a = [] \<or> prefix_free (insert a K)"
    and sc: "scan_of (v P_Write) (if a = [] then [] else key_encode a ts) (map (\<lambda>(k, t, x). (key_encode k t, x)) es)"
    and k: "\<not> outside_range a b k" "read_result (abs_mvcc v) k ts (Inr (Some x))"
  shows "k \<in> fst ` set es"
proof -
  obtain t r where vis: "visible (abs_mvcc v) k ts t r" using read_result_SomeD [OF k(2)] by blast
  then obtain y where y: "v P_Write (key_encode k t) = Some y"
    by (auto simp: visible_def m_writes_abs typed_def bind_eq_Some_conv)
  then have "k \<in> K" by (rule wf_write [OF wf]) simp
  with a k(1) vis have "(if a = [] then [] else key_encode a ts) \<le> key_encode k t"
    by (intro visible_after_start) (auto simp: visible_def)
  with y scan_of_mem [OF sc, of "key_encode k t" y] show ?thesis by force
qed

lemma scan_pairs_range:
  assumes sorted: "sorted (map fst es)"
    and f: "\<And>k y. \<not> outside_range a b k \<Longrightarrow> read_result m k ts (Inr y) \<longleftrightarrow> y = f k"
    and stored: "\<And>k x. \<not> outside_range a b k \<Longrightarrow> read_result m k ts (Inr (Some x)) \<Longrightarrow> k \<in> fst ` set es"
  shows "range_pairs m ts a b (scan_pairs a b f (map fst es) None)"
  unfolding range_pairs_def
proof (intro conjI allI)
  show "sorted_wrt (<) (map fst (scan_pairs a b f (map fst es) None))"
    by (rule scan_pairs_sorted [OF sorted]) simp
  fix k x
  have "(k, x) \<in> set (scan_pairs a b f (map fst es) None) \<longleftrightarrow>
      k \<in> fst ` set es \<and> \<not> outside_range a b k \<and> f k = Some x"
    by (subst scan_pairs_mem [OF sorted]) auto
  also have "\<dots> \<longleftrightarrow> \<not> outside_range a b k \<and> read_result m k ts (Inr (Some x))"
    using f [of k "Some x"] stored [of k x] by auto
  finally show "(k, x) \<in> set (scan_pairs a b f (map fst es) None) \<longleftrightarrow>
      \<not> outside_range a b k \<and> read_result m k ts (Inr (Some x))" .
qed

context fjall_reliable
begin

lemma coord_scan_correct:
  assumes K: "good_keys K" "wf_store K (view s)"
    and a: "a = [] \<or> prefix_free (insert a K)" and rd: "readable (abs_mvcc (view s)) ts a b"
  obtains ps s' where "coord_scan E a b lim ts s = (Inr (cut lim ps), s')" "view s' = view s"
    "range_pairs (abs_mvcc (view s)) ts a b ps"
proof -
  let ?lo = "if a = [] then [] else key_encode a ts"
  obtain kvs s1 where rng: "fj_range_from E P_Write ?lo s = (map Inr kvs, s1)"
      "scan_of (view s P_Write) ?lo kvs" "view s1 = view s"
    by (rule range_reliable)
  obtain es where es: "kvs = map (\<lambda>(k, t, x). (key_encode k t, x)) es" "fst ` set es \<subseteq> K"
    by (rule keys_in_decoded [OF scan_of_keys_in [where v = "view s", OF K(2) rng(2)]])
  have sorted: "sorted (map fst es)"
    using decoded_sorted [OF good_keysD(1) [OF K(1)] es(2)] scan_of_sorted [OF rng(2)] es(1) by simp
  from rd obtain f where
    f: "\<And>k y. \<not> outside_range a b k \<Longrightarrow> read_result (abs_mvcc (view s)) k ts (Inr y) \<longleftrightarrow> y = f k"
    by (rule readable_answers) blast
  have get: "\<exists>s3. coord_get E k ts s2 = (Inr (f k), s3) \<and> view s3 = view s"
    if k: "k \<in> fst ` set es" "\<not> outside_range a b k" and v: "view s2 = view s" for k s2
  proof -
    have k': "k \<in> K" "wf_store K (view s2)" "\<nexists>l. locked_at (abs_mvcc (view s2)) k ts l"
      using k es(2) K(2) rd by (auto simp: v readable_def)
    obtain x s3 where x: "coord_get E k ts s2 = (map_sum Txn_Mvcc id x, s3)" "view s3 = view s2"
        "read_result (abs_mvcc (view s2)) k ts x"
      by (rule coord_get_unlocked [OF K(1) k'])
    then have "x = Inr (f k)" using read_result_unique f [OF k(2), of "f k"] v by metis
    with x v show ?thesis by simp
  qed
  let ?ps = "scan_pairs a b f (map fst es) None"
  have lim: "lim = 0 \<or> length ([] :: (bytes \<times> bytes) list) < unat lim" by (simp add: unat_gt_0)
  obtain s' where run: "scan_loop E a b lim ts (map (\<lambda>(k, t, x). Inr (key_encode k t, x)) es) None [] s1 =
      (Inr (cut lim ([] @ ?ps)), s')" "view s' = view s"
    using scan_loop_pairs [OF get rng(3) sorted lim, where l = None] by blast
  have items: "map Inr kvs = map (\<lambda>(k, t, x). Inr (key_encode k t, x)) es"
    by (simp add: es(1) case_prod_unfold)
  have "range_pairs (abs_mvcc (view s)) ts a b ?ps"
    using scan_meets_visible [OF K(2) a rng(2) [unfolded es(1)]] by (intro scan_pairs_range [OF sorted f]) auto
  moreover have "coord_scan E a b lim ts s = (Inr (cut lim ?ps), s')"
    using rng(1) run(1) by (simp add: coord_scan_def items)
  ultimately show ?thesis using run(2) that by blast
qed

end

section \<open>Properties of scans\<close>

text \<open>C27. Range scans: on an engine that does not fail, with a start of the range that is empty or
  neither a prefix nor an extension of another key of the workload, and when the keys of the range
  have no lock at or before the timestamp and no put without its value, \<open>coord_scan\<close> returns exactly
  the visible pairs of the range, in key order and cut to the limit (0 for no limit), and changes
  nothing. A scan that starts at a proper prefix of a stored key can miss that key
  (\<open>extension_scan_incomplete\<close>).\<close>

theorem coord_scan_returns_range:
  assumes "fjall_reliable E view" "good_keys K" "wf_store K (view s)"
    and "a = [] \<or> prefix_free (insert a K)" "readable (abs_mvcc (view s)) ts a b"
  shows "\<exists>ps. fst (coord_scan E a b lim ts s) = Inr (cut lim ps) \<and> range_pairs (abs_mvcc (view s)) ts a b ps \<and>
    view (snd (coord_scan E a b lim ts s)) = view s"
  by (rule fjall_reliable.coord_scan_correct [OF assms, of lim]) auto

lemma versions_db_readable: "readable (abs_mvcc (mem_view versions_db)) 30 [1] []"
proof -
  have "m_vals (abs_mvcc (mem_view versions_db)) ([1], 19) = Some [2]" by code_simp
  moreover have "visible (abs_mvcc (mem_view versions_db)) k 30 t r \<Longrightarrow> k = [1] \<and> t = 20 \<and> r = wr_new 19 Put" for k t r
    by (auto simp: visible_def versions_db_state split: if_splits dest: spec [of _ 20])
  ultimately have "\<not> read_result (abs_mvcc (mem_view versions_db)) k 30 (Inl CorruptedState)" for k
    by (fastforce elim: read_result_lostE)
  then show ?thesis
    by (simp add: readable_def locked_at_def abs_mvcc_def mem_view_def versions_db_def typed_def)
qed

theorem coord_scan_returns_range_witness:
  "\<exists>ps. range_pairs (abs_mvcc (mem_view versions_db)) 30 [1] [] ps \<and> cut 5 ps = [([1], [2])]"
proof -
  have "fst (coord_scan mem_env [1] [] 5 30 versions_db) = Inr [([1], [2])]" by code_simp
  moreover have "insert [1] (set [[1], [2]]) = set [[1], [2 :: u8]]" by auto
  ultimately show ?thesis
    using coord_scan_returns_range [OF mem.fjall_reliable_axioms two_keys versions_db_ok _ versions_db_readable, of 5]
      good_keysD(1) [OF two_keys] by auto
qed

end
