(* ===== verification/Txn_System.thy ===== *)
theory Txn_System
  imports Txn_Scan
begin

text \<open>
  The coordinator as a system: any sequence of its operations, with engine failures at any
  point. \<open>coord_exec\<close> is the state an operation leaves, \<open>reachable\<close> the states such
  sequences lead to. The invariant of snapshot isolation and the well-formedness of the
  store hold in all of them, for clients that commit no earlier than they started and
  prewrite with no pending commit of another transaction at or after their start.
\<close>

section \<open>Sequences of operations\<close>

datatype coord_op =
    Op_Prewrite u64 "Mutation list" bytes u64
  | Op_Batch_Prewrite u64 "Mutation list" bytes u64
  | Op_Commit u64 u64 "bytes list"
  | Op_Batch_Commit u64 u64 "bytes list"
  | Op_Rollback u64 "bytes list"
  | Op_Heartbeat bytes u64 u64
  | Op_Status bytes u64
  | Op_Get bytes u64
  | Op_Scan bytes bytes u32 u64
  | Op_Gc u64

fun coord_exec :: "'s env \<Rightarrow> coord_op \<Rightarrow> 's \<Rightarrow> 's" where
  "coord_exec E (Op_Prewrite st ms pk ttl) s = snd (prewrite E st ms pk ttl s)"
| "coord_exec E (Op_Batch_Prewrite st ms pk ttl) s = snd (batch_prewrite E st ms pk ttl s)"
| "coord_exec E (Op_Commit st ct ks) s = snd (commit E st ct ks s)"
| "coord_exec E (Op_Batch_Commit st ct ks) s = snd (batch_commit E st ct ks s)"
| "coord_exec E (Op_Rollback st ks) s = snd (rollback E st ks s)"
| "coord_exec E (Op_Heartbeat pk st ttl) s = snd (heartbeat E pk st ttl s)"
| "coord_exec E (Op_Status pk st) s = snd (coord_check_txn_status E pk st s)"
| "coord_exec E (Op_Get k ts) s = snd (coord_get E k ts s)"
| "coord_exec E (Op_Scan a b lim ts) s = snd (coord_scan E a b lim ts s)"
| "coord_exec E (Op_Gc sp) s = snd (gc_keys_older_than E sp s)"

text \<open>What a client has to respect.\<close>

fun op_ok :: "bytes set \<Rightarrow> coord_op \<Rightarrow> mvcc \<Rightarrow> bool" where
  "op_ok K (Op_Prewrite st ms pk ttl) m \<longleftrightarrow> mutation_key ` set ms \<subseteq> K \<and> pk \<in> K \<and> settled st m"
| "op_ok K (Op_Batch_Prewrite st ms pk ttl) m \<longleftrightarrow> mutation_key ` set ms \<subseteq> K \<and> pk \<in> K \<and> settled st m"
| "op_ok K (Op_Commit st ct ks) m \<longleftrightarrow> set ks \<subseteq> K \<and> st \<le> ct"
| "op_ok K (Op_Batch_Commit st ct ks) m \<longleftrightarrow> set ks \<subseteq> K \<and> st \<le> ct"
| "op_ok K (Op_Rollback st ks) m \<longleftrightarrow> set ks \<subseteq> K"
| "op_ok K (Op_Status pk st) m \<longleftrightarrow> pk \<in> K"
| "op_ok K (Op_Get k ts) m \<longleftrightarrow> k \<in> K"
| "op_ok K _ m \<longleftrightarrow> True"

inductive reachable :: "'s env \<Rightarrow> ('s \<Rightarrow> view) \<Rightarrow> bytes set \<Rightarrow> 's \<Rightarrow> 's \<Rightarrow> bool" for E view K s0 where
  reach_init: "reachable E view K s0 s0"
| reach_step: "reachable E view K s0 s \<Longrightarrow> op_ok K op (abs_mvcc (view s)) \<Longrightarrow>
     reachable E view K s0 (coord_exec E op s)"

context fjall
begin

lemma coord_check_txn_status_runs:
  assumes "coord_check_txn_status E pk st s = (r, s')" "good_keys K" "pk \<in> K"
  shows "runs K (view s) (view s')"
proof -
  obtain c s1 where c: "check_txn_status E pk st s = (c, s1)" by force
  then have "s' = s1" using assms(1) by (auto simp: coord_check_txn_status_def split: sum.splits)
  with check_txn_status_refines [OF assms(2,3) _ c] show ?thesis
    unfolding runs_def by (auto dest: status_spec_steps)
qed

lemma coord_exec_runs:
  assumes "good_keys K" "op_ok K op (abs_mvcc (view s))"
  shows "runs K (view s) (view (coord_exec E op s))"
proof (cases op)
  case (Op_Prewrite st ms pk ttl)
  with assms prewrite_runs [of st ms pk ttl s] show ?thesis by (cases "prewrite E st ms pk ttl s") auto
next
  case (Op_Batch_Prewrite st ms pk ttl)
  with assms batch_prewrite_runs [of st ms pk ttl s] show ?thesis
    by (cases "batch_prewrite E st ms pk ttl s") auto
next
  case (Op_Commit st ct ks)
  with assms commit_runs [of st ct ks s] show ?thesis by (cases "commit E st ct ks s") auto
next
  case (Op_Batch_Commit st ct ks)
  with assms batch_commit_runs [of st ct ks s] show ?thesis by (cases "batch_commit E st ct ks s") auto
next
  case (Op_Rollback st ks)
  with assms rollback_runs [of st ks s] show ?thesis by (cases "rollback E st ks s") auto
next
  case (Op_Heartbeat pk st ttl)
  with heartbeat_runs [of pk st ttl s] show ?thesis by (cases "heartbeat E pk st ttl s") auto
next
  case (Op_Status pk st)
  with assms coord_check_txn_status_runs [of pk st s] show ?thesis
    by (cases "coord_check_txn_status E pk st s") auto
next
  case (Op_Get k ts)
  with assms coord_get_runs [of k ts s] show ?thesis by (cases "coord_get E k ts s") auto
next
  case (Op_Scan a b lim ts)
  with assms coord_scan_runs [of a b lim ts s] show ?thesis by (cases "coord_scan E a b lim ts s") auto
next
  case (Op_Gc sp)
  with assms gc_runs [of sp s] show ?thesis by (cases "gc_keys_older_than E sp s") auto
qed

lemma reachable_runs:
  "reachable E view K s0 s \<Longrightarrow> good_keys K \<Longrightarrow> runs K (view s0) (view s)"
  by (induction rule: reachable.induct) (auto intro: runs_trans coord_exec_runs)

end

section \<open>Properties of the coordinator\<close>

text \<open>C1. Snapshot isolation of the reachable states: whatever sequence of coordinator
  operations ran, and wherever the engine failed under them, the store is well formed, on
  no key do the lifetimes (start to commit) of two committed writes overlap, and a lock is
  newer than everything committed on its key.\<close>

theorem reachable_snapshot_isolation:
  assumes "fjall E view" "good_keys K" "wf_store K (view s0)" "si_inv (abs_mvcc (view s0))"
    and "reachable E view K s0 s"
  shows "wf_store K (view s) \<and> si_inv (abs_mvcc (view s))"
  using runs_si [OF fjall.reachable_runs [OF assms(1,5,2)] assms(3,4)] .

lemma mem_keys: "good_keys (set [[1], [2], [3]])"
  by (rule good_key_list) (simp add: good_key_list_def)

definition example_run :: "coord_op list" where
  "example_run =
     [Op_Prewrite 5 [M_Put [1] [11], M_Put [2] [12]] [1] 3000, Op_Commit 5 20 [[1], [2]],
      Op_Get [2] 30, Op_Gc 10]"

theorem reachable_snapshot_isolation_witness:
  "wf_store (set [[1], [2], [3]]) (mem_view (foldl (\<lambda>d op. coord_exec flaky_env op d)
      ((mem_init [])\<lparr>m_faults := [False, False, False, False, False, False, False, False, True]\<rparr>) example_run)) \<and>
   si_inv (abs_mvcc (mem_view (foldl (\<lambda>d op. coord_exec flaky_env op d)
      ((mem_init [])\<lparr>m_faults := [False, False, False, False, False, False, False, False, True]\<rparr>) example_run)))"
proof -
  let ?d = "(mem_init [])\<lparr>m_faults := [False, False, False, False, False, False, False, False, True]\<rparr>"
  have start: "wf_store (set [[1], [2], [3]]) (mem_view ?d)" "si_inv (abs_mvcc (mem_view ?d))"
      "settled 5 (abs_mvcc (mem_view ?d))"
    using mem_init_ok by simp_all
  have "reachable flaky_env mem_view (set [[1], [2], [3]]) ?d (foldl (\<lambda>d op. coord_exec flaky_env op d) ?d example_run)"
    unfolding example_run_def foldl.simps
    by (intro reach_step reach_init) (use start(3) in simp_all)
  from reachable_snapshot_isolation [OF flaky.fjall_axioms mem_keys start(1,2) this]
  show ?thesis .
qed

text \<open>What a committed transaction wrote is read back.\<close>

lemma txn_read_back:
  assumes E: "fjall_reliable E view" and K: "good_keys K" "mutation_key ` set ms \<subseteq> K" "pk \<in> K" "set ks \<subseteq> K"
    and s: "wf_store K (view s)" "si_inv (abs_mvcc (view s))" "settled st (abs_mvcc (view s))"
    and ms: "distinct (map mutation_key ms)" "mutation \<in> set ms" "mutation_key mutation \<in> set ks"
    and ts: "st \<le> ct" "ct \<le> ts"
    and pre: "fst (prewrite E st ms pk ttl s) = Inr ()"
    and com: "fst (commit E st ct ks (snd (prewrite E st ms pk ttl s))) = Inr ()"
  shows "fst (coord_get E (mutation_key mutation) ts
      (snd (commit E st ct ks (snd (prewrite E st ms pk ttl s))))) =
    Inr (case mutation of M_Put _ x \<Rightarrow> Some x | M_Delete _ \<Rightarrow> None)"
proof -
  note F = fjall_reliable.axioms(1) [OF E]
  let ?s1 = "snd (prewrite E st ms pk ttl s)" and ?s2 = "snd (commit E st ct ks (snd (prewrite E st ms pk ttl s)))"
  have p: "prewrite E st ms pk ttl s = (Inr (), ?s1)" using pre by (cases "prewrite E st ms pk ttl s") simp
  from fjall.prewrite_refines [OF F p K(1-3) s]
  have 1: "wf_store K (view ?s1)" "prewrites st pk ttl ms (abs_mvcc (view s)) (Inr ()) (abs_mvcc (view ?s1))"
    by blast+
  have si1: "si_inv (abs_mvcc (view ?s1))"
    by (rule mvcc_steps_si [OF prewrites_steps [OF 1(2)] s(2)])
  have laid: "laid st pk ttl (abs_mvcc (view ?s1)) mutation"
    by (rule prewrites_laid [OF 1(2) ms(1,2)])
  obtain pk' ks' where ks: "ks = pk' # ks'" using ms(3) by (cases ks) auto
  have c: "commit E st ct (pk' # ks') ?s1 = (Inr (), ?s2)"
    using com ks by (metis prod.collapse)
  have "pk' \<in> K" "set ks' \<subseteq> K" using K(4) ks by auto
  note 2 = fjall.commit_prefix [OF F c 1(1) this]
  then have wf2: "wf_store K (view ?s2)" by blast
  have m2: "abs_mvcc (view ?s2) = fold (commit_key st ct) ks (abs_mvcc (view ?s1))"
    using 2 ks by (auto simp: prefix_done_def split: if_splits)
  note rd = laid_commit_read [OF si1 laid ms(3) ts, folded m2]
  have k: "mutation_key mutation \<in> K" using K(2) ms(2) by auto
  obtain x s' where g: "coord_get E (mutation_key mutation) ts ?s2 = (map_sum Txn_Mvcc id x, s')"
      "read_result (abs_mvcc (view ?s2)) (mutation_key mutation) ts x"
    by (rule fjall_reliable.coord_get_unlocked [OF E K(1) k wf2 rd(1)])
  from read_result_unique [OF g(2) rd(2)] g(1) show ?thesis by simp
qed

text \<open>C2. Read your writes: a transaction whose \<open>prewrite\<close> and \<open>commit\<close> both succeeded is visible
  to every read at or after its commit timestamp. For each key it wrote and committed the
  read returns the value put, or nothing for a delete.\<close>

theorem committed_writes_visible:
  assumes E: "fjall_reliable E view" and K: "good_keys K" "mutation_key ` set ms \<subseteq> K" "pk \<in> K" "set ks \<subseteq> K"
    and s: "wf_store K (view s)" "si_inv (abs_mvcc (view s))" "settled st (abs_mvcc (view s))"
    and ms: "distinct (map mutation_key ms)" "mutation \<in> set ms" "mutation_key mutation \<in> set ks"
    and ts: "st \<le> ct" "ct \<le> ts"
    and pre: "fst (prewrite E st ms pk ttl s) = Inr ()"
    and com: "fst (commit E st ct ks (snd (prewrite E st ms pk ttl s))) = Inr ()"
  shows "fst (coord_get E (mutation_key mutation) ts
      (snd (commit E st ct ks (snd (prewrite E st ms pk ttl s))))) =
    Inr (case mutation of M_Put _ x \<Rightarrow> Some x | M_Delete _ \<Rightarrow> None)"
  by (rule txn_read_back [OF assms])

theorem committed_writes_visible_witness:
  "fst (coord_get mem_env [2] 30 (snd (commit mem_env 5 20 [[1], [2]]
     (snd (prewrite mem_env 5 [M_Delete [1], M_Put [2] [12]] [1] 3000 (mem_init [])))))) = Inr (Some [12])"
proof -
  have "fst (prewrite mem_env 5 [M_Delete [1], M_Put [2] [12]] [1] 3000 (mem_init [])) = Inr ()"
    by code_simp
  moreover have "fst (commit mem_env 5 20 [[1], [2]]
     (snd (prewrite mem_env 5 [M_Delete [1], M_Put [2] [12]] [1] 3000 (mem_init [])))) = Inr ()"
    by code_simp
  ultimately show ?thesis
    using committed_writes_visible [OF mem.fjall_reliable_axioms mem_keys _ _ _ mem_init_ok,
        where ms = "[M_Delete [1], M_Put [2] [12]]" and mutation = "M_Put [2] [12]" and pk = "[1]"
          and ks = "[[1], [2]]" and st = 5 and ct = 20 and ts = 30 and ttl = 3000]
    by simp
qed

text \<open>C5. First committer wins: \<open>prewrite\<close> fails, also on an engine that fails at will, when one of
  its keys has a version committed at or after the start of the transaction.\<close>

theorem prewrite_first_committer_wins:
  assumes "fjall E view" "good_keys K" "mutation_key ` set ms \<subseteq> K" "pk \<in> K" "wf_store K (view s)"
    and "si_inv (abs_mvcc (view s))" "settled st (abs_mvcc (view s))"
    and "mutation \<in> set ms" "committed (abs_mvcc (view s)) (mutation_key mutation) t w" "st \<le> t"
  shows "fst (prewrite E st ms pk ttl s) \<noteq> Inr ()"
proof -
  obtain r s' where run: "prewrite E st ms pk ttl s = (r, s')" by force
  from fjall.prewrite_refines [OF assms(1) run assms(2-7)]
  have "prewrites st pk ttl ms (abs_mvcc (view s)) r (abs_mvcc (view s'))" by blast
  from prewrites_conflict [OF this assms(9,10,8)] run show ?thesis by simp
qed

text \<open>A store with one committed transaction: keys 1 and 2, started at 5, committed at 20.\<close>

definition example_db :: mem_db where
  "example_db = snd (commit mem_env 5 20 [[1], [2]]
     (snd (prewrite mem_env 5 [M_Put [1] [11], M_Put [2] [12]] [1] 3000 (mem_init []))))"

lemma example_db_ok:
  "wf_store (set [[1], [2], [3]]) (mem_view example_db)" "si_inv (abs_mvcc (mem_view example_db))"
proof -
  have "runs (set [[1], [2], [3]]) (mem_view (mem_init [])) (mem_view example_db)"
    unfolding example_db_def
    by (rule runs_trans [OF mem.prewrite_runs [OF surjective_pairing mem_keys]
          mem.commit_runs [OF surjective_pairing]])
       (simp_all add: mem_init_ok)
  from runs_si [OF this] mem_init_ok
  show "wf_store (set [[1], [2], [3]]) (mem_view example_db)" "si_inv (abs_mvcc (mem_view example_db))"
    by simp_all
qed

text \<open>Its contents, evaluated.\<close>

lemma example_db_parts:
  "m_parts example_db P_Lock = []"
  "m_parts example_db P_Write =
     [(key_encode [2] 20, wr_to_bytes (wr_new 5 Put)), (key_encode [1] 20, wr_to_bytes (wr_new 5 Put))]"
  by code_simp+

lemma example_db_state:
  "m_locks (abs_mvcc (mem_view example_db)) k = None"
  "m_writes (abs_mvcc (mem_view example_db)) (k, t) =
     (if (k = [1] \<or> k = [2]) \<and> t = 20 then Some (wr_new 5 Put) else None)"
  by (auto simp: abs_mvcc_def mem_view_def example_db_parts typed_def)

lemma example_db_settled: "settled st (abs_mvcc (mem_view example_db))"
  by (simp add: settled_def example_db_state)

theorem prewrite_first_committer_wins_witness:
  "fst (prewrite mem_env 10 [M_Put [3] [33], M_Put [2] [22]] [3] 3000 example_db) \<noteq> Inr ()"
  by (rule prewrite_first_committer_wins [OF mem.fjall_axioms mem_keys _ _ example_db_ok example_db_settled,
        where mutation = "M_Put [2] [22]" and t = 20 and w = "wr_new 5 Put"])
     (simp_all add: committed_def example_db_state)

text \<open>C6. A rolled back transaction stays rolled back: after \<open>rollback\<close> succeeded on a key, no
  prewrite of the same transaction that contains the key succeeds, and what was committed
  on any key before is still there unless it sat at the start timestamp itself.\<close>

theorem rollback_blocks_prewrite:
  assumes "fjall E view" "good_keys K" "mutation_key ` set ms \<subseteq> K" "pk \<in> K" "set ks \<subseteq> K" "wf_store K (view s)"
    and "si_inv (abs_mvcc (view s))" "fst (rollback E st ks s) = Inr ()"
    and "settled st (abs_mvcc (view (snd (rollback E st ks s))))"
    and "mutation \<in> set ms" "mutation_key mutation \<in> set ks"
  shows "fst (prewrite E st ms pk ttl (snd (rollback E st ks s))) \<noteq> Inr () \<and>
    (\<forall>k t. t \<noteq> st \<longrightarrow> m_writes (abs_mvcc (view (snd (rollback E st ks s)))) (k, t) = m_writes (abs_mvcc (view s)) (k, t))"
proof -
  let ?s1 = "snd (rollback E st ks s)"
  have rb: "rollback E st ks s = (Inr (), ?s1)" using assms(8) by (metis prod.collapse)
  from fjall.rollback_prefix [OF assms(1) rb assms(6,5)]
  have 1: "wf_store K (view ?s1)" "abs_mvcc (view ?s1) = fold (rollback_key st) ks (abs_mvcc (view s))"
    by (auto simp: prefix_done_def)
  have si1: "si_inv (abs_mvcc (view ?s1))"
    using runs_si [OF fjall.rollback_runs [OF assms(1) rb assms(5)] assms(6,7)] by blast
  have marked: "marked (abs_mvcc (view ?s1)) (mutation_key mutation) st"
    using assms(11) by (simp add: marked_def 1(2) rollback_fold_writes)
  obtain r s' where run: "prewrite E st ms pk ttl ?s1 = (r, s')" by force
  from fjall.prewrite_refines [OF assms(1) run assms(2-4) 1(1) si1 assms(9)]
  have "prewrites st pk ttl ms (abs_mvcc (view ?s1)) r (abs_mvcc (view s'))" by blast
  from prewrites_marked [OF this marked assms(10)] run show ?thesis
    by (simp add: 1(2) rollback_fold_writes)
qed

lemma example_rollback_locks: "m_parts (snd (rollback mem_env 30 [[1], [3]] example_db)) P_Lock = []"
  by code_simp

theorem rollback_blocks_prewrite_witness:
  "fst (prewrite mem_env 30 [M_Put [3] [33]] [3] 3000 (snd (rollback mem_env 30 [[1], [3]] example_db))) \<noteq> Inr ()"
proof -
  have "fst (rollback mem_env 30 [[1], [3]] example_db) = Inr ()" by code_simp
  moreover have "settled 30 (abs_mvcc (mem_view (snd (rollback mem_env 30 [[1], [3]] example_db))))"
    by (rule settled_no_locks [OF example_rollback_locks])
  ultimately show ?thesis
    using rollback_blocks_prewrite [OF mem.fjall_axioms mem_keys _ _ _ example_db_ok,
        where ms = "[M_Put [3] [33]]" and mutation = "M_Put [3] [33]" and st = 30 and ks = "[[1], [3]]"
          and pk = "[3]" and ttl = 3000]
    by (simp del: rollback.simps prewrite.simps)
qed

text \<open>C7. \<open>commit\<close> under engine failures: if the transaction does not own its primary key, the
  store is left as it was and the result is \<open>TransactionRolledBack\<close> or an engine error;
  otherwise the keys are committed in order, the primary first, up to where an engine error
  is reported, and all of them when the result is \<open>Ok\<close>. A secondary is never committed
  without its primary.\<close>

theorem commit_primary_first:
  assumes "fjall E view" "wf_store K (view s)" "pk \<in> K" "set ks \<subseteq> K"
    and "commit E st ct (pk # ks) s = (r, s')"
  shows "if owns (abs_mvcc (view s)) st pk
    then \<exists>n. abs_mvcc (view s') = fold (commit_key st ct) (take n (pk # ks)) (abs_mvcc (view s)) \<and>
      (r = Inr () \<and> n = length (pk # ks) \<or> (\<exists>e. r = Inl e \<and> txn_io e))
    else view s' = view s \<and> (r = Inl TransactionRolledBack \<or> (\<exists>e. r = Inl e \<and> txn_io e))"
  using fjall.commit_prefix [OF assms(1,5,2-4)] by (auto simp: prefix_done_def)

theorem commit_primary_first_witness:
  "fst (commit mem_env 7 20 [[1], [2]] example_db) = Inl TransactionRolledBack \<or>
   (\<exists>e. fst (commit mem_env 7 20 [[1], [2]] example_db) = Inl e \<and> txn_io e)"
  using commit_primary_first [OF mem.fjall_axioms example_db_ok(1), of "[1]" "[[2]]" 7 20
      "fst (commit mem_env 7 20 [[1], [2]] example_db)" "snd (commit mem_env 7 20 [[1], [2]] example_db)"]
  by (simp del: commit.simps add: owns_def example_db_state)

text \<open>C16. \<open>batch_commit\<close> is atomic: with whatever engine failures, either all keys the
  transaction owns are committed, with the effect of committing them one after the other,
  or an engine error is reported and nothing has changed.\<close>

theorem batch_commit_all_or_nothing:
  assumes "fjall E view" "wf_store K (view s)" "set ks \<subseteq> K" "batch_commit E st ct ks s = (r, s')"
  shows "r = Inr () \<and> abs_mvcc (view s') = fold (commit_key st ct) ks (abs_mvcc (view s)) \<or>
    (\<exists>e. r = Inl e \<and> txn_io e \<and> view s' = view s)"
  using fjall.batch_commit_atomic [OF assms(1,4,2,3)] by blast

definition failing_db :: mem_db where
  "failing_db = (snd (prewrite mem_env 5 [M_Put [1] [11], M_Put [2] [12]] [1] 3000 (mem_init [])))
     \<lparr>m_faults := [False, False, True]\<rparr>"

theorem batch_commit_all_or_nothing_witness:
  "mem_view (snd (batch_commit flaky_env 5 20 [[1], [2]] failing_db)) = mem_view failing_db"
proof -
  have "runs (set [[1], [2], [3]]) (mem_view (mem_init []))
      (mem_view (snd (prewrite mem_env 5 [M_Put [1] [11], M_Put [2] [12]] [1] 3000 (mem_init []))))"
    by (rule mem.prewrite_runs [OF surjective_pairing mem_keys]) (simp_all add: mem_init_ok)
  from runs_si [OF this mem_init_ok(1,2)]
  have wf: "wf_store (set [[1], [2], [3]]) (mem_view failing_db)" by (simp add: failing_db_def)
  have "fst (batch_commit flaky_env 5 20 [[1], [2]] failing_db) \<noteq> Inr ()" by code_simp
  with batch_commit_all_or_nothing [OF flaky.fjall_axioms wf _ surjective_pairing, of "[[1], [2]]" 5 20]
  show ?thesis by auto
qed

text \<open>C35. On an engine that does not fail, \<open>commit\<close> and \<open>batch_commit\<close> have the same effect and both
  succeed, for a transaction that owns its primary key.\<close>

theorem commit_batch_commit_equivalent:
  assumes "fjall_reliable E view" "wf_store K (view s)" "pk \<in> K" "set ks \<subseteq> K"
    and "owns (abs_mvcc (view s)) st pk"
  shows "fst (commit E st ct (pk # ks) s) = Inr () \<and> fst (batch_commit E st ct (pk # ks) s) = Inr () \<and>
    abs_mvcc (view (snd (commit E st ct (pk # ks) s))) = abs_mvcc (view (snd (batch_commit E st ct (pk # ks) s)))"
proof -
  have ks: "set (pk # ks) \<subseteq> K" using assms(3,4) by simp
  note b = fjall_reliable.batch_commit_correct [OF assms(1,2) ks, of st ct]
  note c = fjall_reliable.commit_correct [OF assms(1-4), of st ct]
  show ?thesis
    unfolding b using c assms(5) by (simp only: if_True simp_thms)
qed

definition prewritten_db :: mem_db where
  "prewritten_db = snd (prewrite mem_env 5 [M_Put [1] [11], M_Put [2] [12]] [1] 3000 (mem_init [100, 200]))"

lemma prewritten_db_ok:
  "wf_store (set [[1], [2], [3]]) (mem_view prewritten_db)" "si_inv (abs_mvcc (mem_view prewritten_db))"
proof -
  have "runs (set [[1], [2], [3]]) (mem_view (mem_init [100, 200])) (mem_view prewritten_db)"
    unfolding prewritten_db_def
    by (rule mem.prewrite_runs [OF surjective_pairing mem_keys]) (simp_all add: mem_init_ok)
  from runs_si [OF this mem_init_ok(1,2)]
  show "wf_store (set [[1], [2], [3]]) (mem_view prewritten_db)" "si_inv (abs_mvcc (mem_view prewritten_db))"
    by blast+
qed

lemma prewritten_db_lock:
  "m_locks (abs_mvcc (mem_view prewritten_db)) [1] = Some (lock_new [1] 5 3000 Put)"
proof -
  have "map_of (m_parts prewritten_db P_Lock) [1] = Some (lock_to_bytes (lock_new [1] 5 3000 Put))"
    by code_simp
  moreover have "lock_from_bytes (lock_to_bytes (lock_new [1] 5 3000 Put)) = Inr (lock_new [1] 5 3000 Put)"
    by code_simp
  ultimately show ?thesis by (simp add: abs_mvcc_def mem_view_def typed_def lock_decode_def)
qed

theorem commit_batch_commit_equivalent_witness:
  "fst (commit mem_env 5 20 [[1], [2]] prewritten_db) = Inr () \<and>
   abs_mvcc (mem_view (snd (commit mem_env 5 20 [[1], [2]] prewritten_db))) =
   abs_mvcc (mem_view (snd (batch_commit mem_env 5 20 [[1], [2]] prewritten_db)))"
  using commit_batch_commit_equivalent [OF mem.fjall_reliable_axioms prewritten_db_ok(1), of "[1]" "[[2]]" 5 20]
  by (simp del: commit.simps add: owns_def prewritten_db_lock lock_new_def)

text \<open>C34. Snapshots are stable under commits: take the reads of a key before and after a commit at \<open>ct\<close>,
  complete or cut short by an engine failure, at a timestamp below \<open>ct\<close>. A read that had an answer
  still has it, errors of the engine apart. A read that answers after the commit gives the newest
  version of the time before; it did not answer then only because the engine failed or because
  the lock of the committed transaction was in its way.\<close>

theorem commit_keeps_older_reads:
  assumes "fjall E view" "good_keys K" "k \<in> K" "wf_store K (view s)" "set ks \<subseteq> K"
    and "commit E st ct ks s = (r, s')" "ts < ct"
    and "reader_get E k ts s = (x, s1)" "reader_get E k ts s' = (y, s2)"
  shows "(\<forall>v. x = Inr v \<longrightarrow> y = Inr v \<or> (\<exists>e. y = Inl (Mvcc_Fjall e))) \<and>
    (\<forall>v. y = Inr v \<longrightarrow> read_result (abs_mvcc (view s)) k ts (Inr v) \<and>
      (x = Inr v \<or> (\<exists>e. x = Inl (Mvcc_Fjall e)) \<or>
       (\<exists>l. locked_at (abs_mvcc (view s)) k ts l \<and> lock_start_ts l = st \<and> x = Inl (KeyIsLocked (lock_primary_key l) st))))"
proof -
  let ?m = "abs_mvcc (view s)" and ?m' = "abs_mvcc (view s')"
  have "wf_store K (view s') \<and> (\<exists>n. ?m' = fold (commit_key st ct) (take n ks) ?m)"
  proof (cases ks)
    case (Cons pk ks')
    show ?thesis
      using fjall.commit_prefix [OF assms(1) assms(6) [unfolded Cons] assms(4)] assms(4,5) Cons
      by (cases "owns ?m st pk") (auto simp: prefix_done_def intro: exI [of _ 0])
  qed (use assms(4,6) in simp)
  then obtain n where wf: "wf_store K (view s')" and m: "?m' = fold (commit_key st ct) (take n ks) ?m" by blast
  have same: "read_result ?m' k ts z \<longleftrightarrow> read_result ?m k ts z" for z
    by (rule read_result_cong) (use assms(7) in \<open>auto simp: m commit_fold_writes\<close>)
  have locks: "locked_at ?m' k ts l \<Longrightarrow> locked_at ?m k ts l"
      "locked_at ?m k ts l \<Longrightarrow> \<not> locked_at ?m' k ts l \<Longrightarrow> lock_start_ts l = st" for l
    by (auto simp: locked_at_def m commit_fold_locks owns_def split: if_splits)
  note before = fjall.reader_get_cases(2) [OF assms(1-4,8)] and after = fjall.reader_get_cases(2) [OF assms(1-3) wf assms(9)]
  show ?thesis
  proof (intro conjI allI impI)
    fix v assume "x = Inr v"
    with before have "\<nexists>l. locked_at ?m k ts l" "read_result ?m k ts (Inr v)" by auto
    with after locks(1) same read_result_unique show "y = Inr v \<or> (\<exists>e. y = Inl (Mvcc_Fjall e))" by metis
  next
    fix v assume "y = Inr v"
    with after same have y: "\<nexists>l. locked_at ?m' k ts l" "read_result ?m k ts (Inr v)" by auto
    show "read_result ?m k ts (Inr v)" by (rule y(2))
    from before y locks(2) read_result_unique
    show "x = Inr v \<or> (\<exists>e. x = Inl (Mvcc_Fjall e)) \<or>
        (\<exists>l. locked_at ?m k ts l \<and> lock_start_ts l = st \<and> x = Inl (KeyIsLocked (lock_primary_key l) st))"
      by metis
  qed
qed

theorem commit_keeps_older_reads_witness:
  "fst (reader_get mem_env [2] 19 prewritten_db) = Inl (KeyIsLocked [1] 5) \<and>
   read_result (abs_mvcc (mem_view prewritten_db)) [2] 19
     (fst (reader_get mem_env [2] 19 (snd (commit mem_env 5 20 [[1], [2]] prewritten_db))))"
proof -
  have "fst (reader_get mem_env [2] 19 prewritten_db) = Inl (KeyIsLocked [1] 5)"
      "fst (reader_get mem_env [2] 19 (snd (commit mem_env 5 20 [[1], [2]] prewritten_db))) = Inr None"
    by code_simp+
  with commit_keeps_older_reads [OF mem.fjall_axioms mem_keys _ prewritten_db_ok(1) _ surjective_pairing _
      surjective_pairing surjective_pairing, of "[2]" "[[1], [2]]" 19 20 5]
  show ?thesis by (simp del: commit.simps)
qed

text \<open>\<open>prewrite\<close> succeeds only by taking every lock: each mutation has its lock, and each put
  its value, in the state it leaves; everything committed before is still committed.\<close>

lemma prewrite_lays_locks:
  assumes "fjall E view" "good_keys K" "mutation_key ` set ms \<subseteq> K" "pk \<in> K" "wf_store K (view s)"
    and "si_inv (abs_mvcc (view s))" "settled st (abs_mvcc (view s))"
    and "distinct (map mutation_key ms)" "mutation \<in> set ms" "fst (prewrite E st ms pk ttl s) = Inr ()"
  shows "laid st pk ttl (abs_mvcc (view (snd (prewrite E st ms pk ttl s)))) mutation \<and>
    wf_store K (view (snd (prewrite E st ms pk ttl s)))"
proof -
  have run: "prewrite E st ms pk ttl s = (Inr (), snd (prewrite E st ms pk ttl s))"
    using assms(10) by (metis prod.collapse)
  from fjall.prewrite_refines [OF assms(1) run assms(2-7)] prewrites_laid [OF _ assms(8,9)]
  show ?thesis by blast
qed

lemma prewrite_lays_locks_example:
  "laid 30 [3] 3000 (abs_mvcc (mem_view (snd (prewrite mem_env 30 [M_Put [3] [33], M_Delete [1]] [3] 3000 example_db))))
     (M_Delete [1])"
proof -
  have "fst (prewrite mem_env 30 [M_Put [3] [33], M_Delete [1]] [3] 3000 example_db) = Inr ()" by code_simp
  with prewrite_lays_locks [OF mem.fjall_axioms mem_keys _ _ example_db_ok example_db_settled,
      where ms = "[M_Put [3] [33], M_Delete [1]]" and mutation = "M_Delete [1]" and pk = "[3]" and ttl = 3000 and st = 30]
  show ?thesis by (simp del: prewrite.simps)
qed

text \<open>C17. \<open>batch_prewrite\<close> takes all locks or none: when it fails, for whatever reason, no lock of
  the transaction appears and every lock, mark and committed version stays, up to locks of
  other transactions it resolved; when it succeeds every mutation has its lock and value.\<close>

theorem batch_prewrite_all_or_nothing:
  assumes "fjall E view" "good_keys K" "mutation_key ` set ms \<subseteq> K" "pk \<in> K" "wf_store K (view s)"
    and "si_inv (abs_mvcc (view s))" "settled st (abs_mvcc (view s))" "distinct (map mutation_key ms)"
    and "batch_prewrite E st ms pk ttl s = (r, s')"
  shows "case r of
      Inl e \<Rightarrow> quiet st (abs_mvcc (view s)) (abs_mvcc (view s'))
    | Inr _ \<Rightarrow> list_all (laid st pk ttl (abs_mvcc (view s'))) ms"
  by (rule fjall.batch_prewrite_atomic [OF assms(1,9,2-8)])

theorem batch_prewrite_all_or_nothing_witness:
  "quiet 10 (abs_mvcc (mem_view example_db))
     (abs_mvcc (mem_view (snd (batch_prewrite mem_env 10 [M_Put [3] [33], M_Put [2] [22]] [3] 3000 example_db))))"
proof -
  have "isl (fst (batch_prewrite mem_env 10 [M_Put [3] [33], M_Put [2] [22]] [3] 3000 example_db))" by code_simp
  with batch_prewrite_all_or_nothing [OF mem.fjall_axioms mem_keys _ _ example_db_ok example_db_settled _ surjective_pairing,
      where ms = "[M_Put [3] [33], M_Put [2] [22]]" and pk = "[3]" and ttl = 3000 and st = 10]
  show ?thesis by (auto split: sum.splits)
qed

text \<open>C24. Reads through the coordinator are right about the state they leave: when \<open>coord_get\<close>
  returns a value or its absence, no lock at or before the timestamp is on the key any more
  and the answer is that of the newest version at or before the timestamp. The state was
  reached by steps of the transaction machine, and stays well formed.\<close>

theorem coord_get_answers:
  assumes "fjall E view" "good_keys K" "k \<in> K" "wf_store K (view s)" "si_inv (abs_mvcc (view s))"
    and "coord_get E k ts s = (Inr x, s')"
  shows "read_result (abs_mvcc (view s')) k ts (Inr x) \<and> (\<nexists>l. locked_at (abs_mvcc (view s')) k ts l) \<and>
    mvcc_steps (abs_mvcc (view s)) (abs_mvcc (view s')) \<and> wf_store K (view s')"
  using fjall.coord_get_cases [OF assms(1,6,2-5)] by blast

definition expired_db :: mem_db where
  "expired_db = prewritten_db\<lparr>m_clock := [5000]\<rparr>"

theorem coord_get_answers_witness:
  "read_result (abs_mvcc (mem_view (snd (coord_get mem_env [2] 30 expired_db)))) [2] 30 (Inr None)"
proof -
  have "fst (coord_get mem_env [2] 30 expired_db) = Inr None" by code_simp
  then have "coord_get mem_env [2] 30 expired_db = (Inr None, snd (coord_get mem_env [2] 30 expired_db))"
    by (metis prod.collapse)
  from coord_get_answers [OF mem.fjall_axioms mem_keys _ _ _ this] prewritten_db_ok show ?thesis
    by (simp add: expired_db_def)
qed

text \<open>\<open>heartbeat\<close> on an engine that does not fail: it replaces the time to live of the primary
  lock and returns it when the transaction holds the lock, and otherwise reports that the
  transaction was rolled back and changes nothing.\<close>

lemma heartbeat_extends:
  assumes "fjall_reliable E view" "wf_store K (view s)"
  shows "if owns (abs_mvcc (view s)) st pk
    then fst (heartbeat E pk st ttl s) = Inr ttl \<and>
      abs_mvcc (view (snd (heartbeat E pk st ttl s))) =
        set_lock pk (map_option (lock_ttl_update (\<lambda>_. ttl)) (m_locks (abs_mvcc (view s)) pk)) (abs_mvcc (view s))
    else fst (heartbeat E pk st ttl s) = Inl TransactionRolledBack \<and>
      view (snd (heartbeat E pk st ttl s)) = view s"
  by (rule fjall_reliable.heartbeat_correct [OF assms])

lemma heartbeat_extends_example:
  "fst (heartbeat mem_env [1] 5 9000 prewritten_db) = Inr 9000 \<and>
   m_locks (abs_mvcc (mem_view (snd (heartbeat mem_env [1] 5 9000 prewritten_db)))) [1] =
     Some (lock_new [1] 5 9000 Put)"
  using heartbeat_extends [OF mem.fjall_reliable_axioms prewritten_db_ok(1), of 5 "[1]" 9000]
  by (simp add: owns_def prewritten_db_lock lock_new_def)

end
