(* ===== verification/Raft_Group.thy ===== *)
theory Raft_Group
  imports Raft_Node
begin

text \<open>
  Runs of a Raft node: any sequence of ticks, received messages, proposals and processed
  readies. A ready that follows the log is saved and delivered, whatever the engine does. On an
  engine that does not fail, and as long as no ready shortens the log, the node can be reopened
  at any point with the hard state and the log it had.
\<close>

section \<open>Processing a ready\<close>

lemma save_ready_log:
  assumes log: "contiguous pb (entries core)" and ready: "ready_follows pb core ready"
  shows "\<exists>core' s'. save_ready pb E rid ready core s = (ROk (), core', s') \<and> contiguous pb (entries core') \<and>
    set (rd_entries ready) \<subseteq> set (entries core') \<and> (\<forall>hs. rd_hs ready = Some hs \<longrightarrow> hard_state core' = hs)"
proof (cases "rd_entries ready = []")
  case True
  with log show ?thesis
    by (auto simp: save_ready_def set_hard_state_def split: option.split)
next
  case False
  with ready have f: "contiguous pb (rd_entries ready)" "en_index pb (hd (entries core)) \<le> en_index pb (hd (rd_entries ready))"
      "unat (en_index pb (hd (rd_entries ready))) \<le> unat (en_index pb (last (entries core))) + 1"
    by (auto simp: ready_follows_def follows_log_def)
  from False raft_append_log(1) [OF log f, of E rid s] raft_append_log(2) [OF log f] show ?thesis
    by (auto simp: save_ready_def set_hard_state_def split: option.split)
qed

lemma process_ready_log:
  assumes log: "contiguous pb (entries (mr_storage n))" and r: "rn_ready R (mr_storage n) (mr_raw_node n) = (ready, r')"
    and has: "rn_has_ready R (mr_storage n) (mr_raw_node n)" and ready: "ready_follows pb (mr_storage n) ready"
  obtains core' s' where "process_ready pb R E n s =
      (Node_Ok (rd_messages ready, committed_payloads pb (rd_committed_entries ready)),
       n\<lparr>mr_storage := core', mr_raw_node := rn_advance R ready core' r'\<rparr>, s')"
    "contiguous pb (entries core')" "set (rd_entries ready) \<subseteq> set (entries core')"
    "\<And>hs. rd_hs ready = Some hs \<Longrightarrow> hard_state core' = hs"
proof -
  obtain core' s' where c: "save_ready pb E (mr_region_id n) ready (mr_storage n) s = (ROk (), core', s')"
      "contiguous pb (entries core')" "set (rd_entries ready) \<subseteq> set (entries core')"
      "\<forall>hs. rd_hs ready = Some hs \<longrightarrow> hard_state core' = hs"
    using save_ready_log [OF log ready, of E "mr_region_id n" s] by (elim exE conjE) (rule that)
  from c has r show ?thesis by (intro that [of core' s']) (simp_all add: process_ready_def)
qed

section \<open>Runs\<close>

datatype 'm node_op = N_Tick | N_Step 'm | N_Propose bytes | N_Ready

definition node_exec ::
  "('e, 'h, 'c) raft_pb \<Rightarrow> ('r, 'e, 'h, 'c, 'm) raw_node \<Rightarrow> 's env \<Rightarrow> 'm node_op \<Rightarrow>
     ('r, 'e, 'h, 'c) MultiRaftNode \<times> 's \<Rightarrow> ('r, 'e, 'h, 'c) MultiRaftNode \<times> 's" where
  "node_exec pb R E op ns = (case ns of (n, s) \<Rightarrow> (case op of
     N_Tick \<Rightarrow> (mr_tick R n, s)
   | N_Step m \<Rightarrow> (snd (mr_step R m n), s)
   | N_Propose d \<Rightarrow> (snd (mr_propose R d n), s)
   | N_Ready \<Rightarrow> snd (process_ready pb R E n s)))"

definition node_run ::
  "('e, 'h, 'c) raft_pb \<Rightarrow> ('r, 'e, 'h, 'c, 'm) raw_node \<Rightarrow> 's env \<Rightarrow> 'm node_op list \<Rightarrow>
     ('r, 'e, 'h, 'c) MultiRaftNode \<times> 's \<Rightarrow> ('r, 'e, 'h, 'c) MultiRaftNode \<times> 's" where
  "node_run pb R E ops ns = foldl (\<lambda>ns op. node_exec pb R E op ns) ns ops"

text \<open>Every ready that the run processes can be recovered.\<close>

fun readies_recoverable ::
  "('e, 'h, 'c) raft_pb \<Rightarrow> ('r, 'e, 'h, 'c, 'm) raw_node \<Rightarrow> 's env \<Rightarrow> 'm node_op list \<Rightarrow>
     ('r, 'e, 'h, 'c) MultiRaftNode \<times> 's \<Rightarrow> bool" where
  "readies_recoverable pb R E [] ns \<longleftrightarrow> True"
| "readies_recoverable pb R E (op # ops) ns \<longleftrightarrow>
     (case op of
        N_Ready \<Rightarrow> (let n = fst ns in rn_has_ready R (mr_storage n) (mr_raw_node n) \<longrightarrow>
          ready_recoverable pb (mr_storage n) (fst (rn_ready R (mr_storage n) (mr_raw_node n))))
      | _ \<Rightarrow> True) \<and>
     readies_recoverable pb R E ops (node_exec pb R E op ns)"

lemma node_ops_keep [simp]:
  "mr_storage (mr_tick R n) = mr_storage n" "mr_storage (snd (mr_step R m n)) = mr_storage n"
  "mr_storage (snd (mr_propose R d n)) = mr_storage n"
  "mr_region_id (mr_tick R n) = mr_region_id n" "mr_region_id (snd (mr_step R m n)) = mr_region_id n"
  "mr_region_id (snd (mr_propose R d n)) = mr_region_id n"
  by (auto simp: mr_tick_def mr_step_def mr_propose_def split: prod.split sum.split)

text \<open>The engine holds the state and the log of the node.\<close>

definition durable ::
  "('e, 'h, 'c) raft_pb \<Rightarrow> ('s \<Rightarrow> view) \<Rightarrow> ('r, 'e, 'h, 'c) MultiRaftNode \<times> 's \<Rightarrow> bool" where
  "durable pb view ns = (case ns of (n, s) \<Rightarrow>
     persisted pb (mr_region_id n) (view s) (mr_storage n) \<and> contiguous pb (entries (mr_storage n)) \<and>
     hard_state (mr_storage n) =
       parse_or (hs_parse pb) (hs_default pb) (Inr (view s P_Default (hs_key (mr_region_id n)))))"

lemma persisted_hard_state [simp]: "persisted pb rid v (core\<lparr>hard_state := h\<rparr>) = persisted pb rid v core"
  by (simp add: persisted_def)

text \<open>Saving entries keeps the stored states of the group.\<close>

lemma entry_ops_keep_states:
  "apply_batch (entry_ops pb rid es) v P_Default (hs_key rid') = v P_Default (hs_key rid')"
proof (rule apply_batch_frame)
  show "hs_key rid' \<notin> op_key ` set (entry_ops pb rid es)"
  proof
    assume "hs_key rid' \<in> op_key ` set (entry_ops pb rid es)"
    with entry_ops_keys have "hs_key rid' \<in> entry_key rid ` UNIV" by (rule subsetD)
    then obtain i where "hs_key rid' = entry_key rid i" by (rule imageE)
    with not_entry_keys(4) [of rid i rid'] show False by simp
  qed
qed

text \<open>The two halves of saving a ready, on an engine that does not fail.\<close>

lemma append_durable:
  assumes "fjall_reliable E view" "raft_codec pb" and d: "durable pb view (n, s)"
    and ready: "ready_recoverable pb (mr_storage n) ready" "rd_entries ready \<noteq> []"
  obtains core' s' where "raft_append pb E (mr_region_id n) (rd_entries ready) (mr_storage n) s = (ROk (), core', s')"
    "durable pb view (n\<lparr>mr_storage := core'\<rparr>, s')"
proof -
  let ?core = "mr_storage n" and ?rid = "mr_region_id n" and ?es = "rd_entries ready"
  have p: "persisted pb ?rid (view s) ?core" and log: "contiguous pb (entries ?core)"
      and h: "hard_state ?core = parse_or (hs_parse pb) (hs_default pb) (Inr (view s P_Default (hs_key ?rid)))"
    using d by (simp_all add: durable_def)
  have e: "contiguous pb ?es" "en_index pb (hd (entries ?core)) \<le> en_index pb (hd ?es)"
      "unat (en_index pb (hd ?es)) \<le> unat (en_index pb (last (entries ?core))) + 1"
      "en_index pb (hd ?es) \<noteq> 0" "en_index pb (last (entries ?core)) \<le> en_index pb (last ?es)"
      "list_all (\<lambda>e. en_write pb e \<noteq> None) ?es"
    using ready by (simp_all add: ready_recoverable_def ready_follows_def follows_log_def)
  note r = raft_append_log(1) [OF log e(1-3), of E ?rid s] raft_append_log(2) [OF log e(1-3)]
  let ?s = "snd (commit_batch E (entry_ops pb ?rid ?es) s)"
  have v: "view ?s = apply_batch (entry_ops pb ?rid ?es) (view s)"
    by (rule fjall_reliable.commit_batch_view [OF assms(1)])
  from r(1) show ?thesis
    by (rule that) (use persisted_replace [OF assms(2) p log e(1,2,4-6)] r(2) h v in
      \<open>simp add: durable_def entry_ops_keep_states\<close>)
qed

lemma hard_state_durable:
  assumes "fjall_reliable E view" "raft_codec pb" and d: "durable pb view (n, s)" and w: "hs_write pb hs \<noteq> None"
  shows "durable pb view (n\<lparr>mr_storage := fst (set_hard_state pb E (mr_region_id n) hs (mr_storage n) s)\<rparr>,
    snd (set_hard_state pb E (mr_region_id n) hs (mr_storage n) s))"
proof -
  obtain b where b: "hs_write pb hs = Some b" using w by blast
  let ?rid = "mr_region_id n"
  have v: "view (snd (set_hard_state pb E ?rid hs (mr_storage n) s)) = apply_op (view s) (Insert P_Default (hs_key ?rid) b)"
    by (simp only: fjall_reliable.set_hard_state_view [OF assms(1)] b option.case)
  have p: "persisted pb ?rid (view s) (mr_storage n)" "contiguous pb (entries (mr_storage n))"
    using d by (simp_all add: durable_def)
  have "persisted pb ?rid (apply_op (view s) (Insert P_Default (hs_key ?rid) b)) (mr_storage n)"
    using p(1) log_other_key(3) [OF not_entry_keys(1)] by metis
  then show ?thesis
    using p(2) raft_codec.hs_codec [OF assms(2) b]
    by (simp add: durable_def v parse_or_def del: apply_op.simps) (simp add: set_hard_state_def)
qed

lemma durable_raw [simp]: "durable pb view (n\<lparr>mr_raw_node := r\<rparr>, s) = durable pb view (n, s)"
  by (simp add: durable_def)

lemma durable_keep:
  assumes "mr_storage n' = mr_storage n" "mr_region_id n' = mr_region_id n" "durable pb view (n, s)"
  shows "durable pb view (n', s)"
  using assms by (simp add: durable_def)

lemma save_ready_durable:
  assumes "fjall_reliable E view" "raft_codec pb" and d: "durable pb view (n, s)"
    and ready: "ready_recoverable pb (mr_storage n) ready"
  obtains core' s' where "save_ready pb E (mr_region_id n) ready (mr_storage n) s = (ROk (), core', s')"
    "durable pb view (n\<lparr>mr_storage := core'\<rparr>, s')"
proof -
  obtain core1 s1 where 1: "(if rd_entries ready \<noteq> [] then raft_append pb E (mr_region_id n) (rd_entries ready) (mr_storage n) s
        else (ROk (), mr_storage n, s)) = (ROk (), core1, s1)" "durable pb view (n\<lparr>mr_storage := core1\<rparr>, s1)"
  proof (cases "rd_entries ready = []")
    case True
    with d that show ?thesis by simp
  next
    case False
    show ?thesis by (rule append_durable [OF assms(1,2) d ready False]) (use False that in simp)
  qed
  show ?thesis
  proof (cases "rd_hs ready")
    case None
    with 1 that show ?thesis by (simp add: save_ready_def)
  next
    case (Some hs)
    with ready have "hs_write pb hs \<noteq> None" by (simp add: ready_recoverable_def)
    note hard_state_durable [OF assms(1,2) 1(2) this]
    with 1(1) Some show ?thesis
      by (intro that [of "fst (set_hard_state pb E (mr_region_id n) hs core1 s1)" "snd (set_hard_state pb E (mr_region_id n) hs core1 s1)"])
         (simp_all add: save_ready_def case_prod_unfold)
  qed
qed

lemma process_ready_durable:
  assumes "fjall_reliable E view" "raft_codec pb" "durable pb view (n, s)"
    and ready: "rn_has_ready R (mr_storage n) (mr_raw_node n) \<Longrightarrow>
      ready_recoverable pb (mr_storage n) (fst (rn_ready R (mr_storage n) (mr_raw_node n)))"
  shows "durable pb view (snd (process_ready pb R E n s))"
proof (cases "rn_has_ready R (mr_storage n) (mr_raw_node n)")
  case False
  with assms show ?thesis by (simp add: process_ready_def)
next
  case True
  obtain rd r' where r: "rn_ready R (mr_storage n) (mr_raw_node n) = (rd, r')" by force
  have "ready_recoverable pb (mr_storage n) rd" using ready [OF True] r by simp
  then obtain core' s' where c: "save_ready pb E (mr_region_id n) rd (mr_storage n) s = (ROk (), core', s')"
      "durable pb view (n\<lparr>mr_storage := core'\<rparr>, s')"
    by (rule save_ready_durable [OF assms(1-3)])
  from c(2) True r c(1) show ?thesis
    by (simp add: process_ready_def)
qed

lemma node_run_durable:
  assumes "fjall_reliable E view" "raft_codec pb" "durable pb view ns" "readies_recoverable pb R E ops ns"
  shows "durable pb view (node_run pb R E ops ns)"
  using assms(3,4)
proof (induction ops arbitrary: ns)
  case Nil
  then show ?case by (simp add: node_run_def)
next
  case (Cons op ops)
  obtain n s where ns: "ns = (n, s)" by force
  have "durable pb view (node_exec pb R E op ns)"
    using Cons.prems process_ready_durable [OF assms(1,2)] unfolding ns node_exec_def
    by (cases op) (auto intro: durable_keep simp: Let_def)
  from Cons.IH [OF this] Cons.prems(2) show ?case by (simp add: node_run_def)
qed

lemma node_run_region: "mr_region_id (fst (node_run pb R E ops ns)) = mr_region_id (fst ns)"
proof -
  have "mr_region_id (fst (snd (process_ready pb R E n s))) = mr_region_id n" for n s
    by (auto simp: process_ready_def split: prod.split raft_res.split)
  then have "mr_region_id (fst (node_exec pb R E op ns)) = mr_region_id (fst ns)" for op ns
    by (cases ns; cases op) (simp_all add: node_exec_def)
  then show ?thesis unfolding node_run_def by (induction ops arbitrary: ns) simp_all
qed

lemma durable_restart:
  assumes "fjall_reliable E view" "durable pb view (n, s)"
  shows "entries (fst (raft_storage_new pb E (mr_region_id n) s)) =
      (if real_entries pb (entries (mr_storage n)) = [] then [en_dummy pb] else real_entries pb (entries (mr_storage n)))"
    and "hard_state (fst (raft_storage_new pb E (mr_region_id n) s)) = hard_state (mr_storage n)"
proof -
  have d: "persisted pb (mr_region_id n) (view s) (mr_storage n)" "contiguous pb (entries (mr_storage n))"
      "hard_state (mr_storage n) = parse_or (hs_parse pb) (hs_default pb) (Inr (view s P_Default (hs_key (mr_region_id n))))"
    using assms(2) by (simp_all add: durable_def)
  show "entries (fst (raft_storage_new pb E (mr_region_id n) s)) =
      (if real_entries pb (entries (mr_storage n)) = [] then [en_dummy pb] else real_entries pb (entries (mr_storage n)))"
    by (rule fjall_reliable.raft_restart [OF assms(1) d(1,2)])
  show "hard_state (fst (raft_storage_new pb E (mr_region_id n) s)) = hard_state (mr_storage n)"
    by (rule fjall_reliable.raft_storage_new_total [OF assms(1), of pb "mr_region_id n" s]) (simp add: d(3))
qed

section \<open>An instance of the library\<close>

text \<open>A group with one voter, whose node is always its leader: proposals wait until the next ready,
  which numbers them after the last entry of the log and commits them at once.\<close>

type_synonym solo_state = "u64 \<times> bytes list"

definition numbered :: "nat \<Rightarrow> u64 \<Rightarrow> bytes list \<Rightarrow> plain_entry list" where
  "numbered i t ds = map (\<lambda>(j, d). (word_of_nat (i + 1 + j), t, d)) (List.enumerate 0 ds)"

definition has_room :: "nat \<Rightarrow> nat \<Rightarrow> bool" where
  "has_room i n \<longleftrightarrow> int (i + n) < 18446744073709551616"

definition solo_ready ::
  "(plain_entry, plain_hs, bytes) RaftStorageCore \<Rightarrow> solo_state \<Rightarrow> (plain_entry, plain_hs, bytes) Ready \<times> solo_state" where
  "solo_ready core r = (case r of (t, ds) \<Rightarrow>
     (let i = unat (en_index plain_pb (last (entries core)));
          es = (if has_room i (length ds) then numbered i t ds else [])
      in (\<lparr>rd_entries = es, rd_hs = Some (t, 1, word_of_nat (i + length es)), rd_messages = [],
           rd_committed_entries = es\<rparr>, r)))"

definition solo :: "(solo_state, plain_entry, plain_hs, bytes, bytes) raw_node" where
  "solo =
     \<lparr>rn_new = (\<lambda>cfg core. Inr (fst (hard_state core) + 1, [])), rn_tick = (\<lambda>core r. r),
      rn_step = (\<lambda>m core r. (Inr (), r)),
      rn_propose = (\<lambda>ctx d core (t, ds). (Inr (), (t, ds @ [d]))),
      rn_has_ready = (\<lambda>core (t, ds). ds \<noteq> []), rn_ready = solo_ready,
      rn_advance = (\<lambda>ready core (t, ds). (t, []))\<rparr>"

text \<open>A node that hands out the readies of a script, as a follower does with what its leader sends.\<close>

type_synonym plain_ready = "(plain_entry, plain_hs, bytes) Ready"

definition scripted :: "(plain_ready list, plain_entry, plain_hs, bytes, bytes) raw_node" where
  "scripted =
     \<lparr>rn_new = (\<lambda>cfg core. Inr []), rn_tick = (\<lambda>core r. r), rn_step = (\<lambda>m core r. (Inr (), r)),
      rn_propose = (\<lambda>ctx d core r. (Inl (Raft_Lib_Error ''not a leader''), r)),
      rn_has_ready = (\<lambda>core r. r \<noteq> []), rn_ready = (\<lambda>core r. (hd r, r)), rn_advance = (\<lambda>ready core r. tl r)\<rparr>"

section \<open>Properties of the node\<close>

text \<open>C30. Processing a ready, whatever the engine does, when the entries of the ready follow the log
  of the node without a gap, or replace its end: the call neither panics nor reports an error, the log is
  contiguous again and holds all entries of the ready, a new hard state is taken over, and
  the caller gets the messages of the ready and the non-empty payloads of its committed
  entries in order.\<close>

theorem process_ready_delivers:
  assumes "contiguous pb (entries (mr_storage n))" "ready_follows pb (mr_storage n) ready"
    and "rn_has_ready R (mr_storage n) (mr_raw_node n)" "rn_ready R (mr_storage n) (mr_raw_node n) = (ready, r')"
  shows "\<exists>n' s'. process_ready pb R E n s =
      (Node_Ok (rd_messages ready, filter (\<lambda>d. d \<noteq> []) (map (en_data pb) (rd_committed_entries ready))), n', s') \<and>
    contiguous pb (entries (mr_storage n')) \<and> set (rd_entries ready) \<subseteq> set (entries (mr_storage n')) \<and>
    (case rd_hs ready of Some hs \<Rightarrow> hard_state (mr_storage n') = hs | None \<Rightarrow> True)"
  by (rule process_ready_log [OF assms(1,4,3,2), of E s]) (auto simp: committed_payloads_def split: option.split)

definition solo_node :: "bytes list \<Rightarrow> (solo_state, plain_entry, plain_hs, bytes) MultiRaftNode" where
  "solo_node ds = \<lparr>mr_region_id = 1, mr_raw_node = (4, ds), mr_storage = raft_core_empty\<rparr>"

theorem process_ready_delivers_witness:
  "fst (process_ready plain_pb solo flaky_env (solo_node [[7], [], [9]]) ((mem_init [])\<lparr>m_faults := [True]\<rparr>)) =
     Node_Ok ([], [[7], [9]])"
proof -
  let ?n = "solo_node [[7], [], [9]]" and ?d = "(mem_init [])\<lparr>m_faults := [True]\<rparr>"
  let ?es = "[(1, 4, [7]), (2, 4, []), (3, 4, [9])] :: plain_entry list"
  have r: "rn_ready solo (mr_storage ?n) (mr_raw_node ?n) =
      (\<lparr>rd_entries = ?es, rd_hs = Some (4, 1, 3), rd_messages = [], rd_committed_entries = ?es\<rparr>, (4, [[7], [], [9]]))"
    by code_simp
  have "ready_follows plain_pb (mr_storage ?n) (fst (rn_ready solo (mr_storage ?n) (mr_raw_node ?n)))"
      "rn_has_ready solo (mr_storage ?n) (mr_raw_node ?n)"
    by code_simp+
  moreover have "contiguous plain_pb (entries (mr_storage ?n))"
    by (simp add: solo_node_def raft_core_empty_persisted)
  ultimately show ?thesis
    using process_ready_delivers [OF _ _ _ r, of plain_pb flaky_env ?d] unfolding r by (auto simp: plain_pb_def)
qed

text \<open>C20. Crash recovery of a node: on an engine that does not fail, after any sequence of ticks,
  messages, proposals and readies, when each ready that the run processed followed the log as it
  was then, or replaced its end by at least as many entries, the engine holds the node: a storage
  opened on it has the same hard state and the same log, the artificial entry at index 0 apart.\<close>

theorem raft_node_recovers:
  assumes "fjall_reliable E view" "raft_codec pb" "durable pb view (n, s)" "readies_recoverable pb R E ops (n, s)"
    and "node_run pb R E ops (n, s) = (n', s')"
  shows "durable pb view (n', s') \<and>
    hard_state (fst (raft_storage_new pb E (mr_region_id n) s')) = hard_state (mr_storage n') \<and>
    real_entries pb (entries (fst (raft_storage_new pb E (mr_region_id n) s'))) =
      real_entries pb (entries (mr_storage n'))"
proof -
  have d: "durable pb view (n', s')"
    using node_run_durable [OF assms(1-4)] assms(5) by simp
  have rid: "mr_region_id n' = mr_region_id n"
    using node_run_region [of pb R E ops "(n, s)"] assms(5) by simp
  have "real_entries pb [en_dummy pb] = []" "\<And>es. real_entries pb (real_entries pb es) = real_entries pb es"
    using raft_codec.dummy_index [OF assms(2)] by (simp_all add: real_entries_def)
  with d durable_restart [OF assms(1) d] show ?thesis by (simp add: rid)
qed

text \<open>A follower that receives two entries of term 1 and then has the second one replaced.\<close>

definition follower :: "(plain_ready list, plain_entry, plain_hs, bytes) MultiRaftNode" where
  "follower = \<lparr>mr_region_id = 1, mr_raw_node =
     [\<lparr>rd_entries = [(1, 1, [7]), (2, 1, [8])], rd_hs = Some (1, 2, 1), rd_messages = [], rd_committed_entries = [(1, 1, [7])]\<rparr>,
      \<lparr>rd_entries = [(2, 2, [5]), (3, 2, [6])], rd_hs = Some (2, 3, 3), rd_messages = [[1]], rd_committed_entries = []\<rparr>],
     mr_storage = raft_core_empty\<rparr>"

theorem raft_node_recovers_witness:
  "hard_state (fst (raft_storage_new plain_pb mem_env 1
     (snd (node_run plain_pb scripted mem_env [N_Tick, N_Ready, N_Propose [9], N_Ready] (follower, mem_init []))))) = (2, 3, 3) \<and>
   real_entries plain_pb (entries (fst (raft_storage_new plain_pb mem_env 1
     (snd (node_run plain_pb scripted mem_env [N_Tick, N_Ready, N_Propose [9], N_Ready] (follower, mem_init [])))))) =
     [(1, 1, [7]), (2, 2, [5]), (3, 2, [6])]"
proof -
  let ?ops = "[N_Tick, N_Ready, N_Propose [9], N_Ready]"
  obtain n' s' where run: "node_run plain_pb scripted mem_env ?ops (follower, mem_init []) = (n', s')" by force
  have "durable plain_pb mem_view (follower, mem_init [])"
    using raft_core_empty_persisted
    by (simp add: durable_def follower_def) (simp add: raft_core_empty_def plain_pb_def parse_or_def mem_view_def mem_init_def)
  moreover have "readies_recoverable plain_pb scripted mem_env ?ops (follower, mem_init [])" by code_simp
  ultimately have "hard_state (fst (raft_storage_new plain_pb mem_env 1 s')) = hard_state (mr_storage n')"
      "real_entries plain_pb (entries (fst (raft_storage_new plain_pb mem_env 1 s'))) = real_entries plain_pb (entries (mr_storage n'))"
    using raft_node_recovers [OF mem.fjall_reliable_axioms plain.raft_codec_axioms _ _ run] by (simp_all add: follower_def)
  moreover have "hard_state (mr_storage (fst (node_run plain_pb scripted mem_env ?ops (follower, mem_init [])))) = (2, 3, 3)"
      "real_entries plain_pb (entries (mr_storage (fst (node_run plain_pb scripted mem_env ?ops (follower, mem_init []))))) =
        [(1, 1, [7]), (2, 2, [5]), (3, 2, [6])]"
    by code_simp+
  ultimately show ?thesis by (simp add: run)
qed

end
