(* ===== verification/Node_System.thy ===== *)
theory Node_System
  imports Node_Service Txn_System Raft_Group
begin

text \<open>
  The server node as a system: sequences of requests to its three services, with engine
  failures at any point. Every request changes the engine only as operations of the
  coordinator do, so snapshot isolation carries over to the node; the region table stays
  tiled, and region identifiers are fresh until the counter wraps.
\<close>

section \<open>Requests\<close>

datatype node_request =
    Rq_Get GetRequest
  | Rq_Scan ScanRequest
  | Rq_Batch_Prewrite BatchPrewriteRequest
  | Rq_Batch_Commit BatchCommitRequest
  | Rq_Ask_Split AskSplitRequest
  | Rq_Stats RegionStatsRequest
  | Rq_Prewrite PrewriteRequest
  | Rq_Commit CommitRequest
  | Rq_Rollback RollbackRequest
  | Rq_Status CheckTxnStatusRequest
  | Rq_Heart_Beat TxnHeartBeatRequest
  | Rq_Send_Message RaftMessage
  | Rq_Step "(Status + RaftMessage) list"
  | Rq_Execute_Txn TxnRequest
  | Rq_Stream_Snapshot "SnapshotChunk list"

fun node_serve ::
  "('e, 'h, 'c) raft_pb \<Rightarrow> ('r, 'e, 'h, 'c, 'm) raw_node \<Rightarrow> (bytes \<Rightarrow> 'm option) \<Rightarrow> 's env \<Rightarrow> node_request \<Rightarrow>
     ('r, 'e, 'h, 'c) NodeState \<times> 's \<Rightarrow> ('r, 'e, 'h, 'c) NodeState \<times> 's" where
  "node_serve pb R pm E (Rq_Get q) w = snd (kv_get E q w)"
| "node_serve pb R pm E (Rq_Scan q) w = snd (kv_scan E q w)"
| "node_serve pb R pm E (Rq_Batch_Prewrite q) w = snd (kv_batch_prewrite E q w)"
| "node_serve pb R pm E (Rq_Batch_Commit q) w = snd (kv_batch_commit E q w)"
| "node_serve pb R pm E (Rq_Ask_Split q) w = snd (kv_ask_split pb R E q w)"
| "node_serve pb R pm E (Rq_Stats q) w = snd (kv_report_region_stats E q w)"
| "node_serve pb R pm E (Rq_Prewrite q) w = snd (txn_prewrite E q w)"
| "node_serve pb R pm E (Rq_Commit q) w = snd (txn_commit E q w)"
| "node_serve pb R pm E (Rq_Rollback q) w = snd (txn_rollback E q w)"
| "node_serve pb R pm E (Rq_Status q) w = snd (txn_check_txn_status E q w)"
| "node_serve pb R pm E (Rq_Heart_Beat q) w = snd (txn_heart_beat E q w)"
| "node_serve pb R pm E (Rq_Send_Message q) w = snd (raft_send_message R pm q w)"
| "node_serve pb R pm E (Rq_Step q) w = snd (raft_step R pm q w)"
| "node_serve pb R pm E (Rq_Execute_Txn q) w = snd (kv_execute_txn q w)"
| "node_serve pb R pm E (Rq_Stream_Snapshot q) w = snd (raft_stream_snapshot q w)"

text \<open>What clients have to respect: the conditions of the coordinator operation a request runs.\<close>

fun request_ok :: "bytes set \<Rightarrow> node_request \<Rightarrow> mvcc \<Rightarrow> bool" where
  "request_ok K (Rq_Get q) m \<longleftrightarrow> gq_key q \<in> K"
| "request_ok K (Rq_Batch_Prewrite q) m \<longleftrightarrow>
     op_ok K (Op_Batch_Prewrite (pq_start_ts q) (map decode_mutation (pq_mutations q)) (pq_primary_lock q) (pq_lock_ttl q)) m"
| "request_ok K (Rq_Prewrite q) m \<longleftrightarrow>
     op_ok K (Op_Prewrite (pq_start_ts q) (map decode_mutation (pq_mutations q)) (pq_primary_lock q) (pq_lock_ttl q)) m"
| "request_ok K (Rq_Commit q) m \<longleftrightarrow> op_ok K (Op_Commit (cq_start_ts q) (cq_commit_ts q) (cq_keys q)) m"
| "request_ok K (Rq_Batch_Commit q) m \<longleftrightarrow> op_ok K (Op_Batch_Commit (cq_start_ts q) (cq_commit_ts q) (cq_keys q)) m"
| "request_ok K (Rq_Rollback q) m \<longleftrightarrow> op_ok K (Op_Rollback (rq_start_ts q) (rq_keys q)) m"
| "request_ok K (Rq_Status q) m \<longleftrightarrow> op_ok K (Op_Status (tq_primary_key q) (tq_lock_ts q)) m"
| "request_ok K _ m \<longleftrightarrow> True"

inductive served ::
  "('e, 'h, 'c) raft_pb \<Rightarrow> ('r, 'e, 'h, 'c, 'm) raw_node \<Rightarrow> (bytes \<Rightarrow> 'm option) \<Rightarrow> 's env \<Rightarrow> ('s \<Rightarrow> view) \<Rightarrow>
     bytes set \<Rightarrow> ('r, 'e, 'h, 'c) NodeState \<times> 's \<Rightarrow> ('r, 'e, 'h, 'c) NodeState \<times> 's \<Rightarrow> bool"
  for pb R pm E view K w0 where
  served_init: "served pb R pm E view K w0 w0"
| served_step: "served pb R pm E view K w0 w \<Longrightarrow> request_ok K q (abs_mvcc (view (snd w))) \<Longrightarrow>
     served pb R pm E view K w0 (node_serve pb R pm E q w)"

section \<open>The engine under a request\<close>

lemma on_engine_snd: "snd (snd (on_engine f w)) = snd (f (snd w))"
  by (simp add: on_engine_def case_prod_unfold)

lemma on_engine_fst: "fst (snd (on_engine f w)) = fst w" "fst (on_engine f w) = fst (f (snd w))"
  by (simp_all add: on_engine_def case_prod_unfold)

lemmas on_engine_simps = on_engine_snd on_engine_fst

lemma on_engine_eq: "on_engine f w = (fst (f (snd w)), fst w, snd (f (snd w)))"
  by (simp add: on_engine_def case_prod_unfold)

text \<open>The handlers that only run one coordinator operation.\<close>

lemma handler_engine:
  "snd (kv_batch_prewrite E p w) = (fst w, snd (batch_prewrite E (pq_start_ts p) (map decode_mutation (pq_mutations p))
     (pq_primary_lock p) (pq_lock_ttl p) (snd w)))"
  "snd (txn_prewrite E p w) = (fst w, snd (prewrite E (pq_start_ts p) (map decode_mutation (pq_mutations p))
     (pq_primary_lock p) (pq_lock_ttl p) (snd w)))"
  "snd (kv_batch_commit E c w) = (fst w, snd (batch_commit E (cq_start_ts c) (cq_commit_ts c) (cq_keys c) (snd w)))"
  "snd (txn_commit E c w) = (fst w, snd (commit E (cq_start_ts c) (cq_commit_ts c) (cq_keys c) (snd w)))"
  "snd (txn_rollback E r w) = (fst w, snd (rollback E (rq_start_ts r) (rq_keys r) (snd w)))"
  "snd (txn_check_txn_status E t w) = (fst w, snd (coord_check_txn_status E (tq_primary_key t) (tq_lock_ts t) (snd w)))"
  "snd (txn_heart_beat E h w) = (fst w, snd (heartbeat E (hq_primary_lock h) (hq_start_ts h) (hq_ttl h) (snd w)))"
  by (simp_all add: kv_batch_prewrite_def txn_prewrite_def kv_batch_commit_def txn_commit_def txn_rollback_def
      txn_check_txn_status_def txn_heart_beat_def on_engine_eq split: sum.split)

lemma raft_step_loop_engine: "snd (raft_step_loop R pm ms w) = snd w"
proof (induction R pm ms w rule: raft_step_loop.induct)
  case (3 R pm msg stream w)
  then show ?case by (simp add: raft_deliver_def split: prod.split option.split)
qed simp_all

lemma raft_deliver_engine: "snd (raft_deliver R pm msg w) = snd w"
  by (simp add: raft_deliver_def split: prod.split option.split)

context fjall
begin

lemma read_version_keeps: "view (snd (snd (read_version E ver w))) = view (snd w)"
  using now_keeps [of "snd w"]
  by (auto simp: read_version_def node_now_def begin_txn_def split: prod.split)

lemma raft_storage_new_keeps: "view (snd (raft_storage_new pb E rid s)) = view s"
  unfolding raft_storage_new_def Let_def
  by (auto split: prod.split dest!: get_keeps range_keeps)

lemma multi_raft_node_new_keeps: "view (snd (multi_raft_node_new pb R E rid ps cfg s)) = view s"
  using raft_storage_new_keeps [of pb rid s]
  by (auto simp: multi_raft_node_new_def split: prod.split sum.split)

lemma choose_split_key_keeps: "view (snd (snd (choose_split_key E asked region w))) = view (snd w)"
  by (auto simp: choose_split_key_def on_engine_eq split: prod.split sum.split option.split
      intro: find_median_key_keeps [OF prod.collapse [symmetric]])

lemma kv_get_runs:
  assumes "good_keys K" "gq_key q \<in> K"
  shows "runs K (view (snd w)) (view (snd (snd (kv_get E q w))))"
proof -
  obtain ts w1 where w1: "read_version E (gq_version q) w = (ts, w1)" by (rule prod.exhaust)
  obtain r s' where g: "coord_get E (gq_key q) ts (snd w1) = (r, s')" by force
  have "view (snd w1) = view (snd w)" using read_version_keeps [of "gq_version q" w] w1 by simp
  with coord_get_runs [OF g assms] have "runs K (view (snd w)) (view s')" by simp
  then show ?thesis by (auto simp: kv_get_def w1 on_engine_eq g split: sum.split)
qed

lemma kv_scan_runs:
  assumes "good_keys K"
  shows "runs K (view (snd w)) (view (snd (snd (kv_scan E q w))))"
proof -
  obtain ts w1 where w1: "read_version E (sq_version q) w = (ts, w1)" by (rule prod.exhaust)
  obtain r s' where g: "coord_scan E (sq_start_key q) (sq_end_key q) (sq_limit q) ts (snd w1) = (r, s')" by force
  have "view (snd w1) = view (snd w)" using read_version_keeps [of "sq_version q" w] w1 by simp
  with coord_scan_runs [OF g assms] have "runs K (view (snd w)) (view s')" by simp
  then show ?thesis by (auto simp: kv_scan_def w1 on_engine_eq g split: sum.split)
qed

lemma kv_ask_split_keeps: "view (snd (snd (kv_ask_split pb R E q w))) = view (snd w)"
proof (cases "get_region (ns_router (fst w)) (aq_region_id q)")
  case None
  then show ?thesis by (simp add: kv_ask_split_def)
next
  case (Some region)
  obtain k n1 s1 where c: "choose_split_key E (aq_split_key q) region w = (k, n1, s1)"
    by (metis prod_cases3)
  have v: "view s1 = view (snd w)" using choose_split_key_keeps [of "aq_split_key q" region w] c by simp
  show ?thesis
    using v multi_raft_node_new_keeps [of pb R _ _ _ s1] Some c
    by (auto simp: kv_ask_split_def alloc_region_id_def case_prod_unfold split: option.split sum.split)
qed

lemma kv_report_region_stats_keeps: "view (snd (snd (kv_report_region_stats E q w))) = view (snd w)"
  using calculate_region_stats_keeps [OF prod.collapse [symmetric]] find_median_key_keeps [OF prod.collapse [symmetric]]
  by (auto simp: kv_report_region_stats_def on_engine_eq case_prod_unfold split: option.split)

lemma node_serve_runs:
  assumes K: "good_keys K" and ok: "request_ok K q (abs_mvcc (view (snd w)))"
  shows "runs K (view (snd w)) (view (snd (node_serve pb R pm E q w)))"
proof -
  have c: "runs K (view (snd w)) (view (coord_exec E op (snd w)))" if "op_ok K op (abs_mvcc (view (snd w)))" for op
    by (rule coord_exec_runs [OF K that])
  show ?thesis
  proof (cases q)
    case (Rq_Get x)
    with ok kv_get_runs [OF K] show ?thesis by simp
  next
    case (Rq_Scan x)
    with kv_scan_runs [OF K] show ?thesis by simp
  next
    case (Rq_Batch_Prewrite x)
    with ok c [of "Op_Batch_Prewrite (pq_start_ts x) (map decode_mutation (pq_mutations x)) (pq_primary_lock x) (pq_lock_ttl x)"]
    show ?thesis by (simp add: handler_engine)
  next
    case (Rq_Batch_Commit x)
    with ok c [of "Op_Batch_Commit (cq_start_ts x) (cq_commit_ts x) (cq_keys x)"] show ?thesis by (simp add: handler_engine)
  next
    case (Rq_Prewrite x)
    with ok c [of "Op_Prewrite (pq_start_ts x) (map decode_mutation (pq_mutations x)) (pq_primary_lock x) (pq_lock_ttl x)"]
    show ?thesis by (simp add: handler_engine)
  next
    case (Rq_Commit x)
    with ok c [of "Op_Commit (cq_start_ts x) (cq_commit_ts x) (cq_keys x)"] show ?thesis by (simp add: handler_engine)
  next
    case (Rq_Rollback x)
    with ok c [of "Op_Rollback (rq_start_ts x) (rq_keys x)"] show ?thesis by (simp add: handler_engine)
  next
    case (Rq_Status x)
    with ok c [of "Op_Status (tq_primary_key x) (tq_lock_ts x)"] show ?thesis by (simp add: handler_engine)
  next
    case (Rq_Heart_Beat x)
    with c [of "Op_Heartbeat (hq_primary_lock x) (hq_start_ts x) (hq_ttl x)"] show ?thesis by (simp add: handler_engine)
  qed (simp_all add: kv_ask_split_keeps kv_report_region_stats_keeps raft_send_message_def raft_step_def
      raft_step_loop_engine raft_deliver_engine kv_execute_txn_def raft_stream_snapshot_def)
qed

lemma served_runs:
  "served pb R pm E view K w0 w \<Longrightarrow> good_keys K \<Longrightarrow> runs K (view (snd w0)) (view (snd w))"
  by (induction rule: served.induct) (auto intro: runs_trans node_serve_runs)

end

section \<open>The region table under a request\<close>

text \<open>The table is tiled, identifiers below the counter are the only ones used, and the Raft nodes
  are filed under their own region.\<close>

definition node_ok :: "('r, 'e, 'h, 'c) NodeState \<Rightarrow> bool" where
  "node_ok n \<longleftrightarrow> tiled (ns_router n) \<and> (\<forall>r \<in> regions (ns_router n). region_id r < ns_next_region_id n) \<and>
     (\<forall>rid nd. ns_raft_nodes n rid = Some nd \<longrightarrow> mr_region_id nd = rid \<and> rid < ns_next_region_id n)"

definition same_table :: "('r, 'e, 'h, 'c) NodeState \<Rightarrow> ('r, 'e, 'h, 'c) NodeState \<Rightarrow> bool" where
  "same_table n n' \<longleftrightarrow> ns_router n' = ns_router n \<and> ns_next_region_id n' = ns_next_region_id n \<and>
     (node_ok n \<longrightarrow> node_ok n')"

lemma same_table_refl [simp]: "same_table n n"
  by (simp add: same_table_def)

lemma same_table_trans: "same_table n n' \<Longrightarrow> same_table n' n'' \<Longrightarrow> same_table n n''"
  by (simp add: same_table_def)

lemma read_version_table: "same_table (fst w) (fst (snd (read_version E ver w)))"
  by (auto simp: read_version_def node_now_def same_table_def node_ok_def split: prod.split)

lemma raft_deliver_table: "same_table (fst w) (fst (raft_deliver R pm msg w))"
proof -
  have "mr_region_id (snd (mr_step R m nd)) = mr_region_id nd" for m nd by simp
  then show ?thesis
    by (auto simp: raft_deliver_def same_table_def node_ok_def split: prod.split option.split)
qed

lemma raft_step_loop_table: "same_table (fst w) (fst (raft_step_loop R pm ms w))"
  by (induction R pm ms w rule: raft_step_loop.induct) (auto intro: same_table_trans raft_deliver_table)

lemma choose_split_key_table: "fst (snd (choose_split_key E asked region w)) = fst w"
  by (auto simp: choose_split_key_def on_engine_eq split: sum.split option.split)

lemma node_serve_table:
  assumes "\<And>q'. q \<noteq> Rq_Ask_Split q'"
  shows "same_table (fst w) (fst (node_serve pb R pm E q w))"
proof (cases q)
  case (Rq_Get x)
  then show ?thesis using read_version_table [of w E "gq_version x"]
    by (auto simp: kv_get_def on_engine_eq case_prod_unfold split: sum.split)
next
  case (Rq_Scan x)
  then show ?thesis using read_version_table [of w E "sq_version x"]
    by (auto simp: kv_scan_def on_engine_eq case_prod_unfold split: sum.split)
next
  case (Rq_Stats x)
  then show ?thesis
    by (auto simp: kv_report_region_stats_def on_engine_eq case_prod_unfold split: option.split)
qed (use assms in \<open>simp_all add: handler_engine raft_send_message_def raft_step_def raft_deliver_table raft_step_loop_table
    kv_execute_txn_def raft_stream_snapshot_def\<close>)

lemma split_region_accepts:
  assumes "split_region rid k i rt = (Inr lr, rt')"
  obtains r where "get_region rt rid = Some r" "contains_key r k" "k \<noteq> start_key r"
  using assms that by (auto simp: split_region_def get_region_def Let_def split: option.splits if_splits)

lemma less_next: "(a :: u64) < b \<Longrightarrow> unat b + 1 < 2 ^ 64 \<Longrightarrow> a < b + 1" "unat (b :: u64) + 1 < 2 ^ 64 \<Longrightarrow> b < b + 1"
proof -
  have s: "unat (b + 1) = unat b + 1" if "unat b + 1 < 2 ^ 64" for b :: u64
    using that by (subst unat_add_lem [THEN iffD1]) simp_all
  then show "a < b \<Longrightarrow> unat b + 1 < 2 ^ 64 \<Longrightarrow> a < b + 1" "unat b + 1 < 2 ^ 64 \<Longrightarrow> b < b + 1"
    by (simp_all add: word_less_nat_alt)
qed

lemma multi_raft_node_new_region:
  "multi_raft_node_new pb R E rid ps cfg s = (Inr nd, s') \<Longrightarrow> mr_region_id nd = rid"
  by (auto simp: multi_raft_node_new_def split: prod.splits sum.splits)

text \<open>The outcome of a split request.\<close>

lemma kv_ask_split_cases:
  obtains (rejected) resp w' where "kv_ask_split pb R E q w = (Inr resp, w')" "ar_new_region_id resp = 0" "ar_error resp \<noteq> No_Text"
      "ns_router (fst w') = ns_router (fst w)" "ns_raft_nodes (fst w') = ns_raft_nodes (fst w)"
      "ns_next_region_id (fst w') \<in> {ns_next_region_id (fst w), ns_next_region_id (fst w) + 1}"
    | (split) k r w' where "get_region (ns_router (fst w)) (aq_region_id q) = Some r" "contains_key r k" "k \<noteq> start_key r"
      "fst (choose_split_key E (aq_split_key q) r w) = Some k"
      "kv_ask_split pb R E q w = (Inr \<lparr>ar_new_region_id = ns_next_region_id (fst w), ar_left_start_key = start_key r,
         ar_left_end_key = k, ar_right_start_key = k, ar_right_end_key = end_key r, ar_error = No_Text\<rparr>, w')"
      "ns_router (fst w') = snd (split_region (aq_region_id q) k (ns_next_region_id (fst w)) (ns_router (fst w)))"
      "ns_next_region_id (fst w') = ns_next_region_id (fst w) + 1"
      "\<And>rid nd. ns_raft_nodes (fst w') rid = Some nd \<Longrightarrow> ns_raft_nodes (fst w) rid = Some nd \<or>
         rid = ns_next_region_id (fst w) \<and> mr_region_id nd = rid"
proof (cases "get_region (ns_router (fst w)) (aq_region_id q)")
  case None
  then show ?thesis using rejected by (simp add: kv_ask_split_def split_failed_def)
next
  case (Some r)
  let ?i = "ns_next_region_id (fst w)"
  obtain ko n1 s1 where c: "choose_split_key E (aq_split_key q) r w = (ko, n1, s1)" by (metis prod_cases3)
  have n1: "n1 = fst w" using choose_split_key_table [of E "aq_split_key q" r w] c by simp
  show ?thesis
  proof (cases ko)
    case None
    then show ?thesis using rejected Some c n1 by (simp add: kv_ask_split_def split_failed_def)
  next
    case (Some k)
    obtain sr rt where s: "split_region (aq_region_id q) k ?i (ns_router (fst w)) = (sr, rt)" by force
    show ?thesis
    proof (cases sr)
      case (Inl e)
      then have "rt = ns_router (fst w)" using split_region_rejects [of "aq_region_id q" k ?i "ns_router (fst w)" e] s by simp
      then show ?thesis
        using rejected \<open>get_region _ _ = Some r\<close> c n1 Some s Inl by (simp add: kv_ask_split_def split_failed_def alloc_region_id_def)
    next
      case (Inr lr)
      obtain r' where r': "get_region (ns_router (fst w)) (aq_region_id q) = Some r'" "contains_key r' k" "k \<noteq> start_key r'"
        using s Inr by (auto elim: split_region_accepts)
      then have r: "contains_key r k" "k \<noteq> start_key r" using \<open>get_region _ _ = Some r\<close> by simp_all
      have lr: "lr = (split_left r k, split_right r k ?i)"
        using s Inr \<open>get_region _ _ = Some r\<close> r by (auto simp: split_region_def get_region_def Let_def)
      obtain nd s2 where m: "multi_raft_node_new pb R E ?i [sc_node_id (ns_config (fst w))] (node_raft_config (ns_config (fst w))) s1 = (nd, s2)"
        by force
      let ?n = "(fst w)\<lparr>ns_next_region_id := ?i + 1, ns_router := rt, ns_raft_nodes := (case nd of
          Inr x \<Rightarrow> (ns_raft_nodes (fst w))(?i \<mapsto> x) | Inl _ \<Rightarrow> ns_raft_nodes (fst w))\<rparr>"
      have run: "kv_ask_split pb R E q w = (Inr \<lparr>ar_new_region_id = ?i, ar_left_start_key = start_key r,
         ar_left_end_key = k, ar_right_start_key = k, ar_right_end_key = end_key r, ar_error = No_Text\<rparr>, ?n, s2)"
        using \<open>get_region _ _ = Some r\<close> c n1 Some s Inr lr m
        by (simp add: kv_ask_split_def alloc_region_id_def split_left_def split_right_def cong: sum.case_cong)
      have "ns_raft_nodes (fst w) rid = Some x \<or> rid = ?i \<and> mr_region_id x = rid" if "ns_raft_nodes ?n rid = Some x" for rid x
        using that m by (auto split: sum.splits if_splits dest: multi_raft_node_new_region)
      then show ?thesis
        by (intro split [OF \<open>get_region _ _ = Some r\<close> r _ run]) (use c Some s in auto)
    qed
  qed
qed

lemma kv_ask_split_ok:
  assumes ok: "node_ok (fst w)" and room: "unat (ns_next_region_id (fst w)) + 1 < 2 ^ 64"
  shows "node_ok (fst (snd (kv_ask_split pb R E q w)))"
    and "unat (ns_next_region_id (fst (snd (kv_ask_split pb R E q w)))) \<le> unat (ns_next_region_id (fst w)) + 1"
proof -
  let ?i = "ns_next_region_id (fst w)"
  have tiled: "tiled (ns_router (fst w))" and ids: "\<And>r. r \<in> regions (ns_router (fst w)) \<Longrightarrow> region_id r < ?i"
      and nodes: "\<And>rid nd. ns_raft_nodes (fst w) rid = Some nd \<Longrightarrow> mr_region_id nd = rid \<and> rid < ?i"
    using ok unfolding node_ok_def by blast+
  have nxt: "unat (?i + 1) = unat ?i + 1"
    using room by (subst unat_add_lem [THEN iffD1]) simp_all
  have "node_ok (fst (snd (kv_ask_split pb R E q w))) \<and>
      unat (ns_next_region_id (fst (snd (kv_ask_split pb R E q w)))) \<le> unat ?i + 1"
  proof (cases rule: kv_ask_split_cases [where pb = pb and R = R and E = E and q = q and w = w])
    case (rejected resp w')
    then show ?thesis
      using tiled ids nodes nxt by (auto simp: node_ok_def intro!: less_next(1) [OF _ room])
  next
    case (split k r w')
    have fresh: "\<forall>r' \<in> regions (ns_router (fst w)). region_id r' \<noteq> ?i" using ids by fastforce
    obtain rt' where s: "split_region (aq_region_id q) k ?i (ns_router (fst w)) = (Inr (split_left r k, split_right r k ?i), rt')"
        "tiled rt'" "regions rt' = regions (ns_router (fst w)) - {r} \<union> {split_left r k, split_right r k ?i}"
      by (rule split_region_tiled [OF tiled split(1-3) fresh])
    have r: "r \<in> regions (ns_router (fst w))"
      using split(1) table_okD(4) [of "ns_router (fst w)"] tiled by (simp add: get_region_def tiled_def)
    have "region_id r' < ?i + 1" if "r' \<in> regions rt'" for r'
      using that ids [of r'] ids [OF r] less_next(1) [OF _ room] less_next(2) [OF room]
      by (auto simp: s(3) split_left_def split_right_def)
    moreover have "mr_region_id nd = rid \<and> rid < ?i + 1" if "ns_raft_nodes (fst w') rid = Some nd" for rid nd
      using split(8) [OF that] nodes [of rid nd] less_next(1) [OF _ room] less_next(2) [OF room] by auto
    ultimately show ?thesis
      using split(5-7) s(1,2) nxt by (simp add: node_ok_def)
  qed
  then show "node_ok (fst (snd (kv_ask_split pb R E q w)))"
    "unat (ns_next_region_id (fst (snd (kv_ask_split pb R E q w)))) \<le> unat ?i + 1" by blast+
qed

lemma node_serve_ok:
  assumes ok: "node_ok (fst w)" and room: "unat (ns_next_region_id (fst w)) + 1 < 2 ^ 64"
  shows "node_ok (fst (node_serve pb R pm E q w)) \<and>
    unat (ns_next_region_id (fst (node_serve pb R pm E q w))) \<le> unat (ns_next_region_id (fst w)) + 1"
proof (cases "\<exists>q'. q = Rq_Ask_Split q'")
  case True
  with kv_ask_split_ok [OF assms] show ?thesis by auto
next
  case False
  with node_serve_table [of q w pb R pm E] ok show ?thesis by (auto simp: same_table_def)
qed

definition node_serves ::
  "('e, 'h, 'c) raft_pb \<Rightarrow> ('r, 'e, 'h, 'c, 'm) raw_node \<Rightarrow> (bytes \<Rightarrow> 'm option) \<Rightarrow> 's env \<Rightarrow> node_request list \<Rightarrow>
     ('r, 'e, 'h, 'c) NodeState \<times> 's \<Rightarrow> ('r, 'e, 'h, 'c) NodeState \<times> 's" where
  "node_serves pb R pm E qs w = foldl (\<lambda>w q. node_serve pb R pm E q w) w qs"

lemma node_serves_ok:
  assumes "node_ok (fst w)" "unat (ns_next_region_id (fst w)) + length qs < 2 ^ 64"
  shows "node_ok (fst (node_serves pb R pm E qs w)) \<and>
    unat (ns_next_region_id (fst (node_serves pb R pm E qs w))) \<le> unat (ns_next_region_id (fst w)) + length qs"
  using assms
proof (induction qs arbitrary: w)
  case Nil
  then show ?case by (simp add: node_serves_def)
next
  case (Cons q qs)
  have "unat (ns_next_region_id (fst w)) + 1 < 2 ^ 64" using Cons.prems(2) by simp
  note s = node_serve_ok [OF Cons.prems(1) this, of pb R pm E q]
  with Cons.IH [of "node_serve pb R pm E q w"] Cons.prems(2) show ?case by (simp add: node_serves_def)
qed

lemma node_state_new_ok:
  assumes "node_state_new pb R E op cfg = Some (Inr w)"
  shows "node_ok (fst w)" "ns_next_region_id (fst w) = 2"
proof -
  have ok: "node_ok n" if "n = \<lparr>ns_config = cfg, ns_hlc = h,
      ns_router = insert_region (region_new 1 [] [] [sc_node_id cfg]) router_new, ns_raft_nodes = [1 \<mapsto> nd], ns_next_region_id = 2\<rparr>"
      "mr_region_id nd = 1" for n h nd
    using initial_tiled that
    by (auto simp: node_ok_def regions_def insert_region_def router_new_def region_new_def split: if_splits)
  from assms show "node_ok (fst w)" "ns_next_region_id (fst w) = 2"
    by (auto simp: node_state_new_def intro!: ok [OF refl] dest: multi_raft_node_new_region split: sum.splits prod.splits)
qed

lemma outside_range_region: "outside_range (start_key r) (end_key r) k \<longleftrightarrow> \<not> contains_key r k"
  by (auto simp: outside_range_def contains_key_def)

lemma ask_split_median:
  assumes E: "fjall_reliable E view" and ok: "node_ok (fst w)" and room: "unat (ns_next_region_id (fst w)) + 1 < 2 ^ 64"
    and r: "get_region (ns_router (fst w)) rid = Some r"
    and two: "2 \<le> card {k \<in> user_keys (view (snd w) P_Write). contains_key r k}"
  obtains k k0 w' where "kv_ask_split pb R E \<lparr>aq_region_id = rid, aq_split_key = []\<rparr> w =
      (Inr \<lparr>ar_new_region_id = ns_next_region_id (fst w), ar_left_start_key = start_key r,
         ar_left_end_key = k, ar_right_start_key = k, ar_right_end_key = end_key r, ar_error = No_Text\<rparr>, w')"
    "node_ok (fst w')" "k \<in> user_keys (view (snd w) P_Write)" "k0 \<in> user_keys (view (snd w) P_Write)"
    "route_key (ns_router (fst w')) k0 = Inr (split_left r k)"
    "route_key (ns_router (fst w')) k = Inr (split_right r k (ns_next_region_id (fst w)))"
proof -
  let ?q = "\<lparr>aq_region_id = rid, aq_split_key = []\<rparr>" and ?i = "ns_next_region_id (fst w)"
  have nl: "\<not> card {k \<in> user_keys (view (snd w) P_Write). \<not> outside_range (start_key r) (end_key r) k} < 2"
    using two by (simp add: outside_range_region)
  obtain s' k k0 where m: "find_median_key E (start_key r) (end_key r) (snd w) = (Inr (Some k), s')"
      "k \<in> user_keys (view (snd w) P_Write)" "contains_key r k" "k0 \<in> user_keys (view (snd w) P_Write)"
      "contains_key r k0" "k0 < k"
    by (rule fjall_reliable.find_median_key_correct [OF E, of "start_key r" "end_key r" "snd w"])
       (use nl in \<open>auto simp: outside_range_region\<close>)
  have ne: "k \<noteq> start_key r"
    using m(5,6) by (auto simp: contains_key_def)
  have c: "choose_split_key E [] r w = (Some k, fst w, s')"
    by (simp add: choose_split_key_def on_engine_eq m(1))
  have tiled: "tiled (ns_router (fst w))" and fresh: "\<forall>r' \<in> regions (ns_router (fst w)). region_id r' \<noteq> ?i"
    using ok by (fastforce simp: node_ok_def)+
  obtain rt' where s: "split_region rid k ?i (ns_router (fst w)) = (Inr (split_left r k, split_right r k ?i), rt')"
      "tiled rt'" "regions rt' = regions (ns_router (fst w)) - {r} \<union> {split_left r k, split_right r k ?i}"
    by (rule split_region_tiled [OF tiled r m(3) ne fresh])
  have split: "contains_key (split_left r k) k0" "contains_key (split_right r k ?i) k"
    using contains_split [OF m(3) ne] m(3,5,6) by simp_all
  show ?thesis
  proof (cases rule: kv_ask_split_cases [where pb = pb and R = R and E = E and q = ?q and w = w])
    case (rejected resp w')
    have "fst (kv_ask_split pb R E ?q w) \<noteq> Inr resp"
      using rejected(3) r c s(1) by (auto simp: kv_ask_split_def alloc_region_id_def case_prod_unfold)
    with rejected(1) show ?thesis by simp
  next
    case (split k' r' w')
    have kr: "k' = k" "r' = r" using split(1,4) r c by simp_all
    have "ns_router (fst w') = rt'" using split(6) s(1) kr by simp
    then have "route_key (ns_router (fst w')) k0 = Inr (split_left r k)"
        "route_key (ns_router (fst w')) k = Inr (split_right r k ?i)"
      using \<open>contains_key (split_left r k) k0\<close> \<open>contains_key (split_right r k ?i) k\<close>
      by (simp_all add: route_key_iff [OF s(2)] s(3))
    moreover have "node_ok (fst w')" using kv_ask_split_ok(1) [OF ok room, of pb R E ?q] split(5) by simp
    ultimately show ?thesis using that split(5) kr m(2,4) by blast
  qed
qed

section \<open>Properties of the node\<close>

text \<open>C3. Snapshot isolation of the server: after any sequence of requests of clients that respect the
  conditions \<open>request_ok\<close> and wherever the engine failed, the store is well formed and on no key do
  the lifetimes of two committed writes overlap. The conditions: the keys of the requests are
  keys of the workload, none of which is a prefix of another; a transaction commits no earlier
  than it starts; and it prewrites only when no transaction that committed at or after its start
  has locks left. The theory \<open>Counterexamples\<close> has a run that breaks the isolation for each of the
  last two.\<close>

theorem served_snapshot_isolation:
  assumes "fjall E view" "good_keys K" "wf_store K (view (snd w0))" "si_inv (abs_mvcc (view (snd w0)))"
    and "served pb R pm E view K w0 w"
  shows "wf_store K (view (snd w)) \<and> si_inv (abs_mvcc (view (snd w)))"
  using runs_si [OF fjall.served_runs [OF assms(1,5,2)] assms(3,4)] .

definition solo_server :: "mem_db \<Rightarrow> (solo_state, plain_entry, plain_hs, bytes) NodeState \<times> mem_db" where
  "solo_server d = (case node_state_new plain_pb solo mem_env (\<lambda>_ _. Inr d) server_config_default of Some (Inr w) \<Rightarrow> w)"

lemma solo_server: "node_state_new plain_pb solo mem_env (\<lambda>_ _. Inr d) server_config_default = Some (Inr (solo_server d))"
  by (simp add: solo_server_def node_state_new_def multi_raft_node_new_def solo_def split: prod.split)

lemma solo_server_view: "mem_view (snd (solo_server d)) = mem_view d"
  using solo_server [of d] mem.multi_raft_node_new_keeps [of plain_pb solo 1]
  by (auto simp: node_state_new_def dest!: mem.now_keeps split: prod.splits sum.splits)
     (metis snd_conv)

definition server_run :: "node_request list" where
  "server_run =
     [Rq_Prewrite \<lparr>pq_mutations = [\<lparr>pb_op = 0, pb_key = [1], pb_value = [11]\<rparr>, \<lparr>pb_op = 1, pb_key = [2], pb_value = []\<rparr>],
        pq_primary_lock = [1], pq_start_ts = 5, pq_lock_ttl = 3000\<rparr>,
      Rq_Commit \<lparr>cq_keys = [[1], [2]], cq_start_ts = 5, cq_commit_ts = 20\<rparr>,
      Rq_Ask_Split \<lparr>aq_region_id = 1, aq_split_key = [2]\<rparr>,
      Rq_Get \<lparr>gq_key = [1], gq_version = 0\<rparr>]"

theorem served_snapshot_isolation_witness:
  "wf_store (set [[1], [2], [3]]) (mem_view (snd (node_serves plain_pb solo Some mem_env server_run (solo_server (mem_init []))))) \<and>
   si_inv (abs_mvcc (mem_view (snd (node_serves plain_pb solo Some mem_env server_run (solo_server (mem_init []))))))"
proof -
  let ?w = "solo_server (mem_init [])"
  have start: "wf_store (set [[1], [2], [3]]) (mem_view (snd ?w))" "si_inv (abs_mvcc (mem_view (snd ?w)))"
      "settled 5 (abs_mvcc (mem_view (snd ?w)))"
    using mem_init_ok by (simp_all add: solo_server_view)
  have "served plain_pb solo Some mem_env mem_view (set [[1], [2], [3]]) ?w
      (node_serves plain_pb solo Some mem_env server_run ?w)"
    unfolding node_serves_def server_run_def foldl.simps
    by (intro served_step served_init) (use start(3) in \<open>simp_all add: decode_mutation_def\<close>)
  from served_snapshot_isolation [OF mem.fjall_axioms mem_keys start(1,2) this] show ?thesis .
qed

text \<open>C21. The region table of a server: from its start on, whatever requests it serves and whatever
  the engine does, the regions partition the key space, every key is routed to the one region
  that contains it, and every identifier in use is below the counter, as long as fewer
  requests were served than identifiers remain.\<close>

theorem server_table_partitions_keys:
  assumes "node_state_new pb R E op cfg = Some (Inr w)" "length qs + 2 < 2 ^ 64"
  shows "node_ok (fst (node_serves pb R pm E qs w)) \<and>
    (\<exists>r. route_key (ns_router (fst (node_serves pb R pm E qs w))) key = Inr r \<and> contains_key r key \<and>
      region_id r < ns_next_region_id (fst (node_serves pb R pm E qs w)))"
proof -
  have ok: "node_ok (fst (node_serves pb R pm E qs w))"
    using node_serves_ok [OF node_state_new_ok(1) [OF assms(1)], of qs pb R pm E] node_state_new_ok(2) [OF assms(1)] assms(2) by simp
  then have "tiled (ns_router (fst (node_serves pb R pm E qs w)))" by (simp add: node_ok_def)
  from route_key_tiled [OF this, of key] ok show ?thesis by (metis node_ok_def)
qed

theorem server_table_partitions_keys_witness:
  "\<exists>r. route_key (ns_router (fst (node_serves plain_pb solo Some mem_env server_run (solo_server (mem_init []))))) [7] = Inr r \<and>
     contains_key r [7]"
  using server_table_partitions_keys [OF solo_server, where qs = server_run and key = "[7]" and pm = Some]
  by (simp add: server_run_def) blast

text \<open>C31. Automatic splitting: when a region of the table holds at least two keys, a split request
  without a key, on an engine that does not fail, splits the region at one of its keys; the
  new region takes the next identifier, the table stays tiled, and both parts hold a key.\<close>

theorem ask_split_splits_at_median:
  assumes "fjall_reliable E view" "node_ok n" "unat (ns_next_region_id n) + 1 < 2 ^ 64"
    and "get_region (ns_router n) rid = Some r"
    and "2 \<le> card {k \<in> user_keys (view s P_Write). contains_key r k}"
  shows "\<exists>k k0 n' s'. kv_ask_split pb R E \<lparr>aq_region_id = rid, aq_split_key = []\<rparr> (n, s) =
      (Inr \<lparr>ar_new_region_id = ns_next_region_id n, ar_left_start_key = start_key r,
         ar_left_end_key = k, ar_right_start_key = k, ar_right_end_key = end_key r, ar_error = No_Text\<rparr>, n', s') \<and>
    node_ok n' \<and> k \<in> user_keys (view s P_Write) \<and> k0 \<in> user_keys (view s P_Write) \<and>
    route_key (ns_router n') k0 = Inr (split_left r k) \<and>
    route_key (ns_router n') k = Inr (split_right r k (ns_next_region_id n))"
  by (rule ask_split_median [OF assms(1), where w = "(n, s)" and rid = rid and r = r and pb = pb and R = R])
     (use assms(2-5) in auto)

lemma keys_db_keys: "{k \<in> user_keys (mem_view keys_db P_Write). contains_key (region_new 1 [] [] ps) k} = {[1], [3]}"
proof -
  have k: "fst (get_keys_in_range mem_env [] [] keys_db) = Inr [[1], [3]]" by code_simp
  show ?thesis
    by (rule mem.get_keys_in_range_correct [of "[]" "[]" keys_db])
       (use k in \<open>auto simp: contains_key_def region_new_def outside_range_def\<close>)
qed

theorem ask_split_splits_at_median_witness:
  "\<exists>k n'. fst (snd (kv_ask_split plain_pb solo mem_env \<lparr>aq_region_id = 1, aq_split_key = []\<rparr> (solo_server keys_db))) = n' \<and>
     k \<in> user_keys (mem_view keys_db P_Write) \<and> route_key (ns_router n') k = Inr (split_right (region_new 1 [] [] [1]) k 2)"
proof -
  obtain n s where w: "solo_server keys_db = (n, s)" by force
  have ok: "node_ok n" "ns_next_region_id n = 2"
    using node_state_new_ok [OF solo_server, of keys_db] by (simp_all add: w)
  have v: "mem_view s = mem_view keys_db" using solo_server_view [of keys_db] by (simp add: w)
  have "ns_router (fst (solo_server keys_db)) = insert_region (region_new 1 [] [] [1]) router_new" by code_simp
  then have r: "get_region (ns_router n) 1 = Some (region_new 1 [] [] [1])"
    by (simp add: w get_region_def insert_region_def router_new_def region_new_def)
  have "2 \<le> card {k \<in> user_keys (mem_view s P_Write). contains_key (region_new 1 [] [] [1]) k}"
    unfolding v keys_db_keys by simp
  from ask_split_splits_at_median [OF mem.fjall_reliable_axioms ok(1) _ r this, where pb = plain_pb and R = solo]
  show ?thesis by (auto simp: w ok(2) v)
qed

end
