(* ===== verification/Client.thy ===== *)
theory Client
  imports Node_System
begin

text \<open>
  \<^verbatim>\<open>client/src/client.rs\<close> and \<^verbatim>\<open>client/src/bin/kv-cli.rs\<close>: the client library with its batch
  collector, and the commands of the command line tool. The generated gRPC stubs are a
  parameter: the record \<open>stubs\<close> of the calls the client makes, over a state \<open>'w\<close> of the world
  behind them. \<open>node_stubs\<close> connects them to the handlers of a node.
\<close>

section \<open>The stubs\<close>

datatype ClientError =
    Ce_Tonic string
  | Ce_InvalidUri string
  | Ce_Status Status
  | Ce_NotFound
  | Ce_ChannelClosed
  | Ce_SplitError string

record 'w stubs =
  st_get :: "GetRequest \<Rightarrow> 'w \<Rightarrow> (Status + GetResponse) \<times> 'w"
  st_scan :: "ScanRequest \<Rightarrow> 'w \<Rightarrow> (Status + ScanResponse) \<times> 'w"
  st_batch_prewrite :: "BatchPrewriteRequest \<Rightarrow> 'w \<Rightarrow> (Status + BatchPrewriteResponse) \<times> 'w"
  st_batch_commit :: "BatchCommitRequest \<Rightarrow> 'w \<Rightarrow> (Status + BatchCommitResponse) \<times> 'w"
  st_ask_split :: "AskSplitRequest \<Rightarrow> 'w \<Rightarrow> (Status + AskSplitResponse) \<times> 'w"
  st_prewrite :: "PrewriteRequest \<Rightarrow> 'w \<Rightarrow> (Status + PrewriteResponse) \<times> 'w"
  st_commit :: "CommitRequest \<Rightarrow> 'w \<Rightarrow> (Status + CommitResponse) \<times> 'w"
  st_rollback :: "RollbackRequest \<Rightarrow> 'w \<Rightarrow> (Status + RollbackResponse) \<times> 'w"
  st_heart_beat :: "TxnHeartBeatRequest \<Rightarrow> 'w \<Rightarrow> (Status + TxnHeartBeatResponse) \<times> 'w"

text \<open>\<^verbatim>\<open>.await?\<close> turns a status into an error of the client.\<close>

definition rpc :: "('q \<Rightarrow> 'w \<Rightarrow> (Status + 'p) \<times> 'w) \<Rightarrow> 'q \<Rightarrow> ('p \<Rightarrow> 'a) \<Rightarrow> 'w \<Rightarrow> (ClientError + 'a) \<times> 'w" where
  "rpc stub req f w = (case stub req w of
     (Inl st, w') \<Rightarrow> (Inl (Ce_Status st), w')
   | (Inr res, w') \<Rightarrow> (Inr (f res), w'))"

section \<open>The client\<close>

text \<open>Parsing an endpoint and opening a channel are the transport library's: the first gives an
  endpoint or the text of the URI error, the second the stubs over the channel or the text of
  the transport error. Both stubs of \<^verbatim>\<open>KvClient\<close> share the channel.\<close>

definition client_connect ::
  "(string \<Rightarrow> string + 'p) \<Rightarrow> ('p \<Rightarrow> 'w \<Rightarrow> (string + 'w stubs) \<times> 'w) \<Rightarrow> string \<Rightarrow> 'w \<Rightarrow> (ClientError + 'w stubs) \<times> 'w" where
  "client_connect from_shared open_channel endpoint w = (case from_shared endpoint of
     Inl e \<Rightarrow> (Inl (Ce_InvalidUri e), w)
   | Inr uri \<Rightarrow> (case open_channel uri w of
       (Inl e, w1) \<Rightarrow> (Inl (Ce_Tonic e), w1)
     | (Inr S, w1) \<Rightarrow> (Inr S, w1)))"

definition found_value :: "GetResponse \<Rightarrow> bytes option" where
  "found_value res = (if gr_found res then Some (gr_value res) else None)"

definition client_get :: "'w stubs \<Rightarrow> bytes \<Rightarrow> 'w \<Rightarrow> (ClientError + bytes option) \<times> 'w" where
  "client_get S key = rpc (st_get S) \<lparr>gq_key = key, gq_version = 0\<rparr> found_value"

definition client_scan ::
  "'w stubs \<Rightarrow> bytes \<Rightarrow> bytes \<Rightarrow> u32 \<Rightarrow> 'w \<Rightarrow> (ClientError + (bytes \<times> bytes) list) \<times> 'w" where
  "client_scan S start stop limit =
     rpc (st_scan S) \<lparr>sq_start_key = start, sq_end_key = stop, sq_limit = limit, sq_version = 0\<rparr>
       (\<lambda>res. map (\<lambda>kv. (kv_key kv, kv_value kv)) (sr_kvs res))"

definition client_txn_get :: "'w stubs \<Rightarrow> bytes \<Rightarrow> u64 \<Rightarrow> 'w \<Rightarrow> (ClientError + bytes option) \<times> 'w" where
  "client_txn_get S key start_ts = rpc (st_get S) \<lparr>gq_key = key, gq_version = start_ts\<rparr> found_value"

definition encode_mutation :: "bytes \<times> bytes option \<Rightarrow> PbMutation" where
  "encode_mutation m = (case m of
     (key, Some val) \<Rightarrow> \<lparr>pb_op = 0, pb_key = key, pb_value = val\<rparr>
   | (key, None) \<Rightarrow> \<lparr>pb_op = 1, pb_key = key, pb_value = []\<rparr>)"

definition client_txn_prewrite ::
  "'w stubs \<Rightarrow> u64 \<Rightarrow> (bytes \<times> bytes option) list \<Rightarrow> bytes \<Rightarrow> u64 \<Rightarrow> 'w \<Rightarrow> (ClientError + unit) \<times> 'w" where
  "client_txn_prewrite S start_ts mutations primary_key ttl =
     rpc (st_prewrite S)
       \<lparr>pq_mutations = map encode_mutation mutations, pq_primary_lock = primary_key, pq_start_ts = start_ts, pq_lock_ttl = ttl\<rparr>
       (\<lambda>_. ())"

definition client_txn_commit ::
  "'w stubs \<Rightarrow> u64 \<Rightarrow> u64 \<Rightarrow> bytes list \<Rightarrow> 'w \<Rightarrow> (ClientError + unit) \<times> 'w" where
  "client_txn_commit S start_ts commit_ts keys =
     rpc (st_commit S) \<lparr>cq_keys = keys, cq_start_ts = start_ts, cq_commit_ts = commit_ts\<rparr> (\<lambda>_. ())"

definition client_batch_prewrite ::
  "'w stubs \<Rightarrow> u64 \<Rightarrow> (bytes \<times> bytes option) list \<Rightarrow> bytes \<Rightarrow> u64 \<Rightarrow> 'w \<Rightarrow> (ClientError + unit) \<times> 'w" where
  "client_batch_prewrite S start_ts mutations primary_key ttl =
     rpc (st_batch_prewrite S)
       \<lparr>pq_mutations = map encode_mutation mutations, pq_primary_lock = primary_key, pq_start_ts = start_ts, pq_lock_ttl = ttl\<rparr>
       (\<lambda>_. ())"

definition client_batch_commit ::
  "'w stubs \<Rightarrow> u64 \<Rightarrow> u64 \<Rightarrow> bytes list \<Rightarrow> 'w \<Rightarrow> (ClientError + unit) \<times> 'w" where
  "client_batch_commit S start_ts commit_ts keys =
     rpc (st_batch_commit S) \<lparr>cq_keys = keys, cq_start_ts = start_ts, cq_commit_ts = commit_ts\<rparr> (\<lambda>_. ())"

definition client_ask_split :: "'w stubs \<Rightarrow> u64 \<Rightarrow> bytes \<Rightarrow> 'w \<Rightarrow> (ClientError + AskSplitResponse) \<times> 'w" where
  "client_ask_split S rid split_key =
     rpc (st_ask_split S) \<lparr>aq_region_id = rid, aq_split_key = split_key\<rparr> (\<lambda>res. res)"

definition client_txn_rollback :: "'w stubs \<Rightarrow> u64 \<Rightarrow> bytes list \<Rightarrow> 'w \<Rightarrow> (ClientError + unit) \<times> 'w" where
  "client_txn_rollback S start_ts keys =
     rpc (st_rollback S) \<lparr>rq_keys = keys, rq_start_ts = start_ts\<rparr> (\<lambda>_. ())"

definition client_txn_heartbeat :: "'w stubs \<Rightarrow> u64 \<Rightarrow> bytes \<Rightarrow> u64 \<Rightarrow> 'w \<Rightarrow> (ClientError + bool) \<times> 'w" where
  "client_txn_heartbeat S start_ts primary_key ttl =
     rpc (st_heart_beat S) \<lparr>hq_start_ts = start_ts, hq_primary_lock = primary_key, hq_ttl = ttl\<rparr> hr_success"

section \<open>The batch collector\<close>

record PrewriteItem =
  pi_start_ts :: u64
  pi_mutations :: "(bytes \<times> bytes option) list"
  pi_primary_key :: bytes
  pi_lock_ttl :: u64

record CommitItem =
  ci_start_ts :: u64
  ci_commit_ts :: u64
  ci_keys :: "bytes list"

text \<open>What a worker of the collector sees: an item, the end of the flush interval, or the end of
  its channel. Which of several ready branches \<^verbatim>\<open>select!\<close> takes is up to the runtime, so a run
  is any list of these events. The accumulator \<open>items\<close> is the batch being collected; the
  result lists the items sent with what the server answered, and the items still waiting.\<close>

datatype 'i event = Recv 'i | Timeout | Closed

fun flush :: "('i \<Rightarrow> 'w \<Rightarrow> 'a \<times> 'w) \<Rightarrow> 'i list \<Rightarrow> 'w \<Rightarrow> ('i \<times> 'a) list \<times> 'w" where
  "flush send [] w = ([], w)"
| "flush send (item # items) w =
     (case send item w of (res, w1) \<Rightarrow>
      case flush send items w1 of (out, w2) \<Rightarrow> ((item, res) # out, w2))"

fun worker :: "nat \<Rightarrow> ('i \<Rightarrow> 'w \<Rightarrow> 'a \<times> 'w) \<Rightarrow> 'i event list \<Rightarrow> 'i list \<Rightarrow> 'w \<Rightarrow> ('i \<times> 'a) list \<times> 'i list \<times> 'w" where
  "worker batch_size send [] items w = ([], items, w)"
| "worker batch_size send (Closed # evs) items w = ([], items, w)"
| "worker batch_size send (Timeout # evs) items w =
     (case flush send items w of (out1, w1) \<Rightarrow>
      case worker batch_size send evs [] w1 of (out2, p, w2) \<Rightarrow> (out1 @ out2, p, w2))"
| "worker batch_size send (Recv item # evs) items w =
     (if length (items @ [item]) \<ge> batch_size then
        (case flush send (items @ [item]) w of (out1, w1) \<Rightarrow>
         case worker batch_size send evs [] w1 of (out2, p, w2) \<Rightarrow> (out1 @ out2, p, w2))
      else worker batch_size send evs (items @ [item]) w)"

definition prewrite_worker ::
  "'w stubs \<Rightarrow> nat \<Rightarrow> PrewriteItem event list \<Rightarrow> 'w \<Rightarrow>
     (PrewriteItem \<times> (ClientError + unit)) list \<times> PrewriteItem list \<times> 'w" where
  "prewrite_worker S batch_size evs w =
     worker batch_size (\<lambda>item. client_batch_prewrite S (pi_start_ts item) (pi_mutations item)
       (pi_primary_key item) (pi_lock_ttl item)) evs [] w"

definition commit_worker ::
  "'w stubs \<Rightarrow> nat \<Rightarrow> CommitItem event list \<Rightarrow> 'w \<Rightarrow>
     (CommitItem \<times> (ClientError + unit)) list \<times> CommitItem list \<times> 'w" where
  "commit_worker S batch_size evs w =
     worker batch_size (\<lambda>item. client_batch_commit S (ci_start_ts item) (ci_commit_ts item) (ci_keys item)) evs [] w"

text \<open>What the submitter of the \<open>i\<close>-th received item gets: the answer to its own call, or an error
  when the worker ended without sending it.\<close>

definition submit_result :: "nat \<Rightarrow> ('i \<times> (ClientError + unit)) list \<Rightarrow> ClientError + unit" where
  "submit_result i out = (if i < length out then snd (out ! i) else Inl Ce_ChannelClosed)"

section \<open>The command line tool\<close>

datatype Commands = Cmd_Get bytes | Cmd_Put bytes bytes | Cmd_Scan bytes bytes u32

datatype cli_output = Out_Value bytes | Out_Nil | Out_Ok | Out_Pairs "(bytes \<times> bytes) list"

text \<open>The boxed errors of \<^verbatim>\<open>main\<close>: those of the client, and a wall clock before the epoch. The reading
  of the wall clock is an argument, \<open>None\<close> when it is before the epoch. What is printed is the bytes,
  before their lossy conversion to text.\<close>

datatype cli_error = Cli_Client ClientError | Cli_Clock

definition cli_put :: "'w stubs \<Rightarrow> u64 option \<Rightarrow> bytes \<Rightarrow> bytes \<Rightarrow> 'w \<Rightarrow> (cli_error + cli_output) \<times> 'w" where
  "cli_put S now key val w = (case now of
     None \<Rightarrow> (Inl Cli_Clock, w)
   | Some physical_now \<Rightarrow>
       (let start_ts = push_bit 16 physical_now; commit_ts = start_ts + 1 in
        (case client_txn_prewrite S start_ts [(key, Some val)] key 3000 w of
           (Inl e, w1) \<Rightarrow> (Inl (Cli_Client e), w1)
         | (Inr _, w1) \<Rightarrow>
             (case client_txn_commit S start_ts commit_ts [key] w1 of
                (Inl e, w2) \<Rightarrow> (Inl (Cli_Client e), w2)
              | (Inr _, w2) \<Rightarrow> (Inr Out_Ok, w2)))))"

fun cli_run :: "'w stubs \<Rightarrow> u64 option \<Rightarrow> Commands \<Rightarrow> 'w \<Rightarrow> (cli_error + cli_output) \<times> 'w" where
  "cli_run S now (Cmd_Get key) w =
     (case client_get S key w of
        (Inl e, w1) \<Rightarrow> (Inl (Cli_Client e), w1)
      | (Inr (Some val), w1) \<Rightarrow> (Inr (Out_Value val), w1)
      | (Inr None, w1) \<Rightarrow> (Inr Out_Nil, w1))"
| "cli_run S now (Cmd_Put key val) w = cli_put S now key val w"
| "cli_run S now (Cmd_Scan start stop limit) w =
     (case client_scan S start stop limit w of
        (Inl e, w1) \<Rightarrow> (Inl (Cli_Client e), w1)
      | (Inr results, w1) \<Rightarrow> (Inr (Out_Pairs results), w1))"

text \<open>The parsed command line, with the endpoint the tool takes when none is given.\<close>

record Cli =
  cli_endpoint :: string
  cli_command :: Commands

definition default_endpoint :: string where
  "default_endpoint = ''http://127.0.0.1:50051''"

definition cli_main ::
  "(string \<Rightarrow> string + 'p) \<Rightarrow> ('p \<Rightarrow> 'w \<Rightarrow> (string + 'w stubs) \<times> 'w) \<Rightarrow> u64 option \<Rightarrow> Cli \<Rightarrow> 'w \<Rightarrow> (cli_error + cli_output) \<times> 'w" where
  "cli_main from_shared open_channel now cli w =
     (case client_connect from_shared open_channel (cli_endpoint cli) w of
        (Inl e, w1) \<Rightarrow> (Inl (Cli_Client e), w1)
      | (Inr S, w1) \<Rightarrow> cli_run S now (cli_command cli) w1)"

section \<open>A node behind the stubs\<close>

definition node_stubs ::
  "('e, 'h, 'c) raft_pb \<Rightarrow> ('r, 'e, 'h, 'c, 'm) raw_node \<Rightarrow> 's env \<Rightarrow> (('r, 'e, 'h, 'c) NodeState \<times> 's) stubs" where
  "node_stubs pb R E =
     \<lparr>st_get = kv_get E, st_scan = kv_scan E, st_batch_prewrite = kv_batch_prewrite E,
      st_batch_commit = kv_batch_commit E, st_ask_split = kv_ask_split pb R E,
      st_prewrite = Node_Service.txn_prewrite E, st_commit = Node_Service.txn_commit E,
      st_rollback = Node_Service.txn_rollback E, st_heart_beat = txn_heart_beat E\<rparr>"

text \<open>What the client means by a mutation is what the server decodes.\<close>

definition client_mutation :: "bytes \<times> bytes option \<Rightarrow> Mutation" where
  "client_mutation m = (case m of (key, Some val) \<Rightarrow> M_Put key val | (key, None) \<Rightarrow> M_Delete key)"

lemma decode_encode_mutation [simp]: "decode_mutation (encode_mutation m) = client_mutation m"
  by (simp add: decode_mutation_def encode_mutation_def client_mutation_def split: prod.split option.split)

lemma decode_encode_mutations [simp]: "map (decode_mutation \<circ> encode_mutation) ms = map client_mutation ms"
  by simp

end
