(* ===== verification/Txn_Progress.thy ===== *)
theory Txn_Progress
  imports Txn_System
begin

text \<open>
  Progress: on an engine that does not fail, a transaction on keys that nobody else has locked
  or written since its start gets through. \<open>prewrite\<close> lays all its locks and \<open>commit\<close> commits
  them.
\<close>

section \<open>Keys open to a transaction\<close>

definition open_for :: "u64 \<Rightarrow> bytes \<Rightarrow> mvcc \<Rightarrow> bool" where
  "open_for st k m \<longleftrightarrow> (\<forall>t w. m_writes m (k, t) = Some w \<longrightarrow> t < st) \<and> \<not> rolled_back m k st \<and>
     (\<forall>l. m_locks m k = Some l \<longrightarrow> lock_start_ts l = st)"

lemma open_for_lay: "open_for st k m \<Longrightarrow> open_for st k (lay st pk ttl mutation m)"
  by (auto simp: open_for_def rolled_back_def)

lemma conflict_scan_no_fault: "conflict_scan k st (map Inr kvs) \<noteq> Inl (Txn_Fjall e)"
  by (induction kvs) (auto split: sum.splits prod.splits option.splits if_splits)

context fjall_reliable
begin

lemma check_write_conflict_open:
  assumes "open_for st k (abs_mvcc (view s))" "good_keys K" "k \<in> K" "wf_store K (view s)"
  obtains s' where "check_write_conflict E k st s = (Inr (), s')" "view s' = view s"
proof -
  obtain r s' where run: "check_write_conflict E k st s = (r, s')" by force
  have "r \<noteq> Inl (Txn_Fjall e)" for e
    using run by (rule_tac range_reliable [of P_Write "key_encode k (-1)" s])
      (auto simp: check_write_conflict_def conflict_scan_no_fault)
  moreover have "r \<noteq> Inl (Txn_Storage e)" for e
  proof -
    have "conflict_scan k st its \<noteq> Inl (Txn_Storage e)" for its
      by (induction k st its rule: conflict_scan.induct) (auto split: sum.splits prod.splits option.splits if_splits)
    then show ?thesis using run by (auto simp: check_write_conflict_def split: prod.splits)
  qed
  ultimately have io: "\<not> (\<exists>e. r = Inl e \<and> txn_io e)"
    by (auto elim!: txn_io.elims)
  from run assms(2-4) show ?thesis
    by (cases rule: check_write_conflict_cases) (use io assms(1) run that in \<open>auto simp: open_for_def\<close>)
qed

lemma check_lock_open:
  assumes "open_for st k (abs_mvcc (view s))" "wf_store K (view s)"
  obtains s' where "check_lock E k st s = (Inr (), s')" "view s' = view s"
proof -
  obtain g s1 where g: "fj_get E P_Lock k s = (g, s1)" by force
  from g assms(2) show ?thesis
    by (cases rule: get_lock_cases)
       (use g assms(1) that in \<open>auto simp: check_lock_def resolve_existing_def open_for_def never_fails\<close>)
qed

lemma prewrite_one_open:
  assumes "open_for st (mutation_key mutation) (abs_mvcc (view s))" "good_keys K" "pk \<in> K"
    and "mutation_key mutation \<in> K" "wf_store K (view s)"
  obtains s' where "prewrite_one E st pk ttl mutation s = (Inr (), s')" "wf_store K (view s')"
    "abs_mvcc (view s') = lay st pk ttl mutation (abs_mvcc (view s))"
proof -
  obtain s1 where 1: "check_write_conflict E (mutation_key mutation) st s = (Inr (), s1)" "view s1 = view s"
    by (rule check_write_conflict_open [OF assms(1,2,4,5)])
  obtain s2 where 2: "check_lock E (mutation_key mutation) st s1 = (Inr (), s2)" "view s2 = view s1"
    by (rule check_lock_open [of st "mutation_key mutation" s1]) (use assms 1 in simp_all)
  obtain s3 where 3: "commit_batch E (stage_mutation st pk ttl mutation) s2 = (Inr (), s3)"
      "view s3 = apply_batch (stage_mutation st pk ttl mutation) (view s2)"
    by (rule commit_batch_reliable)
  show ?thesis
    by (rule that [of s3])
       (use 1 2 3 assms abs_stage_mutation [OF assms(2,3)] wf_stage_mutation [OF assms(2,3,4)] in
         \<open>simp_all add: prewrite_one_def\<close>)
qed

lemma prewrite_open:
  assumes "list_all (\<lambda>mutation. open_for st (mutation_key mutation) (abs_mvcc (view s))) ms"
    and K: "good_keys K" "pk \<in> K" "mutation_key ` set ms \<subseteq> K" and "wf_store K (view s)"
  obtains s' where "prewrite E st ms pk ttl s = (Inr (), s')" "wf_store K (view s')"
    "abs_mvcc (view s') = fold (lay st pk ttl) ms (abs_mvcc (view s))"
  using assms
proof (induction ms arbitrary: s thesis)
  case (Cons mutation ms)
  obtain s1 where 1: "prewrite_one E st pk ttl mutation s = (Inr (), s1)" "wf_store K (view s1)"
      "abs_mvcc (view s1) = lay st pk ttl mutation (abs_mvcc (view s))"
    by (rule prewrite_one_open [of st mutation s K pk]) (use Cons.prems in auto)
  have "list_all (\<lambda>mutation. open_for st (mutation_key mutation) (abs_mvcc (view s1))) ms"
    using Cons.prems(2) by (auto simp: 1(3) list_all_iff intro: open_for_lay)
  from Cons.IH [OF _ this K(1,2) _ 1(2)] Cons.prems(1,5) 1 show ?case by auto
qed simp

lemma transaction_open:
  assumes "list_all (\<lambda>mutation. open_for st (mutation_key mutation) (abs_mvcc (view s))) ms"
    and K: "good_keys K" "pk \<in> K" "mutation_key ` set ms \<subseteq> K" "set ks \<subseteq> K" and wf: "wf_store K (view s)"
    and ms: "distinct (map mutation_key ms)" "pk \<in> mutation_key ` set ms"
  shows "fst (prewrite E st ms pk ttl s) = Inr ()"
    and "fst (commit E st ct (pk # ks) (snd (prewrite E st ms pk ttl s))) = Inr ()"
proof -
  obtain s' where p: "prewrite E st ms pk ttl s = (Inr (), s')" "wf_store K (view s')"
      "abs_mvcc (view s') = fold (lay st pk ttl) ms (abs_mvcc (view s))"
    by (rule prewrite_open [OF assms(1) K(1-3) wf])
  then show "fst (prewrite E st ms pk ttl s) = Inr ()" by simp
  obtain mutation where m: "mutation \<in> set ms" "pk = mutation_key mutation" using ms(2) by blast
  have "owns (abs_mvcc (view s')) st pk"
    using lay_all_laid [OF ms(1) m(1), of st pk ttl "abs_mvcc (view s)"] by (auto simp: owns_def laid_def p(3) m(2))
  with commit_correct [OF p(2) K(2,4), of st ct] p(1)
  show "fst (commit E st ct (pk # ks) (snd (prewrite E st ms pk ttl s))) = Inr ()"
    by (simp del: commit.simps)
qed

end

section \<open>Progress of a transaction\<close>

text \<open>C8. Progress: on an engine that does not fail, a transaction whose keys carry no version from
  its start timestamp on, no rollback mark of its own and no lock of another transaction
  prewrites and then commits successfully.\<close>

theorem transaction_progress:
  assumes "fjall_reliable E view" "good_keys K" "pk \<in> K" "mutation_key ` set ms \<subseteq> K" "set ks \<subseteq> K"
    and "wf_store K (view s)" "distinct (map mutation_key ms)" "pk \<in> mutation_key ` set ms"
    and "list_all (\<lambda>mutation. open_for st (mutation_key mutation) (abs_mvcc (view s))) ms"
  shows "fst (prewrite E st ms pk ttl s) = Inr () \<and>
    fst (commit E st ct (pk # ks) (snd (prewrite E st ms pk ttl s))) = Inr ()"
  using fjall_reliable.transaction_open [OF assms(1,9,2-8)] by blast

theorem transaction_progress_witness:
  "fst (commit mem_env 30 40 [[1], [2]] (snd (prewrite mem_env 30 [M_Put [1] [21], M_Delete [2]] [1] 3000 example_db))) = Inr ()"
proof -
  have "list_all (\<lambda>mutation. open_for 30 (mutation_key mutation) (abs_mvcc (mem_view example_db))) [M_Put [1] [21], M_Delete [2]]"
    by (auto simp: open_for_def rolled_back_def example_db_state split: if_splits)
  with transaction_progress [OF mem.fjall_reliable_axioms mem_keys _ _ _ example_db_ok(1),
      where ms = "[M_Put [1] [21], M_Delete [2]]" and pk = "[1]" and ks = "[[2]]" and st = 30 and ct = 40 and ttl = 3000]
  show ?thesis by (simp del: commit.simps prewrite.simps)
qed

end
