(* ===== verification/Client_System.thy ===== *)
theory Client_System
  imports Client Txn_Progress
begin

text \<open>
  The client connected to a node: its calls are the operations of the coordinator behind the
  handlers, so what holds of the coordinator holds end to end. The batch collector sends what
  it received in order, each item on its own.
\<close>

section \<open>Calls of the client as coordinator operations\<close>

lemma client_txn_prewrite_node:
  "client_txn_prewrite (node_stubs pb R E) st ms pk ttl (n, s) =
     (case prewrite E st (map client_mutation ms) pk ttl s of
        (Inl e, s') \<Rightarrow> (Inl (Ce_Status (Status_Aborted e)), n, s')
      | (Inr _, s') \<Rightarrow> (Inr (), n, s'))"
  by (auto simp: client_txn_prewrite_def rpc_def node_stubs_def Node_Service.txn_prewrite_def on_engine_eq comp_def
      split: prod.split sum.split)

lemma client_txn_commit_node:
  "client_txn_commit (node_stubs pb R E) st ct ks (n, s) =
     (case commit E st ct ks s of
        (Inl e, s') \<Rightarrow> (Inl (Ce_Status (Status_Internal e)), n, s')
      | (Inr _, s') \<Rightarrow> (Inr (), n, s'))"
  by (auto simp: client_txn_commit_def rpc_def node_stubs_def Node_Service.txn_commit_def on_engine_eq
      split: prod.split sum.split)

text \<open>The check of \<open>kv_get\<close> that the key lies in its region never fails, whatever the table.\<close>

lemma route_key_contains: "route_key rt key = Inr r \<Longrightarrow> contains_key r key"
  unfolding route_key_def by (auto split: option.splits dest: find_SomeD)

lemma kv_get_version:
  "kv_get E \<lparr>gq_key = key, gq_version = ver\<rparr> w =
     (case read_version E ver w of (ts, w1) \<Rightarrow>
      case on_engine (coord_get E key ts) w1 of
        (Inr val, w2) \<Rightarrow>
          (Inr \<lparr>gr_value = (case val of Some x \<Rightarrow> x | None \<Rightarrow> []), gr_found = (val \<noteq> None), gr_error = No_Text\<rparr>, w2)
      | (Inl e, w2) \<Rightarrow> (Inl (Status_Internal e), w2))"
  by (auto simp: kv_get_def dest: route_key_contains split: sum.split)

lemma client_txn_get_node:
  "ts \<noteq> 0 \<Longrightarrow> client_txn_get (node_stubs pb R E) key ts (n, s) =
     (case coord_get E key ts s of
        (Inl e, s') \<Rightarrow> (Inl (Ce_Status (Status_Internal e)), n, s')
      | (Inr val, s') \<Rightarrow> (Inr val, n, s'))"
  by (auto simp: client_txn_get_def rpc_def node_stubs_def kv_get_version read_version_def on_engine_eq found_value_def
      split: prod.split sum.split option.split)

lemma client_mutation_simps [simp]:
  "mutation_key (client_mutation m) = fst m"
  "(case client_mutation m of M_Put k x \<Rightarrow> Some x | M_Delete k \<Rightarrow> None) = snd m"
  by (simp_all add: client_mutation_def split: prod.split option.split)

lemma client_read_back:
  assumes E: "fjall_reliable E view" and K: "good_keys K" "fst ` set ms \<subseteq> K" "pk \<in> K" "set ks \<subseteq> K"
    and s: "wf_store K (view s)" "si_inv (abs_mvcc (view s))" "settled st (abs_mvcc (view s))"
    and ms: "distinct (map fst ms)" "(key, val) \<in> set ms" "key \<in> set ks" and ts: "st \<le> ct" "ct \<le> ts" "ts \<noteq> 0"
    and pre: "client_txn_prewrite (node_stubs pb R E) st ms pk ttl (n, s) = (Inr (), w1)"
    and com: "client_txn_commit (node_stubs pb R E) st ct ks w1 = (Inr (), w2)"
  shows "fst (client_txn_get (node_stubs pb R E) key ts w2) = Inr val"
proof -
  have p: "fst (prewrite E st (map client_mutation ms) pk ttl s) = Inr ()"
      "w1 = (n, snd (prewrite E st (map client_mutation ms) pk ttl s))"
    using pre by (auto simp: client_txn_prewrite_node split: prod.splits sum.splits)
  have c: "fst (commit E st ct ks (snd (prewrite E st (map client_mutation ms) pk ttl s))) = Inr ()"
      "w2 = (n, snd (commit E st ct ks (snd (prewrite E st (map client_mutation ms) pk ttl s))))"
    using com by (auto simp: p(2) client_txn_commit_node split: prod.splits sum.splits)
  have "map mutation_key (map client_mutation ms) = map fst ms" "mutation_key ` set (map client_mutation ms) = fst ` set ms"
    by (simp_all add: image_image)
  with txn_read_back [OF E K(1) _ K(3,4) s _ _ _ ts(1,2) p(1) c(1), of "client_mutation (key, val)"] K(2) ms
  have "fst (coord_get E key ts (snd w2)) = Inr val" by (simp add: c(2) comp_def)
  then show ?thesis
    by (auto simp: c(2) client_txn_get_node [OF ts(3)] split: prod.split sum.split)
qed

section \<open>The batch collector\<close>

lemma flush_append:
  "flush send (xs @ ys) w = (case flush send xs w of (o1, w1) \<Rightarrow> case flush send ys w1 of (o2, w2) \<Rightarrow> (o1 @ o2, w2))"
  by (induction xs arbitrary: w) (simp_all add: case_prod_unfold)

lemma flush_items: "map fst (fst (flush send xs w)) = xs"
  by (induction xs arbitrary: w) (simp_all add: case_prod_unfold)

fun received :: "'i event list \<Rightarrow> 'i list" where
  "received [] = []"
| "received (Recv i # evs) = i # received evs"
| "received (Timeout # evs) = received evs"
| "received (Closed # evs) = []"

lemma worker_sends:
  "worker n send evs items w = (out, p, w') \<Longrightarrow> Closed \<notin> set evs \<Longrightarrow>
     items @ received evs = map fst out @ p \<and> flush send (map fst out) w = (out, w') \<and>
     (evs \<noteq> [] \<and> last evs = Timeout \<longrightarrow> p = [])"
proof (induction n send evs items w arbitrary: out p w' rule: worker.induct)
  case (3 n send evs items w)
  obtain o1 w1 where f: "flush send items w = (o1, w1)" by force
  obtain o2 p2 w2 where r: "worker n send evs [] w1 = (o2, p2, w2)" by (metis prod_cases3)
  have o: "out = o1 @ o2" "p = p2" "w' = w2" using 3(2) f r by simp_all
  have i: "map fst o1 = items" using flush_items [of send items w] f by simp
  from 3(1) [OF f [symmetric] r] 3(3) o i f show ?case
    by (cases evs) (auto simp: flush_append r split: if_splits)
next
  case (4 n send i evs items w)
  show ?case
  proof (cases "length (items @ [i]) \<ge> n")
    case True
    obtain o1 w1 where f: "flush send (items @ [i]) w = (o1, w1)" by force
    obtain o2 p2 w2 where r: "worker n send evs [] w1 = (o2, p2, w2)" by (metis prod_cases3)
    have o: "out = o1 @ o2" "p = p2" "w' = w2" using 4(3) f r True by simp_all
    have it: "map fst o1 = items @ [i]" using flush_items [of send "items @ [i]" w] f by simp
    have ih: "[] @ received evs = map fst o2 @ p2" "flush send (map fst o2) w1 = (o2, w2)"
        "evs \<noteq> [] \<and> last evs = Timeout \<longrightarrow> p2 = []"
      using 4(1) [OF True f [symmetric] r] 4(4) by auto
    have "flush send ((items @ [i]) @ map fst o2) w = (o1 @ o2, w2)"
      unfolding flush_append [of send "items @ [i]"] f by (simp add: ih(2))
    with ih(1,3) o it show ?thesis by (cases evs) auto
  next
    case False
    with 4(2) [OF False, of out p w'] 4(3,4) show ?thesis by (cases evs) auto
  qed
qed simp_all

section \<open>Properties of the client\<close>

text \<open>C10. Read your writes, end to end: when a client prewrites and commits a transaction on a node
  whose engine does not fail, and both calls return Ok, its transactional read of a key it
  wrote, at the commit timestamp or later, returns the value it put, or nothing for a delete.\<close>

theorem client_reads_own_writes:
  assumes "fjall_reliable E view" "good_keys K" "fst ` set ms \<subseteq> K" "pk \<in> K" "set ks \<subseteq> K"
    and "wf_store K (view s)" "si_inv (abs_mvcc (view s))" "settled st (abs_mvcc (view s))"
    and "distinct (map fst ms)" "(key, val) \<in> set ms" "key \<in> set ks" "st \<le> ct" "ct \<le> ts" "ts \<noteq> 0"
    and "client_txn_prewrite (node_stubs pb R E) st ms pk ttl (n, s) = (Inr (), w1)"
    and "client_txn_commit (node_stubs pb R E) st ct ks w1 = (Inr (), w2)"
  shows "fst (client_txn_get (node_stubs pb R E) key ts w2) = Inr val"
  by (rule client_read_back [OF assms])

definition solo_stubs :: "((solo_state, plain_entry, plain_hs, bytes) NodeState \<times> mem_db) stubs" where
  "solo_stubs = node_stubs plain_pb solo mem_env"

theorem client_reads_own_writes_witness:
  "fst (client_txn_get solo_stubs [2] 30 (snd (client_txn_commit solo_stubs 5 20 [[1], [2]]
     (snd (client_txn_prewrite solo_stubs 5 [([1], None), ([2], Some [12])] [1] 3000 (solo_server (mem_init []))))))) = Inr (Some [12])"
proof -
  let ?w = "solo_server (mem_init [])"
  let ?w1 = "snd (client_txn_prewrite solo_stubs 5 [([1], None), ([2], Some [12])] [1] 3000 ?w)"
  have "fst (client_txn_prewrite solo_stubs 5 [([1], None), ([2], Some [12])] [1] 3000 ?w) = Inr ()"
    "fst (client_txn_commit solo_stubs 5 20 [[1], [2]] ?w1) = Inr ()" by code_simp+
  then have run: "client_txn_prewrite solo_stubs 5 [([1], None), ([2], Some [12])] [1] 3000 (fst ?w, snd ?w) = (Inr (), ?w1)"
      "client_txn_commit solo_stubs 5 20 [[1], [2]] ?w1 = (Inr (), snd (client_txn_commit solo_stubs 5 20 [[1], [2]] ?w1))"
    by (metis prod.collapse)+
  have start: "wf_store (set [[1], [2], [3]]) (mem_view (snd ?w))" "si_inv (abs_mvcc (mem_view (snd ?w)))"
      "settled 5 (abs_mvcc (mem_view (snd ?w)))"
    using mem_init_ok by (simp_all add: solo_server_view)
  show ?thesis
    using client_reads_own_writes [OF mem.fjall_reliable_axioms mem_keys _ _ _ start _ _ _ _ _ _
        run [unfolded solo_stubs_def], of "[2]" "Some [12]" 30]
    by (simp add: solo_stubs_def)
qed

lemma push_bit_succ: "push_bit 16 (x :: u64) \<le> push_bit 16 x + 1" "push_bit 16 (x :: u64) + 1 \<noteq> 0"
proof -
  let ?y = "push_bit 16 x"
  have "\<not> bit ?y 0" by (simp add: bit_push_bit_iff)
  then have "?y \<noteq> -1" by (metis bit_minus_1_iff len_gt_0 possible_bit_word)
  then have "?y < -1" by (simp add: order_less_le)
  then have "unat ?y + 1 < 2 ^ 64" by (simp add: word_less_nat_alt unsigned_minus_1_eq_mask mask_eq_exp_minus_1)
  then have u: "unat (?y + 1) = unat ?y + 1" by (subst unat_add_lem [THEN iffD1]) simp_all
  then show "?y \<le> ?y + 1" by (simp add: word_le_nat_alt)
  from u show "?y + 1 \<noteq> 0" by auto
qed

lemma cli_put_node:
  "cli_put (node_stubs pb R E) (Some now) key val (n, s) =
     (let st = push_bit 16 now; ms = [M_Put key val] in
      (case prewrite E st ms key 3000 s of
         (Inl e, s1) \<Rightarrow> (Inl (Cli_Client (Ce_Status (Status_Aborted e))), n, s1)
       | (Inr _, s1) \<Rightarrow>
           (case commit E st (st + 1) [key] s1 of
              (Inl e, s2) \<Rightarrow> (Inl (Cli_Client (Ce_Status (Status_Internal e))), n, s2)
            | (Inr _, s2) \<Rightarrow> (Inr Out_Ok, n, s2))))"
  by (auto simp: cli_put_def client_txn_prewrite_node client_txn_commit_node Let_def client_mutation_def
      simp del: prewrite.simps commit.simps split: prod.split sum.split)

text \<open>C32. The command line put: when the endpoint is a URI and the channel leads to a node whose
  engine does not fail, with the key open to the transaction that starts at the client's wall
  clock, the tool prints OK, and every transactional read from its commit timestamp on returns
  the value.\<close>

theorem cli_put_stores:
  assumes "fjall_reliable E view" "good_keys K" "key \<in> K"
    and "wf_store K (view s)" "si_inv (abs_mvcc (view s))" "settled (push_bit 16 now) (abs_mvcc (view s))"
    and "open_for (push_bit 16 now) key (abs_mvcc (view s))" "push_bit 16 now + 1 \<le> ts"
    and connected: "from_shared endpoint = Inr uri" "open_channel uri (n, s) = (Inr (node_stubs pb R E), n, s)"
  shows "\<exists>w'. cli_main from_shared open_channel (Some now) \<lparr>cli_endpoint = endpoint, cli_command = Cmd_Put key val\<rparr> (n, s) = (Inr Out_Ok, w') \<and>
    fst (client_txn_get (node_stubs pb R E) key ts w') = Inr (Some val)"
proof -
  let ?st = "push_bit 16 now :: u64" and ?S = "node_stubs pb R E"
  let ?s1 = "snd (prewrite E ?st [M_Put key val] key 3000 s)"
  have ok: "fst (prewrite E ?st [M_Put key val] key 3000 s) = Inr ()" "fst (commit E ?st (?st + 1) [key] ?s1) = Inr ()"
    using fjall_reliable.transaction_open(1) [OF assms(1) _ assms(2,3) _ _ assms(4), where ms = "[M_Put key val]" and ks = "[]"
        and st = ?st and ttl = 3000]
      fjall_reliable.transaction_open(2) [OF assms(1) _ assms(2,3) _ _ assms(4), where ms = "[M_Put key val]" and ks = "[]"
        and st = ?st and ttl = 3000 and ct = "?st + 1"] assms(3,7)
    by (simp_all del: prewrite.simps commit.simps)
  let ?w' = "(n, snd (commit E ?st (?st + 1) [key] ?s1))"
  have run: "cli_put ?S (Some now) key val (n, s) = (Inr Out_Ok, ?w')"
    using ok by (auto simp: cli_put_node Let_def simp del: prewrite.simps commit.simps split: prod.split sum.split)
  have pre: "client_txn_prewrite ?S ?st [(key, Some val)] key 3000 (n, s) = (Inr (), n, ?s1)"
    using ok(1) by (auto simp: client_txn_prewrite_node client_mutation_def simp del: prewrite.simps split: prod.split sum.split)
  have com: "client_txn_commit ?S ?st (?st + 1) [key] (n, ?s1) = (Inr (), ?w')"
    using ok(2) by (auto simp: client_txn_commit_node simp del: prewrite.simps commit.simps split: prod.split sum.split)
  have "ts \<noteq> 0" using assms(8) push_bit_succ(2) [of now] by auto
  with client_read_back [OF assms(1,2) _ assms(3) _ assms(4-6) _ _ _ push_bit_succ(1) assms(8) _ pre com] assms(3) run
  show ?thesis by (auto simp: cli_main_def client_connect_def connected)
qed

theorem cli_put_stores_witness:
  "\<exists>w'. cli_main Inr (\<lambda>uri w. (Inr solo_stubs, w)) (Some 7) \<lparr>cli_endpoint = default_endpoint, cli_command = Cmd_Put [3] [33]\<rparr>
       (solo_server example_db) = (Inr Out_Ok, w') \<and>
     fst (client_txn_get solo_stubs [3] 458753 w') = Inr (Some [33])"
proof -
  let ?w = "solo_server example_db"
  have v: "mem_view (snd ?w) = mem_view example_db" by (rule solo_server_view)
  have "open_for (push_bit 16 7) [3] (abs_mvcc (mem_view example_db))"
    by (simp add: open_for_def rolled_back_def example_db_state)
  with cli_put_stores [OF mem.fjall_reliable_axioms mem_keys, where s = "snd ?w" and n = "fst ?w" and key = "[3]"
      and from_shared = Inr and open_channel = "\<lambda>uri w. (Inr solo_stubs, w)"
      and endpoint = default_endpoint and uri = default_endpoint and now = 7 and ts = 458753 and val = "[33]" and pb = plain_pb and R = solo]
  show ?thesis using example_db_ok by (simp add: v example_db_settled solo_stubs_def)
qed

text \<open>The batch collector: as long as its channel is open, the items sent and those still
  waiting are the received items in their order, each sent item was sent by a call of its
  own and in turn, and after the flush interval nothing is waiting. Batching changes when
  items are sent and nothing else.\<close>

lemma collector_sends_in_order:
  assumes "worker n send evs [] w = (out, waiting, w')" "Closed \<notin> set evs"
  shows "received evs = map fst out @ waiting \<and> flush send (map fst out) w = (out, w') \<and>
    flush send (received evs) w =
      (case flush send waiting w' of (out', w'') \<Rightarrow> (out @ out', w'')) \<and>
    (evs \<noteq> [] \<and> last evs = Timeout \<longrightarrow> waiting = [])"
  using worker_sends [OF assms] by (auto simp: flush_append)

lemma collector_sends_in_order_example:
  "worker 2 (\<lambda>i (w :: nat list). (i, i # w)) [Recv 1, Recv 2, Recv 3, Timeout] [] [] = ([(1, 1), (2, 2), (3, 3)], [], [3, 2, 1]) \<and>
   flush (\<lambda>i (w :: nat list). (i, i # w)) [1, 2, 3] [] = ([(1, 1), (2, 2), (3, 3)], [3, 2, 1])"
proof -
  have run: "worker 2 (\<lambda>i (w :: nat list). (i, i # w)) [Recv 1, Recv 2, Recv 3, Timeout] [] [] = ([(1, 1), (2, 2), (3, 3)], [], [3, 2, 1])"
    by simp
  from collector_sends_in_order [OF run] run show ?thesis by simp
qed

end
