(* ===== verification/Shared_Engine.thy ===== *)
theory Shared_Engine
  imports Txn_System
begin

text \<open>
  The handlers of a node run concurrently on one engine, and the coordinator takes no latches:
  between two engine calls of an operation, batches of other operations may be committed. The
  operations are functions of the engine, so running one of them among others is running it on
  an engine whose contents may change between and during the calls. \<open>fjall_shared\<close> states what
  is known of such an engine when the changes of the others satisfy a relation \<open>R\<close>: a get and a
  batch act at one moment of the call, a scan sees each key at some moment of the call. An
  engine used by one operation alone (\<open>fjall\<close>) is the case where nothing changes.

  \<open>busy_env exec E\<close> is an engine \<open>E\<close> on which a schedule of other jobs is run, some before each
  call; the jobs are batches here and whole operations in the examples of races.
\<close>

section \<open>Engines with other users\<close>

locale fjall_shared =
  fixes E :: "'s env" and view :: "'s \<Rightarrow> view" and R :: "view \<Rightarrow> view \<Rightarrow> bool"
  assumes others_refl [simp, intro]: "R v v"
    and others_trans [trans]: "R u v \<Longrightarrow> R v w \<Longrightarrow> R u w"
    and shared_get: "fj_get E p k s = (r, s') \<Longrightarrow>
      \<exists>v. R (view s) v \<and> R v (view s') \<and> (\<forall>x. r = Inr x \<longrightarrow> x = v p k)"
    and shared_range: "fj_range_from E p lo s = (its, s') \<Longrightarrow>
      R (view s) (view s') \<and> (\<exists>kvs. yields its kvs \<and> sorted_wrt (<) (map fst kvs) \<and>
        (\<forall>k. \<exists>v. R (view s) v \<and> R v (view s') \<and> map_of kvs k = (if lo \<le> k then v p k else None)))"
    and shared_commit: "fj_commit E b s = (c, s') \<Longrightarrow>
      \<exists>v. R (view s) v \<and> R (case c of Inl _ \<Rightarrow> v | Inr _ \<Rightarrow> apply_batch b v) (view s')"
begin

text \<open>Reading an entry of a partition, and writing a batch.\<close>

lemma shared_get_cases:
  assumes "fj_get E p k s = (r, s')"
  obtains (io) e where "r = Inl e" "R (view s) (view s')"
    | (read) v where "r = Inr (v p k)" "R (view s) v" "R v (view s')"
  using shared_get [OF assms] others_trans by (cases r) blast+

lemma shared_commit_cases:
  assumes "commit_batch E b s = (r, s')"
  obtains (ok) v where "r = Inr ()" "R (view s) v" "R (apply_batch b v) (view s')"
    | (io) e where "r = Inl (Storage_Fjall e)" "R (view s) (view s')"
proof -
  obtain c s1 where c: "fj_commit E b s = (c, s1)" by force
  with assms have s1: "s1 = s'" "r = (case c of Inl e \<Rightarrow> Inl (Storage_Fjall e) | Inr _ \<Rightarrow> Inr ())"
    by (auto simp: commit_batch_def split: sum.splits)
  from shared_commit [OF c] obtain v where
    v: "R (view s) v" "R (case c of Inl _ \<Rightarrow> v | Inr _ \<Rightarrow> apply_batch b v) (view s')"
    unfolding s1(1) by blast
  show ?thesis
  proof (cases c)
    case (Inl e)
    with v others_trans have "R (view s) (view s')" by fastforce
    with Inl s1 io show ?thesis by simp
  next
    case (Inr u)
    with v s1 ok show ?thesis by simp
  qed
qed

text \<open>What a scan meets is the scan of a partition each of whose entries was there at some
  moment of the call.\<close>

lemma shared_range_moments:
  assumes "fj_range_from E p lo s = (its, s')"
  obtains kvs w where "yields its kvs" "scan_of w lo kvs"
    "\<And>k. \<exists>v. R (view s) v \<and> R v (view s') \<and> w k = v p k" "R (view s) (view s')"
proof -
  from shared_range [OF assms] obtain kvs where kvs: "yields its kvs" "sorted_wrt (<) (map fst kvs)"
      "\<And>k. \<exists>v. R (view s) v \<and> R v (view s') \<and> map_of kvs k = (if lo \<le> k then v p k else None)"
      and r: "R (view s) (view s')" by blast
  let ?w = "\<lambda>k. if lo \<le> k then map_of kvs k else view s p k"
  have d: "distinct (map fst kvs)" using kvs(2) by (simp add: strict_sorted_iff)
  have lo: "lo \<le> k" if "(k, x) \<in> set kvs" for k x
    using kvs(3) [of k] d that by (auto split: if_splits)
  have "scan_of ?w lo kvs"
    using kvs(2) d lo by (auto simp: scan_of_def)
  moreover have "\<exists>v. R (view s) v \<and> R v (view s') \<and> ?w k = v p k" for k
    using kvs(3) [of k] r by (cases "lo \<le> k") auto
  ultimately show ?thesis using that kvs(1) r by blast
qed

end

lemma scan_of_map_of:
  assumes "scan_of m lo kvs"
  shows "map_of kvs k = (if lo \<le> k then m k else None)"
proof (cases "map_of kvs k")
  case None
  then have "\<nexists>x. (k, x) \<in> set kvs" by (force simp: map_of_eq_None_iff)
  with assms None show ?thesis by (cases "m k") (auto simp: scan_of_mem)
next
  case (Some x)
  then have "(k, x) \<in> set kvs" by (rule map_of_SomeD)
  with assms Some show ?thesis by (auto simp: scan_of_mem)
qed

sublocale fjall \<subseteq> alone: fjall_shared E view "(=)"
proof unfold_locales
  fix p lo s its s'
  assume r: "fj_range_from E p lo s = (its, s')"
  from range_yields [OF r] obtain kvs where "yields its kvs" and kvs: "scan_of (view s p) lo kvs" by blast
  then show "view s = view s' \<and> (\<exists>kvs. yields its kvs \<and> sorted_wrt (<) (map fst kvs) \<and>
      (\<forall>k. \<exists>v. view s = v \<and> v = view s' \<and> map_of kvs k = (if lo \<le> k then v p k else None)))"
    using range_keeps [OF r] scan_of_map_of [OF kvs] scan_of_sorted [OF kvs] by auto
next
  fix b s r s'
  assume "fj_commit E b s = (r, s')"
  then show "\<exists>v. view s = v \<and> (case r of Inl _ \<Rightarrow> v | Inr _ \<Rightarrow> apply_batch b v) = view s'"
    using commit_ok commit_err by (cases r) auto
next
  fix p k s r s'
  assume g: "fj_get E p k s = (r, s')"
  with get_keeps [OF g] get_value show "\<exists>v. view s = v \<and> v = view s' \<and> (\<forall>x. r = Inr x \<longrightarrow> x = v p k)"
    by auto
qed simp_all

context fjall
begin

lemmas shared_alone = alone.fjall_shared_axioms

end

text \<open>A weaker bound on the others.\<close>

lemma fjall_shared_mono:
  assumes "fjall_shared E view R" "\<And>v v'. R v v' \<Longrightarrow> R' v v'" "reflp R'" "transp R'"
  shows "fjall_shared E view R'"
proof -
  note sh = fjall_shared.shared_get [OF assms(1)] fjall_shared.shared_range [OF assms(1)]
    fjall_shared.shared_commit [OF assms(1)]
  show ?thesis
  proof
    show "R' v v" for v using assms(3) by (rule reflpD)
    show "R' u w" if "R' u v" "R' v w" for u v w using assms(4) that by (metis transpD)
    show "\<exists>v. R' (view s) v \<and> R' v (view s') \<and> (\<forall>x. r = Inr x \<longrightarrow> x = v p k)"
      if "fj_get E p k s = (r, s')" for p k s r s'
      using sh(1) [OF that] assms(2) by blast
    show "R' (view s) (view s') \<and> (\<exists>kvs. yields its kvs \<and> sorted_wrt (<) (map fst kvs) \<and>
        (\<forall>k. \<exists>v. R' (view s) v \<and> R' v (view s') \<and> map_of kvs k = (if lo \<le> k then v p k else None)))"
      if "fj_range_from E p lo s = (its, s')" for p lo s its s'
      using sh(2) [OF that] assms(2) by meson
    show "\<exists>v. R' (view s) v \<and> R' (case r of Inl _ \<Rightarrow> v | Inr _ \<Rightarrow> apply_batch b v) (view s')"
      if "fj_commit E b s = (r, s')" for b s r s'
      using sh(3) [OF that] assms(2) by blast
  qed
qed

section \<open>An engine with a schedule of other jobs\<close>

text \<open>Each call runs the next jobs of the schedule first.\<close>

fun busy :: "('j \<Rightarrow> 's \<Rightarrow> 's) \<Rightarrow> ('s \<Rightarrow> 'a \<times> 's) \<Rightarrow> 's \<times> 'j list list \<Rightarrow> 'a \<times> 's \<times> 'j list list" where
  "busy exec f (s, []) = (case f s of (a, s') \<Rightarrow> (a, s', []))"
| "busy exec f (s, js # jss) = (case f (fold exec js s) of (a, s') \<Rightarrow> (a, s', jss))"

definition busy_env :: "('j \<Rightarrow> 's \<Rightarrow> 's) \<Rightarrow> 's env \<Rightarrow> ('s \<times> 'j list list) env" where
  "busy_env exec E =
     \<lparr>fj_get = (\<lambda>p k. busy exec (fj_get E p k)), fj_range_from = (\<lambda>p lo. busy exec (fj_range_from E p lo)),
      fj_iter = (\<lambda>p. busy exec (fj_iter E p)), fj_commit = (\<lambda>b. busy exec (fj_commit E b)),
      sys_now = busy exec (sys_now E)\<rparr>"

lemma busy_cases:
  assumes "busy exec f x = (a, x')" "reflp R" "transp R" "\<And>j s. R (view s) (view (exec j s))"
  obtains s1 where "R (view (fst x)) (view s1)" "f s1 = (a, fst x')"
proof -
  have jobs: "R (view s) (view (fold exec js s))" for js s
  proof (induction js arbitrary: s)
    case (Cons j js)
    from transpD [OF assms(3) assms(4) Cons.IH] show ?case by simp
  qed (simp add: reflpD [OF assms(2)])
  show ?thesis
  proof (cases "(exec, f, x)" rule: busy.cases)
    case (1 exec' f' s)
    with assms(1) reflpD [OF assms(2)] show ?thesis
      by (intro that [of s]) (auto split: prod.splits)
  next
    case (2 exec' f' s js jss)
    with assms(1) jobs show ?thesis
      by (intro that [of "fold exec js s"]) (auto split: prod.splits)
  qed
qed

lemma busy_shared:
  assumes "fjall E view" "reflp R" "transp R" "\<And>j s. R (view s) (view (exec j s))"
  shows "fjall_shared (busy_env exec E) (\<lambda>x. view (fst x)) R"
proof -
  note jobs = busy_cases [where R = R and view = view, OF _ assms(2-4)]
  note alone = fjall.shared_alone [OF assms(1)]
  note one = fjall_shared.shared_get [OF alone] fjall_shared.shared_range [OF alone]
    fjall_shared.shared_commit [OF alone]
  show ?thesis
  proof
    show "R v v" for v using assms(2) by (rule reflpD)
    show "R u w" if "R u v" "R v w" for u v w using assms(3) that by (metis transpD)
  next
    fix p k x r x'
    assume "fj_get (busy_env exec E) p k x = (r, x')"
    then obtain s1 where s1: "R (view (fst x)) (view s1)" "fj_get E p k s1 = (r, fst x')"
      unfolding busy_env_def by simp (erule jobs)
    with one(1) [OF s1(2)] assms(2) show "\<exists>v. R (view (fst x)) v \<and> R v (view (fst x')) \<and> (\<forall>y. r = Inr y \<longrightarrow> y = v p k)"
      by (auto dest: reflpD)
  next
    fix p lo x its x'
    assume "fj_range_from (busy_env exec E) p lo x = (its, x')"
    then obtain s1 where s1: "R (view (fst x)) (view s1)" "fj_range_from E p lo s1 = (its, fst x')"
      unfolding busy_env_def by simp (erule jobs)
    from one(2) [OF s1(2)] obtain kvs where kvs: "yields its kvs" "sorted_wrt (<) (map fst kvs)"
        "\<And>k. map_of kvs k = (if lo \<le> k then view s1 p k else None)" "view (fst x') = view s1"
      by auto
    then show "R (view (fst x)) (view (fst x')) \<and> (\<exists>kvs. yields its kvs \<and> sorted_wrt (<) (map fst kvs) \<and>
        (\<forall>k. \<exists>v. R (view (fst x)) v \<and> R v (view (fst x')) \<and> map_of kvs k = (if lo \<le> k then v p k else None)))"
      using s1(1) reflpD [OF assms(2)] by (intro conjI exI [of _ kvs] allI exI [of _ "view s1"]) simp_all
  next
    fix b x r x'
    assume "fj_commit (busy_env exec E) b x = (r, x')"
    then obtain s1 where s1: "R (view (fst x)) (view s1)" "fj_commit E b s1 = (r, fst x')"
      unfolding busy_env_def by simp (erule jobs)
    from one(3) [OF s1(2)] have "(case r of Inl _ \<Rightarrow> view s1 | Inr _ \<Rightarrow> apply_batch b (view s1)) = view (fst x')"
      by blast
    with reflpD [OF assms(2)] s1(1)
    show "\<exists>v. R (view (fst x)) v \<and> R (case r of Inl _ \<Rightarrow> v | Inr _ \<Rightarrow> apply_batch b v) (view (fst x'))"
      by (intro exI [of _ "view s1"]) simp
  qed
qed

text \<open>Batches as jobs, those of them that are allowed.\<close>

definition job_batch :: "(batch \<Rightarrow> bool) \<Rightarrow> batch \<Rightarrow> mem_db \<Rightarrow> mem_db" where
  "job_batch allowed b d = (if allowed b then snd (mem_commit b d) else d)"

abbreviation job_steps :: "(batch \<Rightarrow> bool) \<Rightarrow> view \<Rightarrow> view \<Rightarrow> bool" where
  "job_steps allowed \<equiv> (\<lambda>v v'. \<exists>b. allowed b \<and> v' = apply_batch b v)\<^sup>*\<^sup>*"

interpretation busy: fjall_shared "busy_env (job_batch allowed) mem_env" "\<lambda>x. mem_view (fst x)" "job_steps allowed"
proof (rule busy_shared [OF mem.fjall_axioms])
  show "job_steps allowed (mem_view d) (mem_view (job_batch allowed b d))" for b d
    by (auto simp: job_batch_def mem_commit_def)
qed (auto intro!: reflpI transpI)

end
