(* ===== verification/Interleaving.thy ===== *)
theory Interleaving
  imports Shared_Engine
begin

text \<open>
  Operations of the coordinator among others on a shared engine. A read returns the snapshot
  as long as nothing is committed on its key at or before its timestamp meanwhile; a commit
  goes through as long as nobody resolves the locks of the transaction; a prewrite finds the
  keys free and keeps them so as long as nobody else writes to them. The last condition is
  what latches on the keys would give; without it two transactions can both succeed on one
  key.
\<close>

section \<open>Reads\<close>

text \<open>What is committed on \<open>k\<close> up to \<open>ts\<close> stays, with its values, and nothing is added to it.\<close>

definition later_only :: "bytes set \<Rightarrow> bytes \<Rightarrow> u64 \<Rightarrow> view \<Rightarrow> view \<Rightarrow> bool" where
  "later_only K k ts v v' \<longleftrightarrow> (wf_store K v \<longrightarrow> wf_store K v') \<and>
     (\<forall>t \<le> ts. \<forall>r. committed (abs_mvcc v') k t r \<longleftrightarrow> committed (abs_mvcc v) k t r) \<and>
     (\<forall>t \<le> ts. \<forall>r. committed (abs_mvcc v) k t r \<longrightarrow>
        m_vals (abs_mvcc v') (k, wr_start_ts r) = m_vals (abs_mvcc v) (k, wr_start_ts r))"

lemma later_onlyD:
  assumes "later_only K k ts v v'"
  shows "wf_store K v \<Longrightarrow> wf_store K v'"
    and "t \<le> ts \<Longrightarrow> committed (abs_mvcc v') k t r \<longleftrightarrow> committed (abs_mvcc v) k t r"
    and "t \<le> ts \<Longrightarrow> committed (abs_mvcc v) k t r \<Longrightarrow>
      m_vals (abs_mvcc v') (k, wr_start_ts r) = m_vals (abs_mvcc v) (k, wr_start_ts r)"
  using assms unfolding later_only_def by blast+

text \<open>The batches of transactions that commit later are such changes.\<close>

lemma later_only_commit:
  assumes "wf_store K v \<Longrightarrow> wf_store K v'" "abs_mvcc v' = roll_forward k' st ct op (abs_mvcc v)"
    and "k' = k \<Longrightarrow> ts < ct"
  shows "later_only K k ts v v'"
  using assms by (auto simp: later_only_def committed_roll_forward)

lemma later_only_lay:
  assumes "wf_store K v \<Longrightarrow> wf_store K v'" "abs_mvcc v' = lay st pk ttl mutation (abs_mvcc v)"
    and "si_inv (abs_mvcc v)" "free_for st (mutation_key mutation) (abs_mvcc v)"
  shows "later_only K k ts v v'"
proof -
  have new: "wr_start_ts r \<noteq> st" if "committed (abs_mvcc v) (mutation_key mutation) t r" for t r
    using si_invD(1) [OF assms(3) that] assms(4) that unfolding free_for_def by (metis leD)
  have "committed (abs_mvcc v') = committed (abs_mvcc v)"
    by (simp add: fun_eq_iff committed_def assms(2))
  moreover have "m_vals (abs_mvcc v') (k, wr_start_ts r) = m_vals (abs_mvcc v) (k, wr_start_ts r)"
    if "committed (abs_mvcc v) k t r" for t r
    using new that by (cases mutation) (auto simp: assms(2) m_vals_lay)
  ultimately show ?thesis
    using assms(1) by (simp add: later_only_def)
qed

lemma visible_committed:
  "visible m k ts t r \<longleftrightarrow> committed m k t r \<and> t \<le> ts \<and>
     (\<forall>t' r'. committed m k t' r' \<and> t < t' \<longrightarrow> \<not> t' \<le> ts)"
  unfolding visible_def committed_def by blast

lemma visible_committed_cong:
  assumes "\<And>t r. t \<le> ts \<Longrightarrow> committed m' k t r \<longleftrightarrow> committed m k t r"
  shows "visible m' k ts = visible m k ts"
  using assms by (auto simp: visible_committed fun_eq_iff)

context fjall_shared
begin

lemma shared_reader_scan:
  assumes "reader_scan E k ts its s = (res, s')" "yields its kvs" "decodes kvs"
  shows "(\<exists>e. res = Inl (Mvcc_Fjall e)) \<or>
    (\<exists>v. R (view s) v \<and> res = answer (abs_mvcc v) k (first_visible ts (records k kvs)))"
  using assms
proof (induction its arbitrary: kvs)
  case Nil
  then show ?case by (auto simp: first_visible_def)
next
  case (Cons it its)
  show ?case
  proof (cases it)
    case (Inl e)
    with Cons.prems show ?thesis by auto
  next
    case (Inr kv)
    with Cons.prems obtain kvs' where kvs: "kvs = kv # kvs'" "yields its kvs'"
      by (cases kvs) auto
    from Cons.prems(3) kvs obtain ek b k' t r where
      d: "kv = (ek, b)" "key_decode ek = Inr (k', t)" "wr_from_bytes b = Some r" "decodes kvs'"
      by (auto elim: decodes_ConsE)
    note IH = Cons.IH [OF _ kvs(2) d(4)]
    show ?thesis
    proof (cases "k' = k \<and> t \<le> ts \<and> wr_op r = Put")
      case True
      obtain g s1 where g: "fj_get E P_Default (key_encode k (wr_start_ts r)) s = (g, s1)" by force
      from g show ?thesis
      proof (cases rule: shared_get_cases)
        case (io e)
        with True Cons.prems(1) Inr d g show ?thesis by auto
      next
        case (read v)
        with True Cons.prems(1) Inr d g
        have "res = answer (abs_mvcc v) k (first_visible ts (records k kvs))"
          by (auto simp: kvs(1) first_visible_def m_vals_abs split: option.splits)
        with read show ?thesis by blast
      qed
    next
      case False
      with Cons.prems(1) Inr d kvs IH show ?thesis
        by (cases "wr_op r") (auto simp: first_visible_def split: if_splits)
    qed
  qed
qed

end

text \<open>The partition a scan sees, when each entry is from a well-formed store.\<close>

lemma wf_store_moments:
  assumes "wf_store K v" "\<And>ek. \<exists>u. wf_store K u \<and> w ek = u P_Write ek"
  shows "wf_store K (v(P_Write := w))"
proof -
  have "(\<exists>k \<in> K. \<exists>t. ek = key_encode k t) \<and> wr_from_bytes b \<noteq> None" if ek: "w ek = Some b" for ek b
  proof -
    from assms(2) [of ek] ek obtain u where u: "wf_store K u" "u P_Write ek = Some b" by metis
    from u show ?thesis by (rule wf_write) auto
  qed
  with assms(1) show ?thesis
    by (auto simp: wf_store_def keyed_by_def)
qed

lemma m_writes_moments:
  "w (key_encode k t) = u P_Write (key_encode k t) \<Longrightarrow>
   m_writes (abs_mvcc (v(P_Write := w))) (k, t) = m_writes (abs_mvcc u) (k, t)"
  by (simp add: m_writes_abs typed_def)

context fjall_shared
begin

lemma shared_reader_find:
  assumes keys: "good_keys K" "k \<in> K" and wf: "wf_store K (view s)"
    and later: "\<And>v v'. R v v' \<Longrightarrow> later_only K k ts v v'"
    and run: "reader_find E k ts s = (res, s')"
  shows "(\<exists>e. res = Inl (Mvcc_Fjall e)) \<or> read_result (abs_mvcc (view s)) k ts res"
proof -
  let ?m = "abs_mvcc (view s)"
  obtain its s1 where r: "fj_range_from E P_Write (key_encode k ts) s = (its, s1)" by force
  then obtain kvs w where kvs: "yields its kvs" "scan_of w (key_encode k ts) kvs"
      and w: "\<And>ek. \<exists>v. R (view s) v \<and> R v (view s1) \<and> w ek = v P_Write ek" and s1: "R (view s) (view s1)"
    by (rule shared_range_moments) blast
  let ?w = "(view s)(P_Write := w)"
  have wfw: "wf_store K ?w"
    by (rule wf_store_moments [OF wf]) (use w later_onlyD(1) [OF later] wf in blast)
  have "committed (abs_mvcc ?w) k t r \<longleftrightarrow> committed ?m k t r" if "t \<le> ts" for t r
  proof -
    from w [of "key_encode k t"] obtain u where u: "R (view s) u" "w (key_encode k t) = u P_Write (key_encode k t)"
      by blast
    then have "committed (abs_mvcc ?w) k t r \<longleftrightarrow> committed (abs_mvcc u) k t r"
      unfolding committed_def by (simp only: m_writes_moments)
    with later_onlyD(2) [OF later [OF u(1)] that] show ?thesis by simp
  qed
  then have vis: "visible (abs_mvcc ?w) k ts = visible ?m k ts" by (rule visible_committed_cong)
  have sc: "scan_of (?w P_Write) (key_encode k ts) kvs" using kvs(2) by simp
  note rs = records_scan [OF keys wfw sc]
  note first = first_visible_iff [OF rs(2) rs(1), unfolded vis]
  have "reader_scan E k ts its s1 = (res, s')"
    using run r by (simp add: reader_find_def)
  from shared_reader_scan [OF this kvs(1) scan_of_decodes [OF wfw sc]]
  consider (io) e where "res = Inl (Mvcc_Fjall e)"
    | (found) v where "R (view s1) v" "res = answer (abs_mvcc v) k (first_visible ts (records k kvs))"
    by blast
  then show ?thesis
  proof cases
    case found
    from later [OF others_trans [OF s1 found(1)]]
    have "m_vals (abs_mvcc v) (k, wr_start_ts r) = m_vals ?m (k, wr_start_ts r)"
      if "first_visible ts (records k kvs) = Some (t, r)" for t r
      using that later_onlyD(3) unfolding first visible_committed by blast
    then have "res = answer ?m k (first_visible ts (records k kvs))"
      unfolding found(2) by (cases "first_visible ts (records k kvs)") (auto split: OpType.split)
    with read_result_answer [OF first] show ?thesis by simp
  qed simp
qed

lemma shared_reader_get:
  assumes keys: "good_keys K" "k \<in> K" and wf: "wf_store K (view s)"
    and later: "\<And>v v'. R v v' \<Longrightarrow> later_only K k ts v v'"
    and run: "reader_get E k ts s = (res, s')"
  shows "(\<exists>e. res = Inl (Mvcc_Fjall e)) \<or>
    (\<exists>v l. R (view s) v \<and> R v (view s') \<and> locked_at (abs_mvcc v) k ts l \<and>
       res = Inl (KeyIsLocked (lock_primary_key l) (lock_start_ts l))) \<or>
    read_result (abs_mvcc (view s)) k ts res" (is ?goal)
proof -
  obtain g s1 where g: "fj_get E P_Lock k s = (g, s1)" by force
  from g show ?thesis
  proof (cases rule: shared_get_cases)
    case (io e)
    with run g show ?thesis by (auto simp: reader_get_def)
  next
    case (read v)
    note v = later [OF read(2)]
    have s1: "later_only K k ts (view s) (view s1)"
      using later others_trans [OF read(2,3)] by blast
    have find: ?goal if "reader_find E k ts s1 = (res, s')"
    proof -
      have "visible (abs_mvcc (view s1)) k ts = visible (abs_mvcc (view s)) k ts"
        using later_onlyD(2) [OF s1] by (rule visible_committed_cong)
      moreover have "m_vals (abs_mvcc (view s1)) (k, wr_start_ts r) = m_vals (abs_mvcc (view s)) (k, wr_start_ts r)"
        if "visible (abs_mvcc (view s1)) k ts t r" for t r
        using that later_onlyD(2,3) [OF s1] unfolding visible_committed by blast
      ultimately show ?thesis
        using shared_reader_find [OF keys later_onlyD(1) [OF s1 wf] later that]
        by (metis read_result_transfer)
    qed
    show ?thesis
    proof (cases "v P_Lock k")
      case None
      with run g read find show ?thesis by (simp add: reader_get_def)
    next
      case (Some b)
      from wf_lock [OF later_onlyD(1) [OF v wf] Some] obtain l where
        l: "lock_from_bytes b = Inr l" "m_locks (abs_mvcc v) k = Some l" by metis
      show ?thesis
      proof (cases "lock_start_ts l \<le> ts")
        case True
        with run g read Some l show ?thesis by (auto simp: reader_get_def locked_at_def)
      next
        case False
        with run g read Some l find show ?thesis by (simp add: reader_get_def)
      qed
    qed
  qed
qed

end

text \<open>C14. A read among other transactions: let \<open>R\<close> be what the others may do to the store between
  and during the engine calls of the read, any relation under which nothing is committed on its
  key at or before its timestamp. Then \<open>reader_get\<close> fails with an error of the engine, reports a
  lock that was on the key in a state between its start and its end, or returns the snapshot of
  the moment it started.\<close>

theorem concurrent_read_snapshot:
  assumes "fjall_shared E view R" "\<And>v v'. R v v' \<Longrightarrow> later_only K k ts v v'"
    and "good_keys K" "k \<in> K" "wf_store K (view s)" "reader_get E k ts s = (res, s')"
  shows "(\<exists>e. res = Inl (Mvcc_Fjall e)) \<or>
    (\<exists>v l. R (view s) v \<and> R v (view s') \<and> locked_at (abs_mvcc v) k ts l \<and>
       res = Inl (KeyIsLocked (lock_primary_key l) (lock_start_ts l))) \<or>
    read_result (abs_mvcc (view s)) k ts res"
  using fjall_shared.shared_reader_get [OF assms(1,3-5,2,6)] by blast

section \<open>Commits\<close>

text \<open>The transaction \<open>st\<close> holds the lock of \<open>k\<close> for the operation \<open>op\<close>.\<close>

definition holds :: "mvcc \<Rightarrow> u64 \<Rightarrow> bytes \<Rightarrow> OpType \<Rightarrow> bool" where
  "holds m st k op \<longleftrightarrow> (\<exists>l. m_locks m k = Some l \<and> lock_start_ts l = st \<and> lock_op l = op)"

lemma holds_unique: "holds m st k op \<Longrightarrow> holds m st k op' \<Longrightarrow> op = op'"
  by (auto simp: holds_def)

text \<open>The locks of \<open>st\<close> on the keys and its records at \<open>ct\<close> are left alone, up to the time to live.\<close>

definition spares_txn :: "bytes set \<Rightarrow> u64 \<Rightarrow> u64 \<Rightarrow> bytes list \<Rightarrow> view \<Rightarrow> view \<Rightarrow> bool" where
  "spares_txn K st ct keys v v' \<longleftrightarrow> (wf_store K v \<longrightarrow> wf_store K v') \<and>
     (\<forall>k \<in> set keys. \<forall>op. (holds (abs_mvcc v') st k op \<longleftrightarrow> holds (abs_mvcc v) st k op) \<and>
        (m_writes (abs_mvcc v) (k, ct) = Some (wr_new st op) \<longrightarrow> m_writes (abs_mvcc v') (k, ct) = Some (wr_new st op)))"

text \<open>A key of the transaction is committed and no longer locked by it, or still locked.\<close>

definition finished :: "u64 \<Rightarrow> u64 \<Rightarrow> (bytes \<Rightarrow> OpType) \<Rightarrow> view \<Rightarrow> bytes \<Rightarrow> bool" where
  "finished st ct ops v k \<longleftrightarrow> (\<forall>op. \<not> holds (abs_mvcc v) st k op) \<and>
     m_writes (abs_mvcc v) (k, ct) = Some (wr_new st (ops k))"

definition underway :: "bytes set \<Rightarrow> u64 \<Rightarrow> u64 \<Rightarrow> (bytes \<Rightarrow> OpType) \<Rightarrow> bytes list \<Rightarrow> view \<Rightarrow> bool" where
  "underway K st ct ops keys v \<longleftrightarrow> wf_store K v \<and>
     (\<forall>k \<in> set keys. holds (abs_mvcc v) st k (ops k) \<or> finished st ct ops v k)"

text \<open>A change that keeps the transaction underway and what is finished.\<close>

definition advances :: "bytes set \<Rightarrow> u64 \<Rightarrow> u64 \<Rightarrow> (bytes \<Rightarrow> OpType) \<Rightarrow> bytes list \<Rightarrow> view \<Rightarrow> view \<Rightarrow> bool" where
  "advances K st ct ops keys v v' \<longleftrightarrow> (underway K st ct ops keys v \<longrightarrow> underway K st ct ops keys v' \<and>
     (\<forall>k \<in> set keys. finished st ct ops v k \<longrightarrow> finished st ct ops v' k))"

lemma advances_trans:
  "advances K st ct ops keys u v \<Longrightarrow> advances K st ct ops keys v w \<Longrightarrow> advances K st ct ops keys u w"
  unfolding advances_def by blast

lemma spares_txn_advances: "spares_txn K st ct keys v v' \<Longrightarrow> advances K st ct ops keys v v'"
  unfolding spares_txn_def advances_def underway_def finished_def by blast

lemma commit_key_batch_advances:
  assumes "k \<in> K" "k \<in> set keys" "lock_op l = ops k"
  shows "advances K st ct ops keys v (apply_batch (commit_key_batch st ct k l) v)"
    and "finished st ct ops (apply_batch (commit_key_batch st ct k l) v) k"
proof -
  let ?v = "apply_batch (commit_key_batch st ct k l) v"
  have m: "abs_mvcc ?v = roll_forward k st ct (ops k) (abs_mvcc v)"
    unfolding commit_key_batch_def assms(3) by (rule abs_roll_forward_batch)
  show fin: "finished st ct ops ?v k" by (simp add: finished_def holds_def m)
  have "holds (abs_mvcc ?v) st k' op \<longleftrightarrow> holds (abs_mvcc v) st k' op"
    "m_writes (abs_mvcc ?v) (k', ct) = m_writes (abs_mvcc v) (k', ct)" if "k' \<noteq> k" for k' op
    using that by (simp_all add: holds_def m)
  then show "advances K st ct ops keys v ?v"
    using fin wf_commit_key_batch [OF _ assms(1), of v st ct l]
    unfolding advances_def underway_def finished_def by metis
qed

context fjall_shared
begin

text \<open>Reading the lock of a key of the transaction and committing the key.\<close>

lemma shared_lock_cases:
  assumes "fj_get E P_Lock k s = (g, s1)" "underway K st ct ops keys (view s)" "k \<in> set keys"
    and le: "R \<le> advances K st ct ops keys"
  obtains (io) e where "g = Inl e"
    | (gone) "g = Inr None" "finished st ct ops (view s1) k"
    | (other) b l where "g = Inr (Some b)" "lock_from_bytes b = Inr l" "lock_start_ts l \<noteq> st"
        "finished st ct ops (view s1) k"
    | (held) b l where "g = Inr (Some b)" "lock_from_bytes b = Inr l" "lock_start_ts l = st" "lock_op l = ops k"
  using assms(1)
proof (cases rule: shared_get_cases)
  case (read v)
  note adv = predicate2D [OF le]
  have v: "underway K st ct ops keys v"
    using adv [OF read(2)] assms(2) by (simp add: advances_def)
  then have wf: "wf_store K v" by (simp add: underway_def)
  have fin: "finished st ct ops (view s1) k" if "\<not> holds (abs_mvcc v) st k (ops k)"
    using adv [OF read(3)] v assms(3) that unfolding advances_def underway_def by blast
  show ?thesis
  proof (cases "v P_Lock k")
    case None
    with gone read(1) fin show ?thesis by (simp add: holds_def wf_lock_None)
  next
    case (Some b)
    with wf obtain l where l: "lock_from_bytes b = Inr l" "m_locks (abs_mvcc v) k = Some l"
      by (rule wf_lock)
    show ?thesis
    proof (cases "lock_start_ts l = st")
      case True
      with l have "holds (abs_mvcc v) st k (lock_op l)" by (simp add: holds_def)
      with v assms(3) have "lock_op l = ops k"
        unfolding underway_def finished_def by (metis holds_unique)
      with held read(1) Some l True show ?thesis by simp
    next
      case False
      with l have "\<not> holds (abs_mvcc v) st k (ops k)" by (simp add: holds_def)
      with other read(1) Some l False fin show ?thesis by simp
    qed
  qed
qed (rule io)

lemma shared_commit_key:
  assumes "commit_batch E (commit_key_batch st ct k l) s = (c, s')" "underway K st ct ops keys (view s)"
    and "k \<in> set keys" "k \<in> K" "lock_op l = ops k"
    and le: "R \<le> advances K st ct ops keys"
  obtains (ok) "c = Inr ()" "advances K st ct ops keys (view s) (view s')" "finished st ct ops (view s') k"
    | (io) e where "c = Inl (Storage_Fjall e)"
  using assms(1)
proof (cases rule: shared_commit_cases)
  case (ok v)
  note adv = predicate2D [OF le]
  note b = commit_key_batch_advances [of k K keys l ops st ct v, OF assms(4,3,5)]
  have "advances K st ct ops keys (view s) (view s')"
    by (rule advances_trans [OF adv [OF ok(2)] advances_trans [OF b(1) adv [OF ok(3)]]])
  moreover have "finished st ct ops (view s') k"
    using adv [OF ok(2)] b adv [OF ok(3)] assms(2,3) unfolding advances_def by blast
  ultimately show ?thesis using that(1) ok(1) by blast
qed (rule that(2))

lemma shared_commit_secondaries:
  assumes "commit_secondaries E st ct ks s = (r, s')" "underway K st ct ops keys (view s)"
    and "set ks \<subseteq> set keys" "set keys \<subseteq> K"
    and le: "R \<le> advances K st ct ops keys"
  shows "(\<exists>e. r = Inl e \<and> txn_io e) \<or> r = Inr () \<and> advances K st ct ops keys (view s) (view s') \<and>
    (\<forall>k \<in> set ks. finished st ct ops (view s') k)"
  using assms(1-3)
proof (induction ks arbitrary: s)
  case Nil
  then show ?case by (simp add: advances_def)
next
  case (Cons k ks)
  obtain g s1 where g: "fj_get E P_Lock k s = (g, s1)" by force
  then have s1: "advances K st ct ops keys (view s) (view s1)"
    by (cases rule: shared_get_cases) (auto intro: predicate2D [OF le] advances_trans)
  have k: "k \<in> set keys" "k \<in> K" using Cons.prems(3) assms(4) by auto
  have rest: ?case if "commit_secondaries E st ct ks s2 = (r, s')"
      "advances K st ct ops keys (view s) (view s2)" "finished st ct ops (view s2) k" for s2
  proof -
    have "underway K st ct ops keys (view s2)"
      using Cons.prems(2) that(2) by (simp add: advances_def)
    with Cons.IH [OF that(1)] Cons.prems(3) that k show ?thesis
      unfolding advances_def by auto
  qed
  from g Cons.prems(2) k(1) le show ?case
  proof (cases rule: shared_lock_cases)
    case (io e)
    with Cons.prems g show ?thesis by auto
  next
    case gone
    with Cons.prems g s1 show ?thesis by (intro rest) auto
  next
    case (other b l)
    with Cons.prems g s1 show ?thesis by (intro rest) auto
  next
    case (held b l)
    obtain c s2 where c: "commit_batch E (commit_key_batch st ct k l) s1 = (c, s2)" by force
    have "underway K st ct ops keys (view s1)"
      using Cons.prems(2) s1 by (simp add: advances_def)
    from c this k held(4) le show ?thesis
    proof (cases rule: shared_commit_key)
      case ok
      with Cons.prems g held c s1 show ?thesis
        by (intro rest [of s2]) (auto intro: advances_trans)
    next
      case (io e)
      with Cons.prems g held c show ?thesis by auto
    qed
  qed
qed

lemma shared_commit_txn:
  assumes run: "commit E st ct keys s = (r, s')" and keys: "set keys \<subseteq> K" and wf: "wf_store K (view s)"
    and held: "\<And>k. k \<in> set keys \<Longrightarrow> holds (abs_mvcc (view s)) st k (ops k)"
    and le: "R \<le> advances K st ct ops keys"
    and stay: "\<And>v v' op. R v v' \<Longrightarrow> holds (abs_mvcc v) st (hd keys) op \<Longrightarrow> holds (abs_mvcc v') st (hd keys) op"
  shows "(\<exists>e. r = Inl e \<and> txn_io e) \<or> r = Inr () \<and> wf_store K (view s') \<and>
    (\<forall>k \<in> set keys. finished st ct ops (view s') k)"
proof (cases keys)
  case Nil
  with run wf show ?thesis by auto
next
  case (Cons pk ks)
  have u: "underway K st ct ops keys (view s)" using wf held by (simp add: underway_def)
  obtain g s1 where g: "fj_get E P_Lock pk s = (g, s1)" by force
  have pk: "pk \<in> set keys" "pk \<in> K" using Cons keys by auto
  have s1: "advances K st ct ops keys (view s) (view s1)" "R (view s) (view s1)"
    using g by (cases rule: shared_get_cases; auto intro: predicate2D [OF le] advances_trans others_trans)+
  have "\<not> finished st ct ops (view s1) pk"
    using stay [OF s1(2)] held [OF pk(1)] Cons by (auto simp: finished_def)
  with g u pk(1) le obtain "(\<exists>e. g = Inl e) \<or> (\<exists>b l. g = Inr (Some b) \<and> lock_from_bytes b = Inr l \<and>
      lock_start_ts l = st \<and> lock_op l = ops pk)"
    by (cases rule: shared_lock_cases) auto
  then show ?thesis
  proof (elim disjE exE conjE)
    fix e assume "g = Inl e"
    with run g Cons show ?thesis by auto
  next
    fix b l assume l: "g = Inr (Some b)" "lock_from_bytes b = Inr l" "lock_start_ts l = st" "lock_op l = ops pk"
    obtain c s2 where c: "commit_batch E (commit_key_batch st ct pk l) s1 = (c, s2)" by force
    have "underway K st ct ops keys (view s1)" using u s1(1) by (simp add: advances_def)
    note u1 = this
    from c u1 pk l(4) le show ?thesis
    proof (cases rule: shared_commit_key)
      case ok
      with run g l c Cons have rest: "commit_secondaries E st ct ks s2 = (r, s')" by simp
      have u2: "underway K st ct ops keys (view s2)" using u1 ok(2) by (simp add: advances_def)
      from shared_commit_secondaries [OF rest u2 _ keys le] Cons u2 ok(3) pk(1) show ?thesis
        unfolding advances_def underway_def by auto
    next
      case (io e)
      with run g l c Cons show ?thesis by auto
    qed
  qed
qed

end

text \<open>C13. A commit among other transactions: when \<open>st\<close> holds the locks of all keys and the others leave
  its locks and records alone, \<open>commit\<close> fails only with an error of the engine; otherwise every
  key carries the record of \<open>st\<close> at \<open>ct\<close> with the operation of its lock, and none of the locks of
  \<open>st\<close> is left on them.\<close>

theorem concurrent_commit_completes:
  assumes "fjall_shared E view (spares_txn K st ct keys)" "set keys \<subseteq> K" "wf_store K (view s)"
    and "\<forall>k \<in> set keys. holds (abs_mvcc (view s)) st k (ops k)"
    and "commit E st ct keys s = (r, s')"
  shows "(\<exists>e. r = Inl e \<and> txn_io e) \<or> r = Inr () \<and> wf_store K (view s') \<and>
    (\<forall>k \<in> set keys. m_writes (abs_mvcc (view s')) (k, ct) = Some (wr_new st (ops k)) \<and>
       \<not> owns (abs_mvcc (view s')) st k)"
proof -
  have stay: "holds (abs_mvcc v') st (hd keys) op"
    if "keys \<noteq> []" "spares_txn K st ct keys v v'" "holds (abs_mvcc v) st (hd keys) op" for v v' op
    using that by (simp add: spares_txn_def)
  have le: "spares_txn K st ct keys \<le> advances K st ct ops keys"
    using spares_txn_advances by blast
  show ?thesis
  proof (cases "keys = []")
    case True
    with assms show ?thesis by auto
  next
    case False
    have "(\<exists>e. r = Inl e \<and> txn_io e) \<or> r = Inr () \<and> wf_store K (view s') \<and>
        (\<forall>k \<in> set keys. finished st ct ops (view s') k)"
      by (rule fjall_shared.shared_commit_txn [OF assms(1,5,2,3) _ le]) (use assms(4) stay [OF False] in blast)+
    then show ?thesis by (auto simp: finished_def owns_def holds_def)
  qed
qed

section \<open>Prewrites\<close>

text \<open>What a transaction \<open>st\<close> sees of a key, and others that keep off the keys.\<close>

definition same_at :: "u64 \<Rightarrow> bytes \<Rightarrow> mvcc \<Rightarrow> mvcc \<Rightarrow> bool" where
  "same_at st k m m' \<longleftrightarrow> m_locks m' k = m_locks m k \<and> (\<forall>t. m_writes m' (k, t) = m_writes m (k, t)) \<and>
     m_vals m' (k, st) = m_vals m (k, st)"

definition hands_off :: "bytes set \<Rightarrow> u64 \<Rightarrow> bytes list \<Rightarrow> view \<Rightarrow> view \<Rightarrow> bool" where
  "hands_off K st keys v v' \<longleftrightarrow> (wf_store K v \<longrightarrow> wf_store K v') \<and>
     (\<forall>k \<in> set keys. same_at st k (abs_mvcc v) (abs_mvcc v'))"

text \<open>No other transaction holds the lock of one of the keys.\<close>

definition no_other :: "u64 \<Rightarrow> bytes set \<Rightarrow> mvcc \<Rightarrow> bool" where
  "no_other st ks m \<longleftrightarrow> (\<forall>k \<in> ks. \<forall>l. m_locks m k = Some l \<longrightarrow> lock_start_ts l = st)"

text \<open>The reason for which a prewrite stops at a key.\<close>

definition stops :: "mvcc \<Rightarrow> u64 \<Rightarrow> bytes \<Rightarrow> TxnError \<Rightarrow> bool" where
  "stops m st k e \<longleftrightarrow> e = TransactionRolledBack \<and> rolled_back m k st \<or>
     e = WriteConflict k st \<and> (\<exists>t r. m_writes m (k, t) = Some r \<and> st \<le> t)"

lemma same_at_refl [simp]: "same_at st k m m"
  by (simp add: same_at_def)

lemma same_at_trans: "same_at st k m1 m2 \<Longrightarrow> same_at st k m2 m3 \<Longrightarrow> same_at st k m1 m3"
  by (simp add: same_at_def)

lemma same_at_lay: "k \<noteq> mutation_key mutation \<Longrightarrow> same_at st k m (lay st' pk ttl mutation m)"
  by (cases mutation) (auto simp: same_at_def m_vals_lay)

lemma same_at_free_for: "same_at st k m m' \<Longrightarrow> free_for st k m' \<longleftrightarrow> free_for st k m"
  by (simp add: same_at_def free_for_def committed_def rolled_back_def)

lemma same_at_laid: "same_at st (mutation_key mutation) m m' \<Longrightarrow> laid st pk ttl m' mutation \<longleftrightarrow> laid st pk ttl m mutation"
  by (auto simp: same_at_def laid_def)

lemma same_at_stops: "same_at st k m m' \<Longrightarrow> stops m' st k e \<longleftrightarrow> stops m st k e"
  by (simp add: same_at_def stops_def rolled_back_def)

lemma hands_offD:
  assumes "hands_off K st keys v v'"
  shows "wf_store K v \<Longrightarrow> wf_store K v'" and "k \<in> set keys \<Longrightarrow> same_at st k (abs_mvcc v) (abs_mvcc v')"
  using assms by (simp_all add: hands_off_def)

context fjall_shared
begin

lemma shared_check_write_conflict:
  assumes run: "check_write_conflict E k st s = (r, s')"
    and K: "good_keys K" "k \<in> K" "wf_store K (view s)" "k \<in> set keys"
    and le: "R \<le> hands_off K st keys"
  obtains (io) e where "r = Inl e" "txn_io e"
    | (stop) e where "r = Inl e" "stops (abs_mvcc (view s)) st k e"
    | (ok) "r = Inr ()" "passes (abs_mvcc (view s)) k st" "R (view s) (view s')"
proof -
  note off = hands_offD [OF predicate2D [OF le]]
  obtain its s1 where rng: "fj_range_from E P_Write (key_encode k (-1)) s = (its, s1)" by force
  then obtain kvs w where kvs: "yields its kvs" "scan_of w (key_encode k (-1)) kvs"
      and w: "\<And>ek. \<exists>v. R (view s) v \<and> R v (view s1) \<and> w ek = v P_Write ek" and s1: "R (view s) (view s1)"
    by (rule shared_range_moments) blast
  have rs': "s1 = s'" "r = conflict_scan k st its"
    using run rng by (auto simp: check_write_conflict_def)
  let ?w = "(view s)(P_Write := w)"
  have wfw: "wf_store K ?w"
    by (rule wf_store_moments [OF K(3)]) (use w off(1) K(3) in blast)
  have "m_writes (abs_mvcc ?w) (k, t) = m_writes (abs_mvcc (view s)) (k, t)" for t
  proof -
    from w [of "key_encode k t"] obtain u where u: "R (view s) u" "w (key_encode k t) = u P_Write (key_encode k t)"
      by blast
    with off(2) [OF u(1) K(4)] show ?thesis by (simp add: m_writes_moments same_at_def)
  qed
  with records_scan_all [OF K(1,2) wfw] kvs(2)
  have rs: "set (records k kvs) = {(t, r). m_writes (abs_mvcc (view s)) (k, t) = Some r}" by simp
  have "decodes kvs" using scan_of_decodes [OF wfw] kvs(2) by simp
  from conflict_scan_of [OF kvs(1) this, of k st]
  consider (io') e where "r = Inl (Txn_Fjall e)" | (scan) "r = conflict_of k st (records k kvs)"
    by (auto simp: rs')
  then show ?thesis
  proof cases
    case io'
    then show ?thesis by (intro io [of "Txn_Fjall e"]) simp_all
  next
    case scan
    show ?thesis
    proof (cases r)
      case (Inl e)
      from conflict_of_Inl [OF scan [unfolded Inl, symmetric]] rs Inl stop show ?thesis
        by (auto simp: rolled_back_def stops_def)
    next
      case (Inr u)
      with scan have "conflict_of k st (records k kvs) = Inr ()" by simp
      with rs Inr ok s1 rs' show ?thesis
        unfolding conflict_of_Inr by (auto simp: passes_def committed_def rolled_back_def)
    qed
  qed
qed

lemma shared_check_lock:
  assumes run: "check_lock E k st s = (r, s')" and wf: "wf_store K (view s)" "k \<in> set keys"
    and own: "\<And>l. m_locks (abs_mvcc (view s)) k = Some l \<Longrightarrow> lock_start_ts l = st"
    and le: "R \<le> hands_off K st keys"
  obtains (io) e where "r = Inl e" "txn_io e" | (ok) "r = Inr ()" "R (view s) (view s')"
proof -
  note off = hands_offD [OF predicate2D [OF le]]
  obtain g s1 where g: "fj_get E P_Lock k s = (g, s1)" by force
  from g show ?thesis
  proof (cases rule: shared_get_cases)
    case (io e)
    with run g that(1) [of "Txn_Fjall e"] show ?thesis by (auto simp: check_lock_def resolve_existing_def)
  next
    case (read v)
    have s1: "R (view s) (view s1)" by (rule others_trans [OF read(2,3)])
    have wfv: "wf_store K v" using off(1) [OF read(2) wf(1)] .
    show ?thesis
    proof (cases "v P_Lock k")
      case None
      with run g read(1) s1 that(2) show ?thesis by (auto simp: check_lock_def resolve_existing_def)
    next
      case (Some b)
      with wfv obtain l where l: "lock_from_bytes b = Inr l" "m_locks (abs_mvcc v) k = Some l"
        by (rule wf_lock)
      with off(2) [OF read(2) wf(2)] own have "lock_start_ts l = st" by (auto simp: same_at_def)
      with run g read(1) Some l s1 that(2) show ?thesis by (auto simp: check_lock_def resolve_existing_def)
    qed
  qed
qed

lemma shared_stage_mutation:
  assumes run: "commit_batch E (stage_mutation st pk ttl mutation) s = (r, s')"
    and K: "good_keys K" "pk \<in> K" "mutation_key mutation \<in> K" "wf_store K (view s)" "mutation_key mutation \<in> set keys"
    and free: "free_for st (mutation_key mutation) (abs_mvcc (view s))" and le: "R \<le> hands_off K st keys"
  obtains (io) e where "r = Inl (Storage_Fjall e)"
    | (ok) "r = Inr ()" "wf_store K (view s')" "laid st pk ttl (abs_mvcc (view s')) mutation"
        "free_for st (mutation_key mutation) (abs_mvcc (view s'))"
        "\<forall>k \<in> set keys - {mutation_key mutation}. same_at st k (abs_mvcc (view s)) (abs_mvcc (view s'))"
  using run
proof (cases rule: shared_commit_cases)
  case batch: (ok v)
  note off = hands_offD [OF predicate2D [OF le]]
  let ?v = "apply_batch (stage_mutation st pk ttl mutation) v" and ?k = "mutation_key mutation"
  have m: "abs_mvcc ?v = lay st pk ttl mutation (abs_mvcc v)"
    by (rule abs_stage_mutation [OF K(1,2)])
  note after = off(2) [OF batch(3)]
  have "wf_store K (view s')"
    using off(1) [OF batch(3)] wf_stage_mutation [OF K(1-3) off(1) [OF batch(2) K(4)]] by blast
  moreover have "free_for st ?k (abs_mvcc (view s'))"
    unfolding same_at_free_for [OF after [OF K(5)]] m
    by (intro free_for_lay) (use free in \<open>simp add: same_at_free_for [OF off(2) [OF batch(2) K(5)]]\<close>)
  moreover have "laid st pk ttl (abs_mvcc (view s')) mutation"
    unfolding same_at_laid [OF after [OF K(5)]] m by (rule laid_lay)
  moreover have "same_at st k (abs_mvcc (view s)) (abs_mvcc (view s'))" if "k \<in> set keys - {?k}" for k
  proof -
    from that have "k \<in> set keys" "k \<noteq> ?k" by simp_all
    with off(2) [OF batch(2)] after same_at_lay show ?thesis
      unfolding m by (meson same_at_trans)
  qed
  ultimately show ?thesis using ok batch(1) by blast
qed (rule io)

lemma shared_prewrite_one:
  assumes run: "prewrite_one E st pk ttl mutation s = (r, s')"
    and K: "good_keys K" "pk \<in> K" "mutation_key mutation \<in> K" "wf_store K (view s)" "mutation_key mutation \<in> set keys"
    and own: "\<And>l. m_locks (abs_mvcc (view s)) (mutation_key mutation) = Some l \<Longrightarrow> lock_start_ts l = st"
    and le: "R \<le> hands_off K st keys"
  obtains (io) e where "r = Inl e" "txn_io e"
    | (stop) e where "r = Inl e" "stops (abs_mvcc (view s)) st (mutation_key mutation) e"
    | (ok) "r = Inr ()" "wf_store K (view s')" "laid st pk ttl (abs_mvcc (view s')) mutation"
        "free_for st (mutation_key mutation) (abs_mvcc (view s'))"
        "\<forall>k \<in> set keys - {mutation_key mutation}. same_at st k (abs_mvcc (view s)) (abs_mvcc (view s'))"
proof -
  note off = hands_offD [OF predicate2D [OF le]]
  let ?k = "mutation_key mutation"
  obtain c s1 where c: "check_write_conflict E ?k st s = (c, s1)" by force
  from c K(1,3-5) le show ?thesis
  proof (cases rule: shared_check_write_conflict)
    case (io e)
    with run c that(1) [of e] show ?thesis by (auto simp: prewrite_one_def)
  next
    case (stop e)
    with run c that(2) [of e] show ?thesis by (auto simp: prewrite_one_def)
  next
    case passed: ok
    note s1 = off [OF passed(3)]
    obtain g s2 where g: "check_lock E ?k st s1 = (g, s2)" by force
    have "\<And>l. m_locks (abs_mvcc (view s1)) ?k = Some l \<Longrightarrow> lock_start_ts l = st"
      using own s1(2) [OF K(5)] by (simp add: same_at_def)
    with g s1(1) [OF K(4)] K(5) show ?thesis
    proof (rule shared_check_lock [OF _ _ _ _ le])
      fix e assume "g = Inl e" "txn_io e"
      with run c passed g that(1) [of e] show ?thesis by (auto simp: prewrite_one_def)
    next
      assume unlocked: "g = Inr ()" "R (view s1) (view s2)"
      note s2 = off [OF others_trans [OF passed(3) unlocked(2)]]
      obtain d s3 where d: "commit_batch E (stage_mutation st pk ttl mutation) s2 = (d, s3)" by force
      have "free_for st ?k (abs_mvcc (view s2))"
        unfolding same_at_free_for [OF s2(2) [OF K(5)]] using passed(2) own by (simp add: free_for_passes)
      with d K(1-3) s2(1) [OF K(4)] K(5) show ?thesis
      proof (rule shared_stage_mutation [OF _ _ _ _ _ _ _ le])
        fix e assume "d = Inl (Storage_Fjall e)"
        with run c passed g unlocked d that(1) [of "Txn_Storage (Storage_Fjall e)"] show ?thesis
          by (auto simp: prewrite_one_def)
      next
        assume laid: "d = Inr ()" "wf_store K (view s3)" "laid st pk ttl (abs_mvcc (view s3)) mutation"
          "free_for st ?k (abs_mvcc (view s3))"
          "\<forall>k \<in> set keys - {?k}. same_at st k (abs_mvcc (view s2)) (abs_mvcc (view s3))"
        have "r = Inr ()" "s' = s3" using run c passed g unlocked d laid(1) by (simp_all add: prewrite_one_def)
        with laid s2(2) that(3) show ?thesis by (meson DiffD1 same_at_trans)
      qed
    qed
  qed
qed

lemma shared_prewrite:
  assumes "prewrite E st mutations pk ttl s = (r, s')"
    and K: "good_keys K" "pk \<in> K" "set keys \<subseteq> K" and wf: "wf_store K (view s)"
    and ms: "distinct (map mutation_key mutations)" "mutation_key ` set mutations \<subseteq> set keys"
    and own: "no_other st (mutation_key ` set mutations) (abs_mvcc (view s))"
    and le: "R \<le> hands_off K st keys"
  shows "(\<exists>e. r = Inl e \<and> txn_io e) \<or>
    (\<exists>mutation \<in> set mutations. \<exists>e. r = Inl e \<and> stops (abs_mvcc (view s)) st (mutation_key mutation) e) \<or>
    r = Inr () \<and> wf_store K (view s') \<and>
      (\<forall>mutation \<in> set mutations. laid st pk ttl (abs_mvcc (view s')) mutation \<and>
         free_for st (mutation_key mutation) (abs_mvcc (view s'))) \<and>
      (\<forall>k \<in> set keys - mutation_key ` set mutations. same_at st k (abs_mvcc (view s)) (abs_mvcc (view s')))"
  using assms(1) wf ms own
proof (induction mutations arbitrary: s)
  case (Cons mutation mutations)
  let ?k = "mutation_key mutation"
  obtain c s1 where c: "prewrite_one E st pk ttl mutation s = (c, s1)" by force
  have k: "?k \<in> K" "?k \<in> set keys" "?k \<notin> mutation_key ` set mutations" using Cons.prems(3,4) K(3) by auto
  have "\<And>l. m_locks (abs_mvcc (view s)) ?k = Some l \<Longrightarrow> lock_start_ts l = st"
    using Cons.prems(5) by (simp add: no_other_def)
  note one = shared_prewrite_one [OF c K(1,2) k(1) Cons.prems(2) k(2) this le]
  consider (io) e where "c = Inl e" "txn_io e"
    | (stop) e where "c = Inl e" "stops (abs_mvcc (view s)) st ?k e"
    | (ok) "c = Inr ()" "wf_store K (view s1)" "laid st pk ttl (abs_mvcc (view s1)) mutation"
        "free_for st ?k (abs_mvcc (view s1))"
        "\<forall>k \<in> set keys - {?k}. same_at st k (abs_mvcc (view s)) (abs_mvcc (view s1))"
    by (rule one) blast+
  then show ?case
  proof cases
    case (io e)
    with Cons.prems(1) c show ?thesis by auto
  next
    case (stop e)
    with Cons.prems(1) c show ?thesis by auto
  next
    case ok
    have same: "same_at st k (abs_mvcc (view s)) (abs_mvcc (view s1))" if "k \<in> mutation_key ` set mutations" for k
      using that k(3) Cons.prems(4) by (intro bspec [OF ok(5)]) (auto simp del: image_iff, metis imageI)
    have run: "prewrite E st mutations pk ttl s1 = (r, s')" using Cons.prems(1) c ok(1) by simp
    have "no_other st (mutation_key ` set mutations) (abs_mvcc (view s1))"
      using same Cons.prems(5) by (simp add: no_other_def same_at_def)
    from Cons.IH [OF run ok(2) _ _ this] Cons.prems(3,4)
    consider (io) e where "r = Inl e" "txn_io e"
      | (stop) mutation' e where "mutation' \<in> set mutations" "r = Inl e" "stops (abs_mvcc (view s1)) st (mutation_key mutation') e"
      | (all) "r = Inr ()" "wf_store K (view s')"
          "\<And>mutation'. mutation' \<in> set mutations \<Longrightarrow> laid st pk ttl (abs_mvcc (view s')) mutation' \<and>
             free_for st (mutation_key mutation') (abs_mvcc (view s'))"
          "\<And>k. k \<in> set keys - mutation_key ` set mutations \<Longrightarrow> same_at st k (abs_mvcc (view s1)) (abs_mvcc (view s'))"
      by auto
    then show ?thesis
    proof cases
      case (stop mutation' e)
      then have "stops (abs_mvcc (view s)) st (mutation_key mutation') e"
        using same_at_stops [OF same [of "mutation_key mutation'"]] by simp
      with stop show ?thesis by auto
    next
      case all
      have last: "same_at st ?k (abs_mvcc (view s1)) (abs_mvcc (view s'))" using all(4) k by blast
      have "same_at st k (abs_mvcc (view s)) (abs_mvcc (view s'))"
        if "k \<in> set keys - mutation_key ` set (mutation # mutations)" for k
        using that bspec [OF ok(5), of k] all(4) [of k] by (auto intro: same_at_trans)
      with all ok(3,4) last show ?thesis
        by (simp add: same_at_laid same_at_free_for)
    qed auto
  qed
qed simp

end

text \<open>C12. A prewrite among other transactions: when no other transaction holds a key of the mutations
  and the others keep off these keys during the prewrite, \<open>prewrite\<close> stops with an error of the
  engine or with the conflict or rollback mark it found on a key; otherwise all locks and
  values are laid, and nothing is committed on the keys at the start timestamp or later.\<close>

theorem concurrent_prewrite_locks:
  assumes "fjall_shared E view (hands_off K st (map mutation_key mutations))"
    and "good_keys K" "pk \<in> K" "mutation_key ` set mutations \<subseteq> K" "wf_store K (view s)"
    and "distinct (map mutation_key mutations)"
    and "no_other st (mutation_key ` set mutations) (abs_mvcc (view s))"
    and "prewrite E st mutations pk ttl s = (r, s')"
  shows "(\<exists>e. r = Inl e \<and> txn_io e) \<or>
    (\<exists>mutation \<in> set mutations. \<exists>e. r = Inl e \<and> stops (abs_mvcc (view s)) st (mutation_key mutation) e) \<or>
    r = Inr () \<and> wf_store K (view s') \<and>
      (\<forall>mutation \<in> set mutations. laid st pk ttl (abs_mvcc (view s')) mutation \<and>
         free_for st (mutation_key mutation) (abs_mvcc (view s')))"
proof -
  have "set (map mutation_key mutations) \<subseteq> K" using assms(4) by simp
  from fjall_shared.shared_prewrite [OF assms(1,8,2,3) this assms(5,6) _ assms(7) order_refl] show ?thesis
    by auto
qed

section \<open>Runs among other transactions\<close>

text \<open>The batches of a transaction on other keys keep off, and leave the transaction alone.\<close>

lemma stage_mutation_hands_off:
  assumes "good_keys K" "pk \<in> K" "mutation_key mutation \<in> K - set keys"
  shows "hands_off K st keys v (apply_batch (stage_mutation st' pk ttl mutation) v)"
proof -
  have "k \<noteq> mutation_key mutation" if "k \<in> set keys" for k using assms(3) that by auto
  then show ?thesis
    using assms(3) wf_stage_mutation [OF assms(1,2)]
    by (auto simp: hands_off_def abs_stage_mutation [OF assms(1,2)] intro: same_at_lay)
qed

lemma commit_key_hands_off:
  assumes "k \<in> K - set keys"
  shows "hands_off K st keys v (apply_batch (commit_key_batch st' ct k l) v)"
  using assms wf_commit_key_batch [of K v k] unfolding hands_off_def commit_key_batch_def abs_roll_forward_batch
  by (auto simp: same_at_def)

lemma hands_off_spares: "hands_off K st keys v v' \<Longrightarrow> spares_txn K st ct keys v v'"
  by (auto simp: hands_off_def spares_txn_def same_at_def holds_def)

lemma hands_off_order: "reflp (hands_off K st keys)" "transp (hands_off K st keys)"
  unfolding hands_off_def by (auto intro!: reflpI transpI dest: same_at_trans)

lemma spares_txn_order: "reflp (spares_txn K st ct keys)" "transp (spares_txn K st ct keys)"
  unfolding spares_txn_def by (auto intro!: reflpI transpI)

lemma later_only_order: "reflp (later_only K k ts)" "transp (later_only K k ts)"
  unfolding later_only_def by (auto intro!: reflpI transpI)

lemma busy_bounded:
  assumes "\<And>b v. allowed b \<Longrightarrow> P v (apply_batch b v)" "reflp P" "transp P"
  shows "fjall_shared (busy_env (job_batch allowed) mem_env) (\<lambda>x. mem_view (fst x)) P"
proof (rule fjall_shared_mono [OF busy.fjall_shared_axioms _ assms(2,3)])
  fix v v'
  assume "job_steps allowed v v'"
  then show "P v v'"
    by (induction rule: rtranclp_induct) (use assms in \<open>auto dest: reflpD elim: transpE\<close>)
qed

definition beside :: "batch list \<Rightarrow> (mem_db \<times> batch list list) env" where
  "beside bs = busy_env (job_batch (\<lambda>b. b \<in> set bs)) mem_env"

text \<open>The transaction 7 writes the key \<open>[3]\<close> and commits at 9, while others work on \<open>[1]\<close> and \<open>[2]\<close>.\<close>

definition other_txn :: "batch list" where
  "other_txn = [stage_mutation 7 [3] 3000 (M_Put [3] [33]),
     commit_key_batch 7 9 [3] (txn_lock 7 [3] 3000 (M_Put [3] [33]))]"

lemma keys_123: "good_keys (set [[1], [2], [3]])"
  by (rule good_key_list) (simp add: good_key_list_def)

lemma beside_other_txn:
  "fjall_shared (beside other_txn) (\<lambda>x. mem_view (fst x)) (hands_off (set [[1], [2], [3]]) st [[1], [2]])"
  unfolding beside_def
proof (rule busy_bounded [OF _ hands_off_order])
  fix b v
  assume "b \<in> set other_txn"
  then consider "b = stage_mutation 7 [3] 3000 (M_Put [3] [33])"
    | "b = commit_key_batch 7 9 [3] (txn_lock 7 [3] 3000 (M_Put [3] [33]))"
    by (auto simp: other_txn_def)
  then show "hands_off (set [[1], [2], [3]]) st [[1], [2]] v (apply_batch b v)"
  proof cases
    case 1
    show ?thesis unfolding 1 by (rule stage_mutation_hands_off [OF keys_123]) simp_all
  next
    case 2
    show ?thesis unfolding 2 by (rule commit_key_hands_off) simp
  qed
qed

theorem concurrent_prewrite_locks_witness:
  "laid 5 [1] 3000 (abs_mvcc (mem_view (fst (snd (prewrite (beside other_txn) 5 [M_Put [1] [11], M_Delete [2]] [1] 3000
     (mem_init [], [other_txn])))))) (M_Put [1] [11])"
proof -
  let ?ms = "[M_Put [1] [11], M_Delete [2]]"
  obtain r s' where run: "prewrite (beside other_txn) 5 ?ms [1] 3000 (mem_init [], [other_txn]) = (r, s')" by (rule prod.exhaust)
  have "fst (prewrite (beside other_txn) 5 ?ms [1] 3000 (mem_init [], [other_txn])) = Inr ()" by code_simp
  with run have r: "r = Inr ()" by simp
  have off: "fjall_shared (beside other_txn) (\<lambda>x. mem_view (fst x)) (hands_off (set [[1], [2], [3]]) 5 (map mutation_key ?ms))"
    using beside_other_txn [of 5] by simp
  have free: "no_other 5 (mutation_key ` set ?ms) (abs_mvcc (mem_view (fst (mem_init [], [other_txn]))))"
    by (simp add: no_other_def mem_init_empty)
  have wf: "wf_store (set [[1], [2], [3]]) (mem_view (fst (mem_init [], [other_txn])))"
    by (simp add: wf_mem_init del: set_simps)
  from concurrent_prewrite_locks [OF off keys_123 _ _ wf _ free run] show ?thesis
    unfolding run by (simp add: r)
qed

definition half_way :: mem_db where
  "half_way = snd (prewrite mem_env 5 [M_Put [1] [11], M_Put [2] [12]] [1] 3000 (mem_init []))"

theorem concurrent_commit_completes_witness:
  "m_writes (abs_mvcc (mem_view (fst (snd (commit (beside other_txn) 5 20 [[1], [2]] (half_way, [[], other_txn])))))) ([2], 20)
     = Some (wr_new 5 Put)"
proof -
  obtain r s' where run: "commit (beside other_txn) 5 20 [[1], [2]] (half_way, [[], other_txn]) = (r, s')" by (rule prod.exhaust)
  have "fst (commit (beside other_txn) 5 20 [[1], [2]] (half_way, [[], other_txn])) = Inr ()" by code_simp
  with run have r: "r = Inr ()" by simp
  have wf: "wf_store (set [[1], [2], [3]]) (mem_view half_way)" by (rule wf_mem) code_simp
  have "typed lock_decode (mem_view half_way P_Lock) [1] = Some (txn_lock 5 [1] 3000 (M_Put [1] [11]))"
    "typed lock_decode (mem_view half_way P_Lock) [2] = Some (txn_lock 5 [1] 3000 (M_Put [2] [12]))" by code_simp+
  then have "holds (abs_mvcc (mem_view half_way)) 5 k Put" if "k \<in> set [[1], [2]]" for k
    using that by (auto simp: holds_def m_locks_abs)
  moreover have "fjall_shared (beside other_txn) (\<lambda>x. mem_view (fst x)) (spares_txn (set [[1], [2], [3]]) 5 20 [[1], [2]])"
    by (rule fjall_shared_mono [OF beside_other_txn _ spares_txn_order]) (rule hands_off_spares)
  ultimately show ?thesis
    using concurrent_commit_completes [where ops = "\<lambda>_. Put" and view = "\<lambda>x. mem_view (fst x)", OF _ _ _ _ run] wf
    unfolding run by (simp add: r)
qed

text \<open>A delete of \<open>[1]\<close> by the transaction 35, committed at 40 during a read at 30.\<close>

definition later_txn :: "batch list" where
  "later_txn = [stage_mutation 35 [1] 3000 (M_Delete [1]), commit_key_batch 35 40 [1] (txn_lock 35 [1] 3000 (M_Delete [1]))]"

lemma beside_later_txn:
  "fjall_shared (beside later_txn) (\<lambda>x. mem_view (fst x)) (later_only (set [[1], [2], [3]]) [1] 30)"
  unfolding beside_def
proof (rule busy_bounded [OF _ later_only_order])
  fix b v
  assume "b \<in> set later_txn"
  then consider "b = stage_mutation 35 [1] 3000 (M_Delete [1])"
    | "b = commit_key_batch 35 40 [1] (txn_lock 35 [1] 3000 (M_Delete [1]))"
    by (auto simp: later_txn_def)
  then show "later_only (set [[1], [2], [3]]) [1] 30 v (apply_batch b v)"
  proof cases
    case 1
    then show ?thesis
      using wf_stage_mutation [OF keys_123, of "[1]" "M_Delete [1]"] abs_stage_mutation [OF keys_123, of "[1]"]
      by (simp add: later_only_def committed_def m_vals_lay)
  next
    case 2
    show ?thesis
      unfolding 2
    proof (rule later_only_commit)
      show "abs_mvcc (apply_batch (commit_key_batch 35 40 [1] (txn_lock 35 [1] 3000 (M_Delete [1]))) v) =
          roll_forward [1] 35 40 Delete (abs_mvcc v)"
        unfolding commit_key_batch_def abs_roll_forward_batch by simp
    qed (auto intro: wf_commit_key_batch)
  qed
qed

theorem concurrent_read_snapshot_witness:
  "fst (reader_get (beside later_txn) [1] 30 (read_db, [[], later_txn])) = Inr (Some [77]) \<and>
   read_result (abs_mvcc (mem_view read_db)) [1] 30 (Inr (Some [77]))"
proof -
  obtain res s' where run: "reader_get (beside later_txn) [1] 30 (read_db, [[], later_txn]) = (res, s')" by (rule prod.exhaust)
  have "fst (reader_get (beside later_txn) [1] 30 (read_db, [[], later_txn])) = Inr (Some [77])" by code_simp
  moreover from this run have "res = Inr (Some [77])" by simp
  moreover have "wf_store (set [[1], [2], [3]]) (mem_view read_db)" by (rule wf_mem) code_simp
  ultimately show ?thesis
    using concurrent_read_snapshot [OF beside_later_txn _ keys_123 _ _ run] by simp
qed

end
