(* ===== verification/Counterexamples.thy ===== *)
theory Counterexamples
  imports Client_System Interleaving
begin

text \<open>
  Runs of the modelled code that show why the theorems carry the hypotheses they carry. Each
  is evaluated on the in-memory engine; none involves a fault of the engine.
\<close>

section \<open>A conflict check that is not repeated\<close>

text \<open>Transaction 5 has committed its primary key \<open>[1]\<close> at 20, its secondary key \<open>[2]\<close> is still locked.
  Transaction 10 prewrites \<open>[2]\<close>: the conflict check finds no version, the lock is resolved to the
  commit at 20, and the lock of 10 is laid without checking again. Both commit, although 20
  lies between the start and the commit of 10: an update is lost. The hypothesis \<open>settled\<close> of the
  theorems on \<open>prewrite\<close> excludes this state.\<close>

definition half_committed :: mem_db where
  "half_committed = snd (commit mem_env 5 20 [[1]]
     (snd (prewrite mem_env 5 [M_Put [1] [11], M_Put [2] [12]] [1] 3000 (mem_init []))))"

definition lost_update_db :: mem_db where
  "lost_update_db = snd (commit mem_env 10 30 [[2]] (snd (prewrite mem_env 10 [M_Put [2] [22]] [2] 3000 half_committed)))"

lemma lost_update_runs:
  "fst (prewrite mem_env 10 [M_Put [2] [22]] [2] 3000 half_committed) = Inr ()"
  "fst (commit mem_env 10 30 [[2]] (snd (prewrite mem_env 10 [M_Put [2] [22]] [2] 3000 half_committed))) = Inr ()"
  by code_simp+

lemma lost_update_state:
  "typed wr_from_bytes (mem_view lost_update_db P_Write) (key_encode [2] 20) = Some (wr_new 5 Put)"
  "typed wr_from_bytes (mem_view lost_update_db P_Write) (key_encode [2] 30) = Some (wr_new 10 Put)"
  by code_simp+

lemma lost_update: "\<not> si_inv (abs_mvcc (mem_view lost_update_db))"
proof
  assume inv: "si_inv (abs_mvcc (mem_view lost_update_db))"
  have "committed (abs_mvcc (mem_view lost_update_db)) [2] 20 (wr_new 5 Put)"
    "committed (abs_mvcc (mem_view lost_update_db)) [2] 30 (wr_new 10 Put)"
    using lost_update_state by (simp_all add: committed_def m_writes_abs)
  from si_invD(2) [OF inv this] show False by simp
qed

section \<open>A commit before the start\<close>

text \<open>The server does not compare the two timestamps of a commit request: transaction 5 commits at 3.
  Clients are asked to commit no earlier than they started.\<close>

definition early_commit_db :: mem_db where
  "early_commit_db = snd (commit mem_env 5 3 [[1]] (snd (prewrite mem_env 5 [M_Put [1] [11]] [1] 3000 (mem_init []))))"

lemma early_commit_runs:
  "fst (commit mem_env 5 3 [[1]] (snd (prewrite mem_env 5 [M_Put [1] [11]] [1] 3000 (mem_init [])))) = Inr ()"
  "typed wr_from_bytes (mem_view early_commit_db P_Write) (key_encode [1] 3) = Some (wr_new 5 Put)"
  by code_simp+

lemma early_commit: "\<not> si_inv (abs_mvcc (mem_view early_commit_db))"
proof
  assume inv: "si_inv (abs_mvcc (mem_view early_commit_db))"
  have "committed (abs_mvcc (mem_view early_commit_db)) [1] 3 (wr_new 5 Put)"
    using early_commit_runs(2) by (simp add: committed_def m_writes_abs)
  from si_invD(1) [OF inv this] show False by simp
qed

section \<open>Races\<close>

text \<open>Between the checks of a prewrite by transaction 10 and its batch, transaction 11 prewrites and
  commits the same key. Both commit: an update is lost. The others do not keep off the key, as
  the theorem on concurrent prewrites asks.\<close>

definition race_env :: "(mem_db \<times> coord_op list list) env" where
  "race_env = busy_env (coord_exec mem_env) mem_env"

definition rival :: "coord_op list" where
  "rival = [Op_Prewrite 11 [M_Put [1] [99]] [1] 3000, Op_Commit 11 12 [[1]]]"

lemma prewrite_race:
  "fst (prewrite race_env 10 [M_Put [1] [7]] [1] 3000 (mem_init [], [[], [], rival])) = Inr ()"
  "fst (commit race_env 10 13 [[1]] (snd (prewrite race_env 10 [M_Put [1] [7]] [1] 3000 (mem_init [], [[], [], rival])))) = Inr ()"
  by code_simp+

definition race_db :: mem_db where
  "race_db = fst (snd (commit race_env 10 13 [[1]]
     (snd (prewrite race_env 10 [M_Put [1] [7]] [1] 3000 (mem_init [], [[], [], rival])))))"

lemma prewrite_race_lost_update:
  "typed wr_from_bytes (mem_view race_db P_Write) (key_encode [1] 12) = Some (wr_new 11 Put)"
  "typed wr_from_bytes (mem_view race_db P_Write) (key_encode [1] 13) = Some (wr_new 10 Put)"
  by code_simp+

text \<open>A rollback between the check of a commit and its batch: both succeed, and the key carries the
  rollback mark and the committed record of the same transaction.\<close>

definition raced_commit :: "(TxnError + unit) \<times> mem_db \<times> coord_op list list" where
  "raced_commit = commit race_env 5 20 [[1]]
     (snd (prewrite mem_env 5 [M_Put [1] [11]] [1] 3000 (mem_init [])), [[], [Op_Rollback 5 [[1]]]])"

lemma commit_race:
  "fst raced_commit = Inr ()"
  "typed wr_from_bytes (mem_view (fst (snd raced_commit)) P_Write) (key_encode [1] 5) = Some (wr_new 5 Rollback)"
  "typed wr_from_bytes (mem_view (fst (snd raced_commit)) P_Write) (key_encode [1] 20) = Some (wr_new 5 Put)"
  by code_simp+

section \<open>Keys that extend other keys\<close>

text \<open>The versions of \<open>[97, 48]\<close> sort between the versions of \<open>[97]\<close>, so a scan of the versions of \<open>[97]\<close>
  that starts at the largest timestamp meets the longer key first and stops. The conflict
  with the commit at 20 is missed, a committed transaction counts as rolled back, and a
  range scan from \<open>[97]\<close> leaves the longer key out, while one from the empty key returns the
  keys out of order. The hypothesis \<open>good_keys\<close> excludes such keys.\<close>

definition extension_db :: mem_db where
  "extension_db = snd (commit mem_env 5 20 [[97]] (snd (prewrite mem_env 5 [M_Put [97] [1]] [97] 3000
     (snd (commit mem_env 3 4 [[97, 48]] (snd (prewrite mem_env 3 [M_Put [97, 48] [2]] [97, 48] 3000 (mem_init []))))))))"

lemma extension_conflict_missed: "fst (prewrite mem_env 10 [M_Put [97] [9]] [97] 3000 extension_db) = Inr ()"
  by code_simp

lemma extension_status_wrong: "fst (check_txn_status mem_env [97] 5 extension_db) = Inr RolledBack"
  by code_simp

lemma extension_scan_incomplete:
  "fst (coord_scan mem_env [97] [98] 0 30 extension_db) = Inr [([97], [1])]"
  "fst (coord_scan mem_env [] [98] 0 30 extension_db) = Inr [([97, 48], [2]), ([97], [1])]"
  by code_simp+

section \<open>Garbage collection of a key with a rollback mark\<close>

text \<open>The mark at 15 counts as the newest version below the safe point, so the committed version
  at 10 is removed and the key is gone.\<close>

definition marked_db :: mem_db where
  "marked_db = snd (rollback mem_env 15 [[1]] (snd (commit mem_env 9 10 [[1]]
     (snd (prewrite mem_env 9 [M_Put [1] [7]] [1] 3000 (mem_init []))))))"

lemma gc_loses_version:
  "fst (coord_get mem_env [1] 30 marked_db) = Inr (Some [7])"
  "fst (coord_get mem_env [1] 30 (snd (gc_keys_older_than mem_env 20 marked_db))) = Inr None"
  by code_simp+

section \<open>Resolution of locks by a read\<close>

text \<open>A read rolls a lock forward as a put, whatever the lock was for. A deleted secondary key
  becomes a put without a value, which reads as corrupted.\<close>

definition half_deleted :: mem_db where
  "half_deleted = snd (commit mem_env 5 20 [[1]]
     (snd (prewrite mem_env 5 [M_Put [1] [11], M_Delete [2]] [1] 3000 (mem_init []))))"

lemma read_corrupts_delete: "fst (coord_get mem_env [2] 30 half_deleted) = Inl (Txn_Mvcc CorruptedState)"
  by code_simp

text \<open>A heartbeat extends the primary lock only. At 5000 ms the secondary lock is expired while the
  transaction is alive: another transaction removes it, and the first one still commits with
  Ok, its secondary key left out.\<close>

definition alive_db :: mem_db where
  "alive_db = snd (heartbeat mem_env [1] (push_bit 16 1000) 100000
     (snd (prewrite mem_env (push_bit 16 1000) [M_Put [1] [11], M_Put [2] [12]] [1] 10 (mem_init [5000, 5000]))))"

definition torn_db :: mem_db where
  "torn_db = snd (commit mem_env (push_bit 16 1000) (push_bit 16 6000) [[1], [2]]
     (snd (prewrite mem_env (push_bit 16 5000) [M_Put [2] [22]] [2] 10 alive_db)))"

lemma secondary_of_live_transaction_lost:
  "fst (commit mem_env (push_bit 16 1000) (push_bit 16 6000) [[1], [2]]
     (snd (prewrite mem_env (push_bit 16 5000) [M_Put [2] [22]] [2] 10 alive_db))) = Inr ()"
  "typed wr_from_bytes (mem_view torn_db P_Write) (key_encode [1] (push_bit 16 6000)) = Some (wr_new (push_bit 16 1000) Put)"
  "typed wr_from_bytes (mem_view torn_db P_Write) (key_encode [2] (push_bit 16 6000)) = None"
  "typed wr_from_bytes (mem_view torn_db P_Write) (key_encode [2] (push_bit 16 1000)) = Some (wr_new (push_bit 16 1000) Rollback)"
  by code_simp+

section \<open>Committing a transaction that was rolled back\<close>

definition rolled_back_db :: mem_db where
  "rolled_back_db = snd (rollback mem_env 5 [[1]] (snd (prewrite mem_env 5 [M_Put [1] [11]] [1] 3000 (mem_init []))))"

lemma batch_commit_of_rolled_back:
  "fst (batch_commit mem_env 5 20 [[1]] rolled_back_db) = Inr ()"
  "fst (commit mem_env 5 20 [[1]] rolled_back_db) = Inl TransactionRolledBack"
  by code_simp+

section \<open>Arithmetic\<close>

text \<open>The sum of the start time and the time to live wraps: a lock meant to live as long as
  possible is expired at once.\<close>

lemma ttl_wraps:
  "fst (check_txn_status mem_env [1] (push_bit 16 1000)
     (snd (prewrite mem_env (push_bit 16 1000) [M_Put [1] [11]] [1] (-1) (mem_init [1000])))) = Inr RolledBack"
  by code_simp

section \<open>Clocks of clients and servers\<close>

text \<open>A server never learns of the timestamps clients use. After a put by a client whose clock is
  ahead of the server's, a get that follows finds nothing.\<close>

lemma put_then_get_nil:
  "fst (cli_put solo_stubs (Some 9) [1] [11] (solo_server (mem_init [5, 6]))) = Inr Out_Ok"
  "fst (cli_run solo_stubs (Some 9) (Cmd_Get [1]) (snd (cli_put solo_stubs (Some 9) [1] [11] (solo_server (mem_init [5, 6]))))) = Inr Out_Nil"
  by code_simp+

section \<open>Raft data next to user data\<close>

text \<open>Values of user keys and entries of Raft logs share a partition. A value stored under a user
  key that starts like an entry key becomes an entry of the log at the next start.\<close>

lemma user_value_becomes_log_entry:
  "entries (fst (raft_storage_new plain_pb mem_env 1
     (snd (prewrite mem_env 5 [M_Put (ascii ''r_entry_1_x'') (u64_to_be_bytes 9 @ u64_to_be_bytes 3)]
        (ascii ''r_entry_1_x'') 3000 (mem_init []))))) = [(9, 3, [])]"
  by code_simp

text \<open>The region table and the counter of identifiers are not stored. After a restart the next split
  hands out the identifier 2 again, and the new region starts with the log of the old one.\<close>

definition restarted_db :: mem_db where
  "restarted_db = snd (snd (raft_append plain_pb mem_env 2 [(1, 1, [7])] raft_core_empty
     (snd (snd (kv_ask_split plain_pb solo mem_env \<lparr>aq_region_id = 1, aq_split_key = [5]\<rparr> (solo_server (mem_init [])))))))"

lemma region_inherits_log:
  "map_option (\<lambda>n. entries (mr_storage n))
     (ns_raft_nodes (fst (snd (kv_ask_split plain_pb solo mem_env \<lparr>aq_region_id = 1, aq_split_key = [9]\<rparr>
        (solo_server restarted_db)))) 2) = Some [(1, 1, [7])]"
  by code_simp

section \<open>The batch collector\<close>

text \<open>When the channel closes, the items collected so far are dropped.\<close>

lemma collector_drops_at_close:
  "worker 2 send [Recv i, Closed] [] w = ([], [i], w)"
  by simp

end
