(* ===== verification/Region_Module.thy ===== *)
theory Region_Module
  imports Router
begin

text \<open>
  \<^verbatim>\<open>raft-engine/src/region\<close>: an older region table indexed by end keys, with a splitter that
  decides by size. No other file declares or uses the module. Names carry the suffix \<open>_v1\<close>
  where they repeat those of \<^verbatim>\<open>raft-engine/src/router.rs\<close>.
\<close>

section \<open>Regions and their table\<close>

record Region_v1 =
  v1_id :: u64
  v1_start_key :: bytes
  v1_end_key :: bytes
  v1_leader_addr :: string
  v1_size_bytes :: u64

definition contains_key_v1 :: "Region_v1 \<Rightarrow> bytes \<Rightarrow> bool" where
  "contains_key_v1 r key \<longleftrightarrow>
     (v1_start_key r = [] \<or> v1_start_key r \<le> key) \<and> (v1_end_key r = [] \<or> key < v1_end_key r)"

type_synonym RegionRouter_v1 = "(bytes \<times> Region_v1) list"

definition router_new_v1 :: RegionRouter_v1 where
  "router_new_v1 = []"

definition insert_region_v1 :: "Region_v1 \<Rightarrow> RegionRouter_v1 \<Rightarrow> RegionRouter_v1" where
  "insert_region_v1 region rs = bt_insert (v1_end_key region) region rs"

definition route_v1 :: "RegionRouter_v1 \<Rightarrow> bytes \<Rightarrow> Region_v1 option" where
  "route_v1 rs key = find (\<lambda>region. contains_key_v1 region key) (map snd rs)"

section \<open>The splitter\<close>

record RegionSplitter =
  split_threshold_bytes :: u64

definition DEFAULT_SPLIT_SIZE_BYTES :: u64 where
  "DEFAULT_SPLIT_SIZE_BYTES = 64 * 1024 * 1024"

definition splitter_default :: RegionSplitter where
  "splitter_default = \<lparr>split_threshold_bytes = DEFAULT_SPLIT_SIZE_BYTES\<rparr>"

definition splitter_new :: "u64 \<Rightarrow> RegionSplitter" where
  "splitter_new threshold_bytes = \<lparr>split_threshold_bytes = threshold_bytes\<rparr>"

definition should_split :: "RegionSplitter \<Rightarrow> Region_v1 \<Rightarrow> bool" where
  "should_split sp region \<longleftrightarrow> v1_size_bytes region \<ge> split_threshold_bytes sp"

definition split_region_v1 :: "Region_v1 \<Rightarrow> bytes \<Rightarrow> u64 \<Rightarrow> Region_v1 \<times> Region_v1" where
  "split_region_v1 region split_key new_region_id =
     (let half_size = v1_size_bytes region div 2 in
      (\<lparr>v1_id = v1_id region, v1_start_key = v1_start_key region, v1_end_key = split_key,
        v1_leader_addr = v1_leader_addr region, v1_size_bytes = half_size\<rparr>,
       \<lparr>v1_id = new_region_id, v1_start_key = split_key, v1_end_key = v1_end_key region,
        v1_leader_addr = v1_leader_addr region, v1_size_bytes = half_size\<rparr>))"

section \<open>Facts\<close>

text \<open>After both halves are inserted into a table that held the region, the right half takes the
  place of the region, since it has the same end key, and the left half is added.\<close>

definition apply_split_v1 :: "Region_v1 \<Rightarrow> bytes \<Rightarrow> u64 \<Rightarrow> RegionRouter_v1 \<Rightarrow> RegionRouter_v1" where
  "apply_split_v1 region k i rs =
     (case split_region_v1 region k i of (l, r) \<Rightarrow> insert_region_v1 r (insert_region_v1 l rs))"

lemma contains_split_v1:
  assumes "contains_key_v1 region k" "k \<noteq> []"
  shows "contains_key_v1 (fst (split_region_v1 region k i)) key \<longleftrightarrow> contains_key_v1 region key \<and> key < k"
    and "contains_key_v1 (snd (split_region_v1 region k i)) key \<longleftrightarrow> contains_key_v1 region key \<and> k \<le> key"
  using assms by (auto simp: contains_key_v1_def split_region_v1_def Let_def)

lemma route_v1_sound:
  "route_v1 rs key = Some r \<Longrightarrow> r \<in> snd ` set rs \<and> contains_key_v1 r key"
  unfolding route_v1_def using find_SomeD by fastforce

lemma route_v1_None: "route_v1 rs key = None \<longleftrightarrow> (\<forall>r \<in> snd ` set rs. \<not> contains_key_v1 r key)"
  by (simp add: route_v1_def find_None_iff)

lemma apply_split_v1_mem:
  assumes "bt_wf rs" "k \<noteq> v1_end_key region"
  shows "(e, r) \<in> set (apply_split_v1 region k i rs) \<longleftrightarrow>
    (if e = v1_end_key region then r = snd (split_region_v1 region k i)
     else if e = k then r = fst (split_region_v1 region k i)
     else (e, r) \<in> set rs)"
  using assms
  by (auto simp: apply_split_v1_def insert_region_v1_def split_region_v1_def Let_def bt.items_ins bt_wf_insert)

text \<open>A split keeps the covered keys: whatever was routed before is routed afterwards.\<close>

lemma apply_split_v1_covers:
  assumes wf: "bt_wf rs"
    and mem: "(v1_end_key region, region) \<in> set rs" and k: "contains_key_v1 region k" "k \<noteq> []"
    and fresh: "k \<notin> fst ` set rs" and routed: "route_v1 rs key \<noteq> None"
  shows "route_v1 (apply_split_v1 region k i rs) key \<noteq> None"
proof -
  obtain e r where r: "(e, r) \<in> set rs" "contains_key_v1 r key"
    using routed by (auto simp: route_v1_None)
  have ke: "k \<noteq> v1_end_key region" using mem fresh by force
  note m = apply_split_v1_mem [OF wf ke]
  have "\<exists>e r. (e, r) \<in> set (apply_split_v1 region k i rs) \<and> contains_key_v1 r key"
  proof (cases "e = v1_end_key region")
    case True
    then have "r = region" using r(1) mem wf by (simp add: bt_mem_map_of)
    note c = contains_split_v1 [OF k, of i key]
    show ?thesis
    proof (cases "key < k")
      case True
      have "(k, fst (split_region_v1 region k i)) \<in> set (apply_split_v1 region k i rs)"
        using ke by (simp add: m)
      moreover have "contains_key_v1 (fst (split_region_v1 region k i)) key"
        using True r(2) c(1) \<open>r = region\<close> by simp
      ultimately show ?thesis by blast
    next
      case False
      have "(v1_end_key region, snd (split_region_v1 region k i)) \<in> set (apply_split_v1 region k i rs)"
        by (simp add: m)
      moreover have "contains_key_v1 (snd (split_region_v1 region k i)) key"
        using False r(2) c(2) \<open>r = region\<close> by simp
      ultimately show ?thesis by blast
    qed
  next
    case False
    moreover have "e \<noteq> k" using r(1) fresh by force
    ultimately have "(e, r) \<in> set (apply_split_v1 region k i rs)" using r(1) by (simp add: m)
    with r(2) show ?thesis by blast
  qed
  then show ?thesis by (auto simp: route_v1_None intro: bexI [rotated])
qed

end
