(* ===== verification/Rely_Guarantee.thy ===== *)
theory Rely_Guarantee
  imports Engine_Program
begin

text \<open>
  Programs interleaved on one engine. \<open>interleave E is\<close> runs a list of programs call by call in the
  order a schedule says; every call may fail as far as the engine \<open>E\<close> does. \<open>rg p R G v Q\<close> says of a
  program that, started with contents \<open>v\<close> among others whose changes satisfy the rely \<open>R\<close>, it makes
  only changes that satisfy the guarantee \<open>G\<close> and ends with \<open>Q\<close>. When the guarantee of each program
  is covered by the rely of the others, these statements hold of the interleaved programs
  (locale \<open>compatible\<close>).
\<close>

section \<open>Answers of the engine\<close>

inductive answers :: "view \<Rightarrow> call \<Rightarrow> answer \<Rightarrow> view \<Rightarrow> bool" for v where
  answer_get: "answers v (Call_Get p k) (Got (Inr (v p k))) v"
| answer_get_io: "answers v (Call_Get p k) (Got (Inl e)) v"
| answer_range: "yields its kvs \<Longrightarrow> scan_of (v p) lo kvs \<Longrightarrow> answers v (Call_Range p lo) (Items its) v"
| answer_iter: "yields its kvs \<Longrightarrow> scan_of (v p) [] kvs \<Longrightarrow> answers v (Call_Iter p) (Items its) v"
| answer_commit: "answers v (Call_Commit b) (Written (Inr ())) (apply_batch b v)"
| answer_commit_io: "answers v (Call_Commit b) (Written (Inl e)) v"
| answer_now: "answers v Call_Now (Time n) v"

inductive_cases answers_getE [elim!]: "answers v (Call_Get p k) x v'"
inductive_cases answers_rangeE [elim!]: "answers v (Call_Range p lo) x v'"
inductive_cases answers_commitE [elim!]: "answers v (Call_Commit b) x v'"
inductive_cases answers_nowE [elim!]: "answers v Call_Now x v'"

context fjall
begin

lemma ask_answers:
  assumes "ask E q s = (x, s')"
  shows "answers (view s) q x (view s')"
proof (cases q)
  case (Call_Get p k)
  then obtain r where r: "fj_get E p k s = (r, s')" "x = Got r"
    using assms by (cases "fj_get E p k s") auto
  show ?thesis
  proof (cases r)
    case (Inr v)
    with r(1) get_value have "v = view s p k" by blast
    then show ?thesis
      using answer_get [of "view s" p k] by (simp add: Call_Get r(2) Inr get_keeps [OF r(1)])
  qed (simp add: Call_Get r(2) get_keeps [OF r(1)] answer_get_io)
next
  case (Call_Range p lo)
  then obtain its where r: "fj_range_from E p lo s = (its, s')" "x = Items its"
    using assms by (cases "fj_range_from E p lo s") auto
  from range_yields [OF r(1)] show ?thesis
    by (auto simp: Call_Range r(2) range_keeps [OF r(1)] intro: answer_range)
next
  case (Call_Iter p)
  then obtain its where r: "fj_iter E p s = (its, s')" "x = Items its"
    using assms by (cases "fj_iter E p s") auto
  from iter_yields [OF r(1)] show ?thesis
    by (auto simp: Call_Iter r(2) iter_keeps [OF r(1)] intro: answer_iter)
next
  case (Call_Commit b)
  then obtain r where r: "fj_commit E b s = (r, s')" "x = Written r"
    using assms by (cases "fj_commit E b s") auto
  show ?thesis
  proof (cases r)
    case (Inl e)
    with commit_err r show ?thesis by (simp add: Call_Commit answer_commit_io)
  next
    case (Inr u)
    with commit_ok r have "view s' = apply_batch b (view s)" by simp
    then show ?thesis by (simp add: Call_Commit r(2) Inr answer_commit)
  qed
next
  case Call_Now
  then obtain n where r: "sys_now E s = (n, s')" "x = Time n"
    using assms by (cases "sys_now E s") auto
  then show ?thesis by (simp add: Call_Now now_keeps [OF r(1)] answer_now)
qed

end

section \<open>Interleaving\<close>

text \<open>The next call of the program \<open>i\<close>; a program that has ended stays as it is.\<close>

definition step_prog :: "'s env \<Rightarrow> nat \<Rightarrow> 'a prog list \<times> 's \<Rightarrow> 'a prog list \<times> 's" where
  "step_prog E i st = (case st of (ps, s) \<Rightarrow>
     if i < length ps then
       (case ps ! i of
          Return a \<Rightarrow> (ps, s)
        | Ask q c \<Rightarrow> (case ask E q s of (x, s') \<Rightarrow> (ps[i := c x], s')))
     else (ps, s))"

definition interleave :: "'s env \<Rightarrow> nat list \<Rightarrow> 'a prog list \<times> 's \<Rightarrow> 'a prog list \<times> 's" where
  "interleave E is = fold (step_prog E) is"

section \<open>Rely and guarantee\<close>

primrec rg ::
  "'a prog \<Rightarrow> (view \<Rightarrow> view \<Rightarrow> bool) \<Rightarrow> (view \<Rightarrow> view \<Rightarrow> bool) \<Rightarrow> view \<Rightarrow> ('a \<Rightarrow> view \<Rightarrow> bool) \<Rightarrow> bool" where
  "rg (Return a) R G v Q \<longleftrightarrow> (\<forall>v'. R v v' \<longrightarrow> Q a v')"
| "rg (Ask q c) R G v Q \<longleftrightarrow>
     (\<forall>v' x v''. R v v' \<longrightarrow> answers v' q x v'' \<longrightarrow> G v' v'' \<and> rg (c x) R G v'' Q)"

lemma rg_conseq: "rg p R G v Q \<Longrightarrow> (\<And>a v'. Q a v' \<Longrightarrow> Q' a v') \<Longrightarrow> rg p R G v Q'"
  by (induction p arbitrary: v) auto

lemma rg_stable: "rg p R G v Q \<Longrightarrow> transp R \<Longrightarrow> R v v' \<Longrightarrow> rg p R G v' Q"
  by (cases p) (auto dest: transpD)

text \<open>A list of programs, each with its rely, guarantee and result.\<close>

locale compatible =
  fixes R G :: "nat \<Rightarrow> view \<Rightarrow> view \<Rightarrow> bool"
  assumes rely_refl: "reflp (R i)" and rely_trans: "transp (R i)"
    and guarantee_rely: "i \<noteq> j \<Longrightarrow> G i v v' \<Longrightarrow> R j v v'"
begin

lemma step_prog_rg:
  assumes "fjall E view" "step_prog E i (ps, s) = (ps', s')"
    and rg: "\<And>j. j < length ps \<Longrightarrow> rg (ps ! j) (R j) (G j) (view s) (Q j)"
  shows "length ps' = length ps" and "j < length ps \<Longrightarrow> rg (ps' ! j) (R j) (G j) (view s') (Q j)"
    and "s' = s \<or> (\<exists>j < length ps. G j (view s) (view s'))"
proof -
  have "length ps' = length ps \<and> (j < length ps \<longrightarrow> rg (ps' ! j) (R j) (G j) (view s') (Q j)) \<and>
      (s' = s \<or> (\<exists>j < length ps. G j (view s) (view s')))"
  proof (cases "\<exists>q c. i < length ps \<and> ps ! i = Ask q c")
    case True
    then obtain q c where i: "i < length ps" "ps ! i = Ask q c" by blast
    obtain x s1 where x: "ask E q s = (x, s1)" by force
    then have st: "ps' = ps[i := c x]" "s' = s1" using assms(2) i by (simp_all add: step_prog_def)
    have ans: "answers (view s) q x (view s')"
      using fjall.ask_answers [OF assms(1) x] st(2) by simp
    have "\<And>v' x v''. R i (view s) v' \<Longrightarrow> answers v' q x v'' \<Longrightarrow> G i v' v'' \<and> rg (c x) (R i) (G i) v'' (Q i)"
      using rg [OF i(1)] i(2) by simp
    from this [OF reflpD [OF rely_refl] ans]
    have g: "G i (view s) (view s')" "rg (c x) (R i) (G i) (view s') (Q i)" by blast+
    have "rg (ps' ! j) (R j) (G j) (view s') (Q j)" if "j < length ps"
    proof (cases "j = i")
      case False
      then have "i \<noteq> j" by simp
      from guarantee_rely [OF this g(1)] have "R j (view s) (view s')" .
      with rg_stable [OF rg [OF that] rely_trans] False st(1) show ?thesis by simp
    qed (use g(2) st(1) i(1) in simp)
    moreover have "\<exists>j < length ps. G j (view s) (view s')" by (rule exI [of _ i]) (simp add: i(1) g(1))
    ultimately show ?thesis using st(1) by simp
  next
    case False
    with assms(2) have "ps' = ps" "s' = s"
      by (auto simp: step_prog_def split: if_splits prog.splits)
    with rg show ?thesis by simp
  qed
  then show "length ps' = length ps" and "j < length ps \<Longrightarrow> rg (ps' ! j) (R j) (G j) (view s') (Q j)"
    and "s' = s \<or> (\<exists>j < length ps. G j (view s) (view s'))" by blast+
qed

text \<open>What every guarantee keeps, every interleaving keeps.\<close>

lemma interleave_rg:
  assumes "fjall E view" "interleave E is (ps, s) = (ps', s')"
    and "\<And>j. j < length ps \<Longrightarrow> rg (ps ! j) (R j) (G j) (view s) (Q j)"
    and "I (view s)" "\<And>j v v'. j < length ps \<Longrightarrow> G j v v' \<Longrightarrow> I v \<Longrightarrow> I v'"
  shows "length ps' = length ps \<and> I (view s') \<and> (\<forall>j < length ps. rg (ps' ! j) (R j) (G j) (view s') (Q j))"
  using assms(2-)
proof (induction "is" arbitrary: ps s)
  case (Cons i "is")
  obtain ps1 s1 where st: "step_prog E i (ps, s) = (ps1, s1)" by force
  note one = step_prog_rg [OF assms(1) st Cons.prems(2)]
  have "interleave E is (ps1, s1) = (ps', s')" using Cons.prems(1) st by (simp add: interleave_def)
  moreover have "I (view s1)" using one(3) Cons.prems(3,4) by blast
  ultimately have "length ps' = length ps1 \<and> I (view s') \<and> (\<forall>j < length ps1. rg (ps' ! j) (R j) (G j) (view s') (Q j))"
    using one(1,2) Cons.prems(4) by (intro Cons.IH) auto
  with one(1) show ?case by simp
qed (auto simp: interleave_def)

lemma interleave_result:
  assumes "rg (Return a) (R j) (G j) v (Q j)"
  shows "Q j a v"
  using assms reflpD [OF rely_refl] by auto

end

section \<open>Rules\<close>

lemma rg_bind:
  assumes "reflp R" "rg p R G v (\<lambda>a v'. rg (f a) R G v' Q)"
  shows "rg (bind_prog p f) R G v Q"
  using assms(2)
proof (induction p arbitrary: v)
  case (Return a)
  with reflpD [OF assms(1)] show ?case by auto
qed auto

lemma rg_and_then:
  assumes "reflp R" "transp R"
    and "rg p R G v (\<lambda>r v'. case r of Inl e \<Rightarrow> (\<forall>v''. R v' v'' \<longrightarrow> Q (Inl e) v'') | Inr x \<Rightarrow> rg (f x) R G v' Q)"
  shows "rg (and_then p f) R G v Q"
  unfolding and_then_def
  by (rule rg_bind [OF assms(1)], rule rg_conseq [OF assms(3)]) (auto split: sum.splits)

lemma rg_map_err:
  assumes "reflp R" "rg p R G v (\<lambda>r v'. \<forall>v''. R v' v'' \<longrightarrow> Q (map_sum h id r) v'')"
  shows "rg (map_err h p) R G v Q"
  unfolding map_err_def by (rule rg_bind [OF assms(1)], rule rg_conseq [OF assms(2)]) simp

end
