(* ===== verification/Engine_Calls.thy ===== *)
theory Engine_Calls
  imports Engine_Program
begin

text \<open>
  How many engine calls the operations make. \<open>within w p n\<close> bounds the calls of a program over all
  answers of the engine: \<open>n\<close> calls, and \<open>w\<close> more for every entry a scan returns. The loops of the
  coordinator end because each turn uses up a key, a mutation or an entry of a scan.
\<close>

section \<open>Counting calls\<close>

text \<open>The entries of an answer.\<close>

definition size_of :: "answer \<Rightarrow> nat" where
  "size_of x = length (items_of x)"

primrec calls :: "'s env \<Rightarrow> 'a prog \<Rightarrow> 's \<Rightarrow> nat" where
  "calls E (Return a) s = 0"
| "calls E (Ask q c) s = (case ask E q s of (x, s') \<Rightarrow> Suc (calls E (c x) s'))"

primrec scanned :: "'s env \<Rightarrow> 'a prog \<Rightarrow> 's \<Rightarrow> nat" where
  "scanned E (Return a) s = 0"
| "scanned E (Ask q c) s = (case ask E q s of (x, s') \<Rightarrow> size_of x + scanned E (c x) s')"

primrec within :: "nat \<Rightarrow> 'a prog \<Rightarrow> nat \<Rightarrow> bool" where
  "within w (Return a) n \<longleftrightarrow> True"
| "within w (Ask q c) n \<longleftrightarrow> (\<exists>m. n = Suc m \<and> (\<forall>x. within w (c x) (m + w * size_of x)))"

lemma within_mono: "within w p n \<Longrightarrow> n \<le> m \<Longrightarrow> within w p m"
proof (induction p arbitrary: n m)
  case (Ask q c)
  from Ask.prems obtain n' where n: "n = Suc n'" "\<And>x. within w (c x) (n' + w * size_of x)" by auto
  with Ask.prems(2) obtain m' where "m = Suc m'" "n' \<le> m'" by (cases m) auto
  with Ask.IH [OF rangeI n(2)] show ?case by simp
qed simp

lemma within_bind:
  "within w p n \<Longrightarrow> (\<And>a. within w (f a) m) \<Longrightarrow> within w (bind_prog p f) (n + m)"
proof (induction p arbitrary: n)
  case (Return a)
  from within_mono [OF Return.prems(2) le_add2] show ?case by simp
next
  case (Ask q c)
  from Ask.prems(1) obtain n' where n: "n = Suc n'" "\<And>x. within w (c x) (n' + w * size_of x)" by auto
  from Ask.IH [OF rangeI n(2) Ask.prems(2)] n(1) show ?case by (simp add: ac_simps)
qed

lemma within_and_then:
  "within w p n \<Longrightarrow> (\<And>a. within w (f a) m) \<Longrightarrow> within w (and_then p f) (n + m)"
  unfolding and_then_def by (rule within_bind) (auto split: sum.split)

lemma within_map_err: "within w p n \<Longrightarrow> within w (map_err h p) n"
  unfolding map_err_def by (rule within_bind [where m = 0, simplified]) simp_all

lemma calls_within: "within w p n \<Longrightarrow> calls E p s \<le> n + w * scanned E p s"
proof (induction p arbitrary: n s)
  case (Ask q c)
  from Ask.prems obtain n' where n: "n = Suc n'" "\<And>x. within w (c x) (n' + w * size_of x)" by auto
  obtain x s' where x: "ask E q s = (x, s')" by force
  from Ask.IH [OF rangeI n(2), of x s'] x n(1) show ?case by (simp add: distrib_left)
qed simp

section \<open>The bounds\<close>

lemma within_call [simp]:
  "within w (get_prog p k) n \<longleftrightarrow> 0 < n" "within w (write_prog b) n \<longleftrightarrow> 0 < n"
  "within w now_prog n \<longleftrightarrow> 0 < n" "within w (range_prog p lo) n \<longleftrightarrow> 0 < n" "within w (iter_prog p) n \<longleftrightarrow> 0 < n"
  by (auto simp: get_prog_def write_prog_def now_prog_def range_prog_def iter_prog_def gr0_conv_Suc)

text \<open>The rules with the number of calls as a difference, for going through a program from its end.\<close>

lemma within_bindI:
  "within w p n \<Longrightarrow> n \<le> m \<Longrightarrow> (\<And>a. within w (f a) (m - n)) \<Longrightarrow> within w (bind_prog p f) m"
  using within_bind [of w p n f "m - n"] by simp

lemma within_and_thenI:
  "within w p n \<Longrightarrow> n \<le> m \<Longrightarrow> (\<And>a. within w (f a) (m - n)) \<Longrightarrow> within w (and_then p f) m"
  using within_and_then [of w p n f "m - n"] by simp

lemma within_get: "within w (map_err h (get_prog p k)) (Suc 0)"
  by (rule within_map_err) simp

lemma within_commit_batch: "within w (commit_batch_prog b) (Suc 0)" "within w (map_err h (commit_batch_prog b)) (Suc 0)"
  unfolding commit_batch_prog_def by (intro within_map_err; simp)+

lemma within_reader_scan: "within w (reader_scan_prog k ts its) (Suc 0)"
  by (induction k ts its rule: reader_scan_prog.induct)
     (auto split: sum.split option.split OpType.split intro!: within_and_thenI [OF within_get])

lemma within_reader_get: "within w (reader_get_prog k ts) 3"
proof -
  have "within w (reader_find_prog k ts) 2"
    unfolding reader_find_prog_def by (rule within_bindI [of _ _ 1]) (simp_all add: within_reader_scan)
  then show ?thesis
    unfolding reader_get_prog_def
    by (intro within_and_thenI [OF within_get]) (auto split: option.split sum.split)
qed

lemma within_check_primary_lock: "within w (check_primary_lock_prog pk st) 3"
proof -
  have "within w (and_then (map_err LR_Storage (commit_batch_prog b)) (\<lambda>_. Return (Inr RolledBack))) 1" for b
    by (rule within_and_thenI [OF within_commit_batch(2)]) simp_all
  then have "within w (bind_prog now_prog (\<lambda>n. if P n then and_then (map_err LR_Storage (commit_batch_prog b))
      (\<lambda>_. Return (Inr RolledBack)) else Return (Inr q))) 2" for P b q
    by (intro within_bindI [of _ _ 1]) simp_all
  then show ?thesis
    unfolding check_primary_lock_prog_def
    by (intro within_and_thenI [OF within_get]) (auto split: option.split sum.split)
qed

lemma within_check_txn_status: "within w (check_txn_status_prog pk st) 4"
  unfolding check_txn_status_prog_def
  by (rule within_bindI [of _ _ 1]) (auto simp: within_check_primary_lock split: option.split sum.split)

lemma within_resolve_lock: "within w (resolve_lock_prog k l) 6"
proof -
  have one: "within w (map_err LR_Storage (commit_batch_prog b)) 2" for b
    by (rule within_mono [OF within_commit_batch(2)]) simp
  have "within w (bind_prog now_prog (\<lambda>n. if P n then map_err LR_Storage (commit_batch_prog b) else Return (Inl q))) 2" for P b q
    by (rule within_bindI [of _ _ 1]) (simp_all add: within_commit_batch)
  with one show ?thesis
    unfolding resolve_lock_prog_def
    by (intro within_and_thenI [OF within_check_txn_status]) (auto split: TxnStatus.split)
qed

lemma within_coord_get: "within w (coord_get_prog k ts) 12"
proof -
  have "within w (bind_prog (resolve_lock_prog k l) (\<lambda>c. case c of
      Inr _ \<Rightarrow> map_err Txn_Mvcc (reader_get_prog k ts) | Inl _ \<Rightarrow> Return (Inl (KeyLocked k)))) 9" for l
    by (intro within_bindI [OF within_resolve_lock])
       (auto split: sum.split intro: within_map_err within_reader_get)
  then show ?thesis
    unfolding coord_get_prog_def
    by (intro within_bindI [OF within_reader_get]) (auto split: sum.split MvccError.split)
qed

lemma within_heartbeat: "within w (heartbeat_prog pk st ttl) 2"
proof -
  have "within w (and_then (map_err Txn_Storage (commit_batch_prog b)) (\<lambda>_. Return (Inr ttl))) 1" for b
    by (rule within_and_thenI [OF within_commit_batch(2)]) simp_all
  then show ?thesis
    unfolding heartbeat_prog_def
    by (intro within_and_thenI [OF within_get]) (auto split: option.split sum.split)
qed

lemma within_scan_loop: "within 12 (scan_loop_prog a b lim ts its l rs) (12 * length its)"
proof (induction its arbitrary: a b l rs)
  case (Cons it its)
  show ?case
  proof (cases it)
    case (Inr kv)
    obtain ek x where kv: "kv = (ek, x)" by force
    have rest: "within 12 (scan_loop_prog a' b' lim ts its l' rs') (12 + 12 * length its)" for a' b' l' rs'
      by (rule within_mono [OF Cons.IH]) simp
    have go: "within 12 (and_then (coord_get_prog k ts) f) (12 + 12 * length its)"
      if "\<And>v. within 12 (f v) (12 * length its)" for k and f :: "bytes option \<Rightarrow> (TxnError + (bytes \<times> bytes) list) prog"
      by (rule within_and_then [OF within_coord_get that])
    show ?thesis
      by (simp add: Inr kv rest Let_def split: sum.split prod.split)
         (auto intro!: go simp: Cons.IH split: option.split)
  qed simp
qed simp

lemma within_coord_scan: "within 12 (coord_scan_prog a b lim ts) 1"
proof -
  have "within 12 (bind_prog (Return (items_of x)) (\<lambda>its. scan_loop_prog a b lim ts its None [])) (12 * size_of x)" for x
    using within_scan_loop [of a b lim ts "items_of x" None "[]"] by (simp add: size_of_def)
  then show ?thesis by (simp add: coord_scan_prog_def range_prog_def)
qed

lemma within_check_write_conflict: "within w (check_write_conflict_prog k st) (Suc 0)"
  unfolding check_write_conflict_prog_def by (rule within_bindI [of _ _ 1]) simp_all

lemma within_resolve_existing: "within w (resolve_existing_prog k st) 7"
proof -
  have "within w (and_then (map_err h (resolve_lock_prog k l)) (\<lambda>_. Return (Inr True))) 6" for h l
    by (rule within_and_thenI [OF within_map_err [OF within_resolve_lock]]) simp_all
  then show ?thesis
    unfolding resolve_existing_prog_def
    by (intro within_and_thenI [OF within_get]) (auto split: option.split sum.split)
qed

lemma within_check_lock: "within w (check_lock_prog k st) 8"
proof -
  have "within w (and_then (map_err Txn_Fjall (get_prog P_Lock k)) (\<lambda>v. case v of None \<Rightarrow> Return (Inr ())
      | Some b \<Rightarrow> (case lock_from_bytes b of Inl _ \<Rightarrow> Return (Inl (Txn_Mvcc CorruptedState))
          | Inr l \<Rightarrow> Return (if lock_start_ts l \<noteq> st then Inl (KeyLocked k) else Inr ())))) 1"
    by (rule within_and_thenI [OF within_get]) (auto split: option.split sum.split)
  then show ?thesis
    unfolding check_lock_prog_def by (intro within_and_thenI [OF within_resolve_existing]) simp_all
qed

lemma within_prewrite_one: "within w (prewrite_one_prog st pk ttl mutation) 10"
  unfolding prewrite_one_prog_def
  by (rule within_and_thenI [OF within_check_write_conflict], simp,
      rule within_and_thenI [OF within_check_lock], simp, simp add: within_commit_batch)

lemma within_prewrite: "within w (prewrite_prog st ms pk ttl) (10 * length ms)"
  by (induction ms) (auto intro!: within_and_thenI [OF within_prewrite_one])

lemma within_own_key:
  "within w p n \<Longrightarrow> within w (and_then (map_err Txn_Storage (commit_batch_prog b)) (\<lambda>_. p)) (Suc n)"
  using within_and_then [OF within_commit_batch(2), of w "\<lambda>_. p" n] by simp

lemma within_commit_secondaries: "within w (commit_secondaries_prog st ct ks) (2 * length ks)"
proof (induction ks)
  case (Cons k ks)
  have rest: "within w (commit_secondaries_prog st ct ks) (Suc (2 * length ks))"
    by (rule within_mono [OF Cons]) simp
  have own: "within w (and_then (map_err Txn_Storage (commit_batch_prog b)) (\<lambda>_. commit_secondaries_prog st ct ks))
      (Suc (2 * length ks))" for b
    by (rule within_own_key [OF Cons])
  show ?case
    using rest own by (auto split: option.split sum.split intro!: within_and_thenI [OF within_get])
qed simp

lemma within_commit: "within w (commit_prog st ct ks) (2 * length ks)"
  by (cases ks)
     (auto split: option.split sum.split intro!: within_and_thenI [OF within_get] within_own_key within_commit_secondaries)

lemma within_rollback: "within w (rollback_prog st ks) (2 * length ks)"
  by (induction ks) (auto intro!: within_and_thenI [OF within_get] within_own_key)

lemma within_batch_prewrite_loop: "within w (batch_prewrite_loop_prog st ms pk ttl b) (8 * length ms)"
  by (induction ms arbitrary: b)
     (auto intro!: within_and_thenI [OF within_check_write_conflict] within_and_thenI [OF within_resolve_existing])

lemma within_batch_prewrite: "within w (batch_prewrite_prog st ms pk ttl) (8 * length ms + 1)"
  unfolding batch_prewrite_prog_def
  by (auto intro!: within_and_thenI [OF within_batch_prewrite_loop] simp: within_commit_batch)

lemma within_batch_commit_loop: "within w (batch_commit_loop_prog st ct ks b) (length ks)"
  by (induction ks arbitrary: b)
     (auto split: option.split sum.split intro!: within_and_thenI [OF within_get])

lemma within_batch_commit: "within w (batch_commit_prog st ct ks) (length ks + 1)"
  unfolding batch_commit_prog_def
  by (auto intro!: within_and_thenI [OF within_batch_commit_loop] simp: within_commit_batch)

lemma within_gc: "within w (gc_prog sp) 2"
proof -
  have "within w (and_then (commit_batch_prog b) (\<lambda>_. Return (Inr n))) 1" for b n
    by (rule within_and_thenI [OF within_commit_batch(1)]) simp_all
  then show ?thesis
    unfolding gc_prog_def by (intro within_bindI [of _ _ 1]) (auto split: sum.split prod.split)
qed

section \<open>An engine that counts\<close>

text \<open>Any engine, with the number of calls made and of entries scanned next to its state.\<close>

definition counted :: "('a \<Rightarrow> nat) \<Rightarrow> ('s \<Rightarrow> 'a \<times> 's) \<Rightarrow> 's \<times> nat \<times> nat \<Rightarrow> 'a \<times> 's \<times> nat \<times> nat" where
  "counted weight f x = (case x of (s, n, m) \<Rightarrow> (case f s of (a, s') \<Rightarrow> (a, s', Suc n, m + weight a)))"

definition count_env :: "'s env \<Rightarrow> ('s \<times> nat \<times> nat) env" where
  "count_env E =
     \<lparr>fj_get = (\<lambda>p k. counted (\<lambda>_. 0) (fj_get E p k)),
      fj_range_from = (\<lambda>p lo. counted length (fj_range_from E p lo)),
      fj_iter = (\<lambda>p. counted length (fj_iter E p)),
      fj_commit = (\<lambda>b. counted (\<lambda>_. 0) (fj_commit E b)),
      sys_now = counted (\<lambda>_. 0) (sys_now E)\<rparr>"

lemma ask_count: "ask (count_env E) q (s, n, m) = (case ask E q s of (x, s') \<Rightarrow> (x, s', Suc n, m + size_of x))"
  by (cases q) (simp_all add: count_env_def counted_def map_prod_def size_of_def split: prod.split)

lemma run_count:
  "run (count_env E) p (s, n, m) = (case run E p s of (a, s') \<Rightarrow> (a, s', n + calls E p s, m + scanned E p s))"
proof (induction p arbitrary: s n m)
  case (Ask q c)
  obtain x s' where "ask E q s = (x, s')" by force
  with Ask.IH [OF rangeI, of x] show ?case by (simp add: ask_count split: prod.split)
qed simp

fun op_calls :: "coord_op \<Rightarrow> nat" where
  "op_calls (Op_Prewrite st ms pk ttl) = 10 * length ms"
| "op_calls (Op_Batch_Prewrite st ms pk ttl) = 8 * length ms + 1"
| "op_calls (Op_Commit st ct ks) = 2 * length ks"
| "op_calls (Op_Batch_Commit st ct ks) = length ks + 1"
| "op_calls (Op_Rollback st ks) = 2 * length ks"
| "op_calls (Op_Heartbeat pk st ttl) = 2"
| "op_calls (Op_Status pk st) = 4"
| "op_calls (Op_Get k ts) = 12"
| "op_calls (Op_Scan a b lim ts) = 1"
| "op_calls (Op_Gc sp) = 2"

fun entry_calls :: "coord_op \<Rightarrow> nat" where
  "entry_calls (Op_Scan a b lim ts) = 12"
| "entry_calls _ = 0"

lemma within_discard: "within w p n \<Longrightarrow> within w (discard p) n"
  by (rule within_bind [where m = 0, simplified]) simp_all

lemma within_coord_prog: "within (entry_calls op) (coord_prog op) (op_calls op)"
  by (cases op)
     (auto simp del: One_nat_def Suc_eq_plus1 add_Suc_right intro!: within_discard
       intro: within_prewrite within_batch_prewrite within_commit within_batch_commit within_rollback
         within_heartbeat within_check_txn_status within_coord_get within_coord_scan within_gc)

text \<open>C9. The operations of the coordinator end after a bounded number of engine calls, whatever the
  engine answers: a number that depends on the keys or mutations given, and for a scan on the
  entries the engine returns.\<close>

theorem engine_calls_bounded:
  "case coord_exec (count_env E) op (s, 0, 0) of (s', n, m) \<Rightarrow>
     s' = coord_exec E op s \<and> n \<le> op_calls op + entry_calls op * m"
proof -
  have "coord_exec (count_env E) op (s, 0, 0) =
      (coord_exec E op s, calls E (coord_prog op) s, scanned E (coord_prog op) s)"
    using coord_prog_exec [of "count_env E" op "(s, 0, 0)"] run_count [of E "coord_prog op" s 0 0]
      coord_prog_exec [of E op s] by simp
  with calls_within [OF within_coord_prog] show ?thesis by simp
qed

end
