(* ===== verification/Concurrent_Txns.thy ===== *)
theory Concurrent_Txns
  imports Rely_Guarantee Engine_Calls Interleaving
begin

text \<open>
  Whole transactions running at the same time. Each prewrites its mutations and commits them;
  their engine calls are interleaved in any order. Transactions on disjoint sets of keys do not
  disturb each other: each relies on the others not touching its keys, and guarantees not to
  touch theirs. A ghost state \<open>m\<close> follows what a transaction knows of its own keys (\<open>mine\<close>).
\<close>

section \<open>Own keys\<close>

definition same_key :: "bytes \<Rightarrow> mvcc \<Rightarrow> mvcc \<Rightarrow> bool" where
  "same_key k m m' \<longleftrightarrow> m_locks m' k = m_locks m k \<and> (\<forall>t. m_writes m' (k, t) = m_writes m (k, t)) \<and>
     (\<forall>t. m_vals m' (k, t) = m_vals m (k, t))"

definition sound_store :: "bytes set \<Rightarrow> view \<Rightarrow> bool" where
  "sound_store K v \<longleftrightarrow> wf_store K v \<and> si_inv (abs_mvcc v)"

definition undisturbed :: "bytes set \<Rightarrow> bytes set \<Rightarrow> view \<Rightarrow> view \<Rightarrow> bool" where
  "undisturbed K ks v v' \<longleftrightarrow> (sound_store K v \<longrightarrow> sound_store K v') \<and>
     (\<forall>k \<in> ks. same_key k (abs_mvcc v) (abs_mvcc v'))"

definition confined :: "bytes set \<Rightarrow> bytes set \<Rightarrow> view \<Rightarrow> view \<Rightarrow> bool" where
  "confined K ks v v' \<longleftrightarrow> undisturbed K (- ks) v v'"

definition mine :: "bytes set \<Rightarrow> bytes set \<Rightarrow> mvcc \<Rightarrow> view \<Rightarrow> bool" where
  "mine K ks m v \<longleftrightarrow> sound_store K v \<and> (\<forall>k \<in> ks. same_key k m (abs_mvcc v))"

lemma same_key_refl [simp]: "same_key k m m"
  by (simp add: same_key_def)

lemma same_key_trans: "same_key k m1 m2 \<Longrightarrow> same_key k m2 m3 \<Longrightarrow> same_key k m1 m3"
  by (simp add: same_key_def)

lemma same_key_free_for: "same_key k m m' \<Longrightarrow> free_for st k m' \<longleftrightarrow> free_for st k m"
  by (simp add: same_key_def free_for_def committed_def rolled_back_def)

lemma undisturbed_order: "reflp (undisturbed K ks)" "transp (undisturbed K ks)"
  unfolding undisturbed_def by (auto intro!: reflpI transpI dest: same_key_trans)

lemma confined_undisturbed: "confined K ks v v' \<Longrightarrow> ks \<inter> ks' = {} \<Longrightarrow> undisturbed K ks' v v'"
  unfolding confined_def undisturbed_def by blast

lemma confined_refl [simp]: "confined K ks v v"
  by (simp add: confined_def undisturbed_def)

lemma mine_undisturbed: "mine K ks m v \<Longrightarrow> undisturbed K ks v v' \<Longrightarrow> mine K ks m v'"
  unfolding mine_def undisturbed_def by (blast intro: same_key_trans)

lemma mine_wf: "mine K ks m v \<Longrightarrow> wf_store K v"
  by (simp add: mine_def sound_store_def)

lemma mine_key: "mine K ks m v \<Longrightarrow> k \<in> ks \<Longrightarrow> same_key k m (abs_mvcc v)"
  by (simp add: mine_def)

text \<open>A batch that is a run of the state machine and changes one of the own keys.\<close>

lemma own_batch:
  assumes "mine K ks m v" "k \<in> ks"
    and "wf_store K (apply_batch b v)" "mvcc_steps (abs_mvcc v) (abs_mvcc (apply_batch b v))"
    and "abs_mvcc (apply_batch b v) = f (abs_mvcc v)"
    and "\<And>k' m. k' \<noteq> k \<Longrightarrow> same_key k' m (f m)" "same_key k m (abs_mvcc v) \<Longrightarrow> same_key k (f m) (f (abs_mvcc v))"
  shows "mine K ks (f m) (apply_batch b v)" "confined K ks v (apply_batch b v)"
proof -
  have sound: "sound_store K (apply_batch b v)"
    using assms(1,3,4) mvcc_steps_si by (auto simp: mine_def sound_store_def)
  have "same_key k' (f m) (abs_mvcc (apply_batch b v))" if "k' \<in> ks" for k'
  proof (cases "k' = k")
    case True
    with assms(7) mine_key [OF assms(1,2)] show ?thesis by (simp add: assms(5))
  next
    case False
    from assms(6) [OF False] mine_key [OF assms(1) that] assms(6) [OF False, of "abs_mvcc v"]
    show ?thesis unfolding assms(5) same_key_def by metis
  qed
  with sound show "mine K ks (f m) (apply_batch b v)" by (simp add: mine_def)
  show "confined K ks v (apply_batch b v)"
    unfolding confined_def undisturbed_def
  proof (intro conjI impI ballI)
    fix k' assume "k' \<in> - ks"
    with assms(2) have "k' \<noteq> k" by blast
    then show "same_key k' (abs_mvcc v) (abs_mvcc (apply_batch b v))" unfolding assms(5) by (rule assms(6))
  qed (rule sound)
qed

section \<open>Rules for the calls\<close>

lemmas rg_seq = rg_and_then [OF undisturbed_order]

lemma rg_get_lock:
  assumes m: "mine K ks m v" and k: "k \<in> ks"
    and io: "\<And>e v'. mine K ks m v' \<Longrightarrow> Q (Inl (h e)) v'"
    and none: "\<And>v'. m_locks m k = None \<Longrightarrow> mine K ks m v' \<Longrightarrow> rg (f None) (undisturbed K ks) (confined K ks) v' Q"
    and some: "\<And>b l v'. lock_from_bytes b = Inr l \<Longrightarrow> m_locks m k = Some l \<Longrightarrow> mine K ks m v' \<Longrightarrow>
      rg (f (Some b)) (undisturbed K ks) (confined K ks) v' Q"
  shows "rg (and_then (map_err h (get_prog P_Lock k)) f) (undisturbed K ks) (confined K ks) v Q"
proof (rule rg_seq, rule rg_map_err [OF undisturbed_order(1)])
  let ?Q = "\<lambda>r v'. case r of Inl e \<Rightarrow> \<forall>v''. undisturbed K ks v' v'' \<longrightarrow> Q (Inl e) v''
    | Inr x \<Rightarrow> rg (f x) (undisturbed K ks) (confined K ks) v' Q"
  have io': "?Q (Inl (h e)) v'" if "mine K ks m v'" for e v'
    using that io mine_undisturbed by auto
  have ok: "rg (f (u P_Lock k)) (undisturbed K ks) (confined K ks) v' Q" if u: "mine K ks m u" and v': "mine K ks m v'" for u v'
  proof (cases "u P_Lock k")
    case None
    with mine_key [OF u k] have "m_locks m k = None" by (simp add: same_key_def wf_lock_None)
    with none v' None show ?thesis by simp
  next
    case (Some b)
    obtain l where "lock_from_bytes b = Inr l" "m_locks (abs_mvcc u) k = Some l"
      using mine_wf [OF u] Some by (rule wf_lock)
    with some mine_key [OF u k] v' Some show ?thesis by (simp add: same_key_def)
  qed
  show "rg (get_prog P_Lock k) (undisturbed K ks) (confined K ks) v
      (\<lambda>r v'. \<forall>v''. undisturbed K ks v' v'' \<longrightarrow> ?Q (map_sum h id r) v'')"
    unfolding get_prog_def
    using ok [OF mine_undisturbed [OF m]] io' mine_undisturbed [OF m]
    by (auto simp del: sum.case) (meson mine_undisturbed | simp)+
qed

lemma rg_mine_seq:
  assumes "rg p (undisturbed K ks) (confined K ks) v
      (\<lambda>r v'. mine K ks m v' \<and> (case r of Inl e \<Rightarrow> bad e | Inr x \<Rightarrow> good x))"
    and "\<And>e v'. mine K ks m v' \<Longrightarrow> bad e \<Longrightarrow> Q (Inl e) v'"
    and "\<And>x v'. mine K ks m v' \<Longrightarrow> good x \<Longrightarrow> rg (f x) (undisturbed K ks) (confined K ks) v' Q"
  shows "rg (and_then p f) (undisturbed K ks) (confined K ks) v Q"
proof (rule rg_seq, rule rg_conseq [OF assms(1)])
  fix r v'
  assume "mine K ks m v' \<and> (case r of Inl e \<Rightarrow> bad e | Inr x \<Rightarrow> good x)"
  then show "case r of Inl e \<Rightarrow> \<forall>v''. undisturbed K ks v' v'' \<longrightarrow> Q (Inl e) v''
      | Inr x \<Rightarrow> rg (f x) (undisturbed K ks) (confined K ks) v' Q"
    using assms(2) [OF mine_undisturbed] assms(3) by (cases r) auto
qed

lemma rg_own_write:
  assumes m: "mine K ks m v"
    and own: "\<And>v'. mine K ks m v' \<Longrightarrow> mine K ks m' (apply_batch b v') \<and> confined K ks v' (apply_batch b v')"
    and ok: "\<And>v'. mine K ks m' v' \<Longrightarrow> Q (Inr ()) v'"
    and io: "\<And>e v'. mine K ks m v' \<Longrightarrow> Q (Inl (h (Storage_Fjall e))) v'"
  shows "rg (map_err h (commit_batch_prog b)) (undisturbed K ks) (confined K ks) v Q"
proof (rule rg_map_err [OF undisturbed_order(1)], unfold commit_batch_prog_def, rule rg_map_err [OF undisturbed_order(1)])
  show "rg (write_prog b) (undisturbed K ks) (confined K ks) v (\<lambda>r v'. \<forall>v''. undisturbed K ks v' v'' \<longrightarrow>
      (\<forall>v'. undisturbed K ks v'' v' \<longrightarrow> Q (map_sum h id (map_sum Storage_Fjall id r)) v'))"
    unfolding write_prog_def using own [OF mine_undisturbed [OF m]]
    by (auto intro!: ok io) (meson mine_undisturbed m)+
qed

section \<open>Prewrite\<close>

lemma rg_check_write_conflict:
  assumes m: "mine K ks m v" and k: "k \<in> ks" "k \<in> K" and K: "good_keys K"
  shows "rg (check_write_conflict_prog k st) (undisturbed K ks) (confined K ks) v
    (\<lambda>r v'. mine K ks m v' \<and> (case r of Inl e \<Rightarrow> txn_io e \<or> stops m st k e | Inr _ \<Rightarrow> passes m k st))"
proof -
  let ?post = "\<lambda>r. case r of Inl e \<Rightarrow> txn_io e \<or> stops m st k e | Inr _ \<Rightarrow> passes m k st"
  have verdict: "?post (conflict_scan k st its)"
    if u: "mine K ks m u" and "yields its kvs" and sc: "scan_of (u P_Write) (key_encode k (-1)) kvs" for u its kvs
  proof -
    have rs: "set (records k kvs) = {(t, r). m_writes m (k, t) = Some r}"
      using records_scan_all [OF K k(2) mine_wf [OF u] sc] mine_key [OF u k(1)] by (simp add: same_key_def)
    from conflict_scan_of [OF that(2) scan_of_decodes [OF mine_wf [OF u] sc], of k st]
    consider (io) e where "conflict_scan k st its = Inl (Txn_Fjall e)"
      | (scan) "conflict_scan k st its = conflict_of k st (records k kvs)" by blast
    then show ?thesis
    proof cases
      case scan
      show ?thesis
      proof (cases "conflict_of k st (records k kvs)")
        case (Inl e)
        with conflict_of_Inl [OF Inl] scan rs show ?thesis by (auto simp: stops_def rolled_back_def)
      next
        case (Inr u)
        then have "passes m k st"
          using rs conflict_of_Inr [of k st "records k kvs"]
          by (auto simp: passes_def committed_def rolled_back_def)
        with Inr scan show ?thesis by simp
      qed
    qed simp
  qed
  show ?thesis
    unfolding check_write_conflict_prog_def range_prog_def
    using verdict [OF mine_undisturbed [OF m]]
    by auto (meson m mine_undisturbed)+
qed

lemma rg_check_lock:
  assumes m: "mine K ks m v" and k: "k \<in> ks"
    and own: "\<And>l. m_locks m k = Some l \<Longrightarrow> lock_start_ts l = st"
  shows "rg (check_lock_prog k st) (undisturbed K ks) (confined K ks) v
    (\<lambda>r v'. mine K ks m v' \<and> (case r of Inl e \<Rightarrow> txn_io e | Inr _ \<Rightarrow> True))"
  unfolding check_lock_prog_def
proof (rule rg_seq, unfold resolve_existing_prog_def, rule rg_get_lock [OF m k])
  fix b l v'
  assume "lock_from_bytes b = Inr l" "m_locks m k = Some l" and m': "mine K ks m v'"
  with own show "rg (case Some b of None \<Rightarrow> Return (Inr False)
      | Some existing_lock_bytes \<Rightarrow> (case lock_from_bytes existing_lock_bytes of
          Inl _ \<Rightarrow> Return (Inl (Txn_Mvcc CorruptedState))
        | Inr lock \<Rightarrow> if lock_start_ts lock \<noteq> st
            then and_then (map_err (\<lambda>_. KeyLocked k) (resolve_lock_prog k lock)) (\<lambda>_. Return (Inr True))
            else Return (Inr False)))
    (undisturbed K ks) (confined K ks) v'
    (\<lambda>r v'. case r of Inl e \<Rightarrow> \<forall>v''. undisturbed K ks v' v'' \<longrightarrow> mine K ks m v'' \<and> (case Inl e of Inl e \<Rightarrow> txn_io e | Inr _ \<Rightarrow> True)
      | Inr resolved \<Rightarrow> rg (if resolved
          then and_then (map_err Txn_Fjall (get_prog P_Lock k)) (\<lambda>v. case v of None \<Rightarrow> Return (Inr ())
            | Some still_locked \<Rightarrow> (case lock_from_bytes still_locked of
                Inl _ \<Rightarrow> Return (Inl (Txn_Mvcc CorruptedState))
              | Inr l \<Rightarrow> Return (if lock_start_ts l \<noteq> st then Inl (KeyLocked k) else Inr ())))
          else Return (Inr ())) (undisturbed K ks) (confined K ks) v'
          (\<lambda>r v'. mine K ks m v' \<and> (case r of Inl e \<Rightarrow> txn_io e | Inr _ \<Rightarrow> True)))"
    by (auto intro: mine_undisturbed)
qed (auto intro: mine_undisturbed)

lemma stage_own:
  assumes "mine K ks m v" "good_keys K" "pk \<in> K"
    and k: "mutation_key mutation \<in> ks" "mutation_key mutation \<in> K"
    and free: "free_for st (mutation_key mutation) m"
  shows "mine K ks (lay st pk ttl mutation m) (apply_batch (stage_mutation st pk ttl mutation) v)"
    and "confined K ks v (apply_batch (stage_mutation st pk ttl mutation) v)"
proof -
  let ?v = "apply_batch (stage_mutation st pk ttl mutation) v"
  note staged = abs_stage_mutation [OF assms(2,3), of st ttl mutation v]
  have "free_for st (mutation_key mutation) (abs_mvcc v)"
    using free same_key_free_for [OF mine_key [OF assms(1) k(1)]] by simp
  from lay_steps [OF this] have steps: "mvcc_steps (abs_mvcc v) (abs_mvcc ?v)" by (simp add: staged)
  have other: "same_key k' m (lay st pk ttl mutation m)" if "k' \<noteq> mutation_key mutation" for k' m
    using that by (cases mutation) (auto simp: same_key_def m_vals_lay)
  have own: "same_key (mutation_key mutation) (lay st pk ttl mutation m) (lay st pk ttl mutation m')"
    if "same_key (mutation_key mutation) m m'" for m'
    using that by (cases mutation) (auto simp: same_key_def m_vals_lay)
  note batch = own_batch [OF assms(1) k(1) wf_stage_mutation [OF assms(2,3) k(2) mine_wf [OF assms(1)]] steps staged other own]
  from batch show "mine K ks (lay st pk ttl mutation m) ?v" and "confined K ks v ?v" by blast+
qed

lemma rg_prewrite_one:
  assumes m: "mine K ks m v" and K: "good_keys K" "pk \<in> K"
    and k: "mutation_key mutation \<in> ks" "mutation_key mutation \<in> K" and own: "no_other st {mutation_key mutation} m"
  shows "rg (prewrite_one_prog st pk ttl mutation) (undisturbed K ks) (confined K ks) v
    (\<lambda>r v'. case r of Inl e \<Rightarrow> mine K ks m v' \<and> (txn_io e \<or> stops m st (mutation_key mutation) e)
       | Inr _ \<Rightarrow> mine K ks (lay st pk ttl mutation m) v' \<and> passes m (mutation_key mutation) st)"
  (is "rg _ _ _ _ ?Q")
proof -
  have own': "\<And>l. m_locks m (mutation_key mutation) = Some l \<Longrightarrow> lock_start_ts l = st"
    using own by (simp add: no_other_def)
  have staged: "rg (map_err Txn_Storage (commit_batch_prog (stage_mutation st pk ttl mutation)))
      (undisturbed K ks) (confined K ks) v' ?Q"
    if "mine K ks m v'" and p: "passes m (mutation_key mutation) st" for v'
  proof (rule rg_own_write [OF that(1), where m' = "lay st pk ttl mutation m"])
    have "free_for st (mutation_key mutation) m" using p own' by (simp add: free_for_passes)
    then show "mine K ks (lay st pk ttl mutation m) (apply_batch (stage_mutation st pk ttl mutation) u) \<and>
        confined K ks u (apply_batch (stage_mutation st pk ttl mutation) u)" if "mine K ks m u" for u
      using stage_own [OF that K k] by blast
  qed (simp_all add: p)
  show ?thesis
    unfolding prewrite_one_prog_def
  proof (rule rg_mine_seq [OF rg_check_write_conflict [OF m k K(1)]])
    fix v' assume m': "mine K ks m v'" and p: "passes m (mutation_key mutation) st"
    show "rg (and_then (check_lock_prog (mutation_key mutation) st)
        (\<lambda>_. map_err Txn_Storage (commit_batch_prog (stage_mutation st pk ttl mutation))))
        (undisturbed K ks) (confined K ks) v' ?Q"
      by (rule rg_mine_seq [OF rg_check_lock [OF m' k(1) own']]) (auto intro: staged p)
  qed simp
qed

text \<open>What a prewrite leaves of its mutations: all of them laid, or the first ones up to the
  mutation it stopped at.\<close>

definition laid_upto :: "u64 \<Rightarrow> bytes \<Rightarrow> u64 \<Rightarrow> Mutation list \<Rightarrow> mvcc \<Rightarrow> TxnError + unit \<Rightarrow> mvcc \<Rightarrow> bool" where
  "laid_upto st pk ttl ms m r m' \<longleftrightarrow> (\<exists>n. m' = fold (lay st pk ttl) (take n ms) m \<and>
     (case r of Inr _ \<Rightarrow> n = length ms \<and> (\<forall>x \<in> set ms. passes m (mutation_key x) st)
      | Inl e \<Rightarrow> txn_io e \<or> (\<exists>x \<in> set ms. stops m st (mutation_key x) e)))"

lemma laid_upto_Nil: "laid_upto st pk ttl [] m (Inr ()) m"
  by (simp add: laid_upto_def)

lemma laid_upto_stop: "txn_io e \<or> stops m st (mutation_key x) e \<Longrightarrow> laid_upto st pk ttl (x # ms) m (Inl e) m"
  unfolding laid_upto_def by (rule exI [of _ 0]) auto

lemma lay_checks [simp]:
  "passes (lay st pk ttl x m) k st' = passes m k st'" "stops (lay st pk ttl x m) st' k e = stops m st' k e"
  by (simp_all add: passes_def stops_def committed_def rolled_back_def)

lemma laid_upto_Cons:
  assumes "laid_upto st pk ttl ms (lay st pk ttl x m) r m'" "passes m (mutation_key x) st"
  shows "laid_upto st pk ttl (x # ms) m r m'"
proof -
  obtain n where n: "m' = fold (lay st pk ttl) (take n ms) (lay st pk ttl x m)"
    "case r of Inr _ \<Rightarrow> n = length ms \<and> (\<forall>y \<in> set ms. passes m (mutation_key y) st)
     | Inl e \<Rightarrow> txn_io e \<or> (\<exists>y \<in> set ms. stops m st (mutation_key y) e)"
    using assms(1) unfolding laid_upto_def lay_checks by blast
  with assms(2) show ?thesis
    unfolding laid_upto_def by (intro exI [of _ "Suc n"]) (auto split: sum.splits)
qed

lemma no_other_lay: "no_other st ks m \<Longrightarrow> no_other st ks (lay st pk ttl x m)"
  by (simp add: no_other_def)

lemma rg_prewrite:
  assumes "good_keys K" "pk \<in> K"
  shows "mine K ks m v \<Longrightarrow> mutation_key ` set ms \<subseteq> ks \<Longrightarrow> ks \<subseteq> K \<Longrightarrow> no_other st ks m \<Longrightarrow>
    rg (prewrite_prog st ms pk ttl) (undisturbed K ks) (confined K ks) v
      (\<lambda>r v'. \<exists>m'. laid_upto st pk ttl ms m r m' \<and> mine K ks m' v')"
proof (induction ms arbitrary: m v)
  case Nil
  then show ?case by (auto intro: laid_upto_Nil mine_undisturbed)
next
  case (Cons x ms)
  from Cons.prems have x: "mutation_key x \<in> ks" "mutation_key x \<in> K" "no_other st {mutation_key x} m"
    by (auto simp: no_other_def)
  note one = rg_prewrite_one [OF Cons.prems(1) assms x]
  show ?case
    unfolding prewrite_prog.simps
  proof (rule rg_seq, rule rg_conseq [OF one], goal_cases)
    case (1 r v')
    show ?case
    proof (cases r)
      case (Inl e)
      with 1 show ?thesis by (auto intro: laid_upto_stop mine_undisturbed)
    next
      case (Inr u)
      with 1 have "mine K ks (lay st pk ttl x m) v'" "passes m (mutation_key x) st" by simp_all
      from Cons.IH [OF this(1) _ Cons.prems(3) no_other_lay [OF Cons.prems(4)]] Cons.prems(2) Inr this(2)
      show ?thesis by (auto elim!: rg_conseq intro: laid_upto_Cons)
    qed
  qed
qed

section \<open>Commit\<close>

definition held :: "u64 \<Rightarrow> bytes set \<Rightarrow> mvcc \<Rightarrow> bool" where
  "held st ks m \<longleftrightarrow> (\<forall>k \<in> ks. \<exists>l. m_locks m k = Some l \<and> lock_start_ts l = st \<and> lock_op l \<noteq> Rollback)"

lemma held_commit_key: "held st (insert k ks) m \<Longrightarrow> k \<notin> ks \<Longrightarrow> held st ks (commit_key st ct k m)"
  by (auto simp: held_def commit_key_def split: option.splits)

lemma commit_own:
  assumes "mine K ks m v" "k \<in> ks" "k \<in> K" "st \<le> ct"
    and l: "m_locks m k = Some l" "lock_start_ts l = st" "lock_op l \<noteq> Rollback"
  shows "mine K ks (commit_key st ct k m) (apply_batch (commit_key_batch st ct k l) v)"
    and "confined K ks v (apply_batch (commit_key_batch st ct k l) v)"
proof -
  let ?v = "apply_batch (commit_key_batch st ct k l) v"
  let ?f = "roll_forward k st ct (lock_op l)"
  have v: "abs_mvcc ?v = ?f (abs_mvcc v)"
    unfolding commit_key_batch_def by (simp only: abs_roll_forward_batch)
  have "m_locks (abs_mvcc v) k = Some l" using mine_key [OF assms(1,2)] l(1) by (simp add: same_key_def)
  with l assms(4) have steps: "mvcc_steps (abs_mvcc v) (abs_mvcc ?v)"
    by (auto simp: v intro: mvcc_steps_one step_commit)
  have other: "same_key k' m (?f m)" if "k' \<noteq> k" for k' m
    using that by (simp add: same_key_def)
  have own: "same_key k (?f m) (?f m')" if "same_key k m m'" for m'
    using that by (simp add: same_key_def)
  note batch = own_batch [OF assms(1,2) wf_commit_key_batch [OF mine_wf [OF assms(1)] assms(3)] steps v other own]
  from batch show "mine K ks (commit_key st ct k m) ?v" "confined K ks v ?v"
    unfolding commit_key_owned [OF l(1,2)] by blast+
qed

lemma rg_commit_own:
  assumes "mine K ks m v" and k: "k \<in> ks" "k \<in> K" and ct: "st \<le> ct" and held: "held st {k} m"
    and l: "m_locks m k = Some l"
    and io: "\<And>e v'. mine K ks m v' \<Longrightarrow> txn_io e \<Longrightarrow> Q (Inl e) v'"
    and ok: "\<And>v'. mine K ks (commit_key st ct k m) v' \<Longrightarrow> rg p (undisturbed K ks) (confined K ks) v' Q"
  shows "lock_start_ts l = st"
    and "rg (and_then (map_err Txn_Storage (commit_batch_prog (commit_key_batch st ct k l))) (\<lambda>_. p))
      (undisturbed K ks) (confined K ks) v Q"
proof -
  from held l have own: "lock_start_ts l = st" "lock_op l \<noteq> Rollback" by (simp_all add: held_def)
  from own(1) show "lock_start_ts l = st" .
  show "rg (and_then (map_err Txn_Storage (commit_batch_prog (commit_key_batch st ct k l))) (\<lambda>_. p))
      (undisturbed K ks) (confined K ks) v Q"
  proof (rule rg_seq, rule rg_own_write [OF assms(1), where m' = "commit_key st ct k m"], goal_cases)
    case (1 v')
    with commit_own [OF _ k ct l own] show ?case by blast
  qed (auto intro: io ok mine_undisturbed)
qed

definition commit_left :: "bytes set \<Rightarrow> bytes set \<Rightarrow> u64 \<Rightarrow> u64 \<Rightarrow> bytes list \<Rightarrow> mvcc \<Rightarrow> TxnError + unit \<Rightarrow> view \<Rightarrow> bool" where
  "commit_left K ks st ct keys m r v \<longleftrightarrow> (\<exists>m'. prefix_done (commit_key st ct) keys m r m' \<and> mine K ks m' v)"

lemma commit_left_io: "mine K ks m v \<Longrightarrow> txn_io e \<Longrightarrow> commit_left K ks st ct keys m (Inl e) v"
  unfolding commit_left_def by (blast intro: prefix_done_io)

lemma commit_left_Cons:
  "commit_left K ks st ct keys (commit_key st ct k m) r v \<Longrightarrow> commit_left K ks st ct (k # keys) m r v"
  unfolding commit_left_def by (blast intro: prefix_done_Cons)

lemma rg_commit_secondaries:
  assumes "ks \<subseteq> K" "st \<le> ct"
  shows "mine K ks m v \<Longrightarrow> set keys \<subseteq> ks \<Longrightarrow> distinct keys \<Longrightarrow> held st (set keys) m \<Longrightarrow>
    rg (commit_secondaries_prog st ct keys) (undisturbed K ks) (confined K ks) v (commit_left K ks st ct keys m)"
proof (induction keys arbitrary: m v)
  case Nil
  then show ?case by (auto simp: commit_left_def intro: prefix_done_Nil mine_undisturbed)
next
  case (Cons k keys)
  from Cons.prems assms(1) have k: "k \<in> ks" "k \<in> K" and own: "held st {k} m" by (auto simp: held_def)
  have rest: "rg (commit_secondaries_prog st ct keys) (undisturbed K ks) (confined K ks) v' (commit_left K ks st ct (k # keys) m)"
    if "mine K ks (commit_key st ct k m) v'" for v'
    using Cons.IH [OF that] Cons.prems held_commit_key [of st k "set keys" m ct]
    by (auto elim!: rg_conseq intro: commit_left_Cons)
  show ?case
    unfolding commit_secondaries_prog.simps
  proof (rule rg_get_lock [OF Cons.prems(1) k(1)], goal_cases)
    case (3 b l v')
    from rg_commit_own [OF 3(3) k assms(2) own 3(2) commit_left_io rest] 3(1) show ?case by simp
  qed (use own in \<open>auto simp: held_def intro: commit_left_io\<close>)
qed

lemma rg_commit:
  assumes "mine K ks m v" "ks \<subseteq> K" "st \<le> ct" "set keys \<subseteq> ks" "distinct keys" "held st (set keys) m"
  shows "rg (commit_prog st ct keys) (undisturbed K ks) (confined K ks) v (commit_left K ks st ct keys m)"
proof (cases keys)
  case Nil
  with assms show ?thesis by (auto simp: commit_left_def intro: prefix_done_Nil mine_undisturbed)
next
  case (Cons k keys')
  from assms Cons have k: "k \<in> ks" "k \<in> K" and own: "held st {k} m" by (auto simp: held_def)
  have rest: "rg (commit_secondaries_prog st ct keys') (undisturbed K ks) (confined K ks) v' (commit_left K ks st ct keys m)"
    if "mine K ks (commit_key st ct k m) v'" for v'
    using rg_commit_secondaries [OF assms(2,3) that, of keys'] assms held_commit_key [of st k "set keys'" m ct] Cons
    by (auto elim!: rg_conseq intro: commit_left_Cons)
  show ?thesis
    unfolding Cons commit_prog.simps unfolding Cons [symmetric]
  proof (rule rg_get_lock [OF assms(1) k(1)], goal_cases)
    case (3 b l v')
    from rg_commit_own [OF 3(3) k assms(3) own 3(2) commit_left_io rest] 3(1) show ?case by simp
  qed (use own in \<open>auto simp: held_def intro: commit_left_io\<close>)
qed

section \<open>Transactions\<close>

text \<open>A transaction of a client: its prewrite, then its commit unless the prewrite failed.\<close>

record txn =
  txn_start :: u64
  txn_commit :: u64
  txn_mutations :: "Mutation list"
  txn_primary :: bytes
  txn_ttl :: u64

definition txn_keys :: "txn \<Rightarrow> bytes list" where
  "txn_keys t = map mutation_key (txn_mutations t)"

definition txn_exec :: "'s env \<Rightarrow> txn \<Rightarrow> 's \<Rightarrow> (TxnError + unit) \<times> 's" where
  "txn_exec E t s =
     (case prewrite E (txn_start t) (txn_mutations t) (txn_primary t) (txn_ttl t) s of
        (Inl e, s') \<Rightarrow> (Inl e, s')
      | (Inr _, s') \<Rightarrow> commit E (txn_start t) (txn_commit t) (txn_keys t) s')"

definition txn_prog :: "txn \<Rightarrow> (TxnError + unit) prog" where
  "txn_prog t =
     and_then (prewrite_prog (txn_start t) (txn_mutations t) (txn_primary t) (txn_ttl t))
       (\<lambda>_. commit_prog (txn_start t) (txn_commit t) (txn_keys t))"

lemma run_txn [simp]: "run E (txn_prog t) s = txn_exec E t s"
  by (auto simp: txn_prog_def txn_exec_def split: prog_splits)

lemma within_txn: "within w (txn_prog t) (12 * length (txn_mutations t))"
  unfolding txn_prog_def using within_and_then [OF within_prewrite within_commit]
  by (rule within_mono) (simp add: txn_keys_def)

text \<open>A transaction that can start in \<open>m\<close>: its keys are keys of the store, no two of its mutations
  are on one key, and no other transaction holds a lock on one of its keys.\<close>

definition startable :: "bytes set \<Rightarrow> mvcc \<Rightarrow> txn \<Rightarrow> bool" where
  "startable K m t \<longleftrightarrow> set (txn_keys t) \<subseteq> K \<and> txn_primary t \<in> K \<and> distinct (txn_keys t) \<and>
     txn_start t \<le> txn_commit t \<and> no_other (txn_start t) (set (txn_keys t)) m"

text \<open>A mutation of the transaction, committed: the lock is gone, the record is there.\<close>

definition applied :: "txn \<Rightarrow> Mutation \<Rightarrow> mvcc \<Rightarrow> bool" where
  "applied t x m \<longleftrightarrow> m_locks m (mutation_key x) = None \<and>
     m_writes m (mutation_key x, txn_commit t) = Some (wr_new (txn_start t) (mutation_op_type x)) \<and>
     (case x of M_Put k val \<Rightarrow> m_vals m (k, txn_start t) = Some val | M_Delete k \<Rightarrow> True)"

text \<open>The end of a transaction that started in \<open>m0\<close>: all its mutations are applied and the older
  versions of its keys are still there, or it stopped.\<close>

definition txn_ends :: "mvcc \<Rightarrow> txn \<Rightarrow> TxnError + unit \<Rightarrow> mvcc \<Rightarrow> bool" where
  "txn_ends m0 t r m \<longleftrightarrow> (case r of
     Inl e \<Rightarrow> txn_io e \<or> (\<exists>k \<in> set (txn_keys t). stops m0 (txn_start t) k e)
   | Inr _ \<Rightarrow> (\<forall>x \<in> set (txn_mutations t). passes m0 (mutation_key x) (txn_start t) \<and> applied t x m) \<and>
       (\<forall>k \<in> set (txn_keys t). \<forall>ts. ts \<noteq> txn_commit t \<longrightarrow> m_writes m (k, ts) = m_writes m0 (k, ts)))"

lemma lay_all_writes [simp]: "m_writes (fold (lay st pk ttl) ms m) = m_writes m"
  by (induction ms arbitrary: m) simp_all

lemma applied_same: "same_key (mutation_key x) m m' \<Longrightarrow> applied t x m' \<longleftrightarrow> applied t x m"
  by (cases x) (simp_all add: applied_def same_key_def)

lemma txn_ends_same:
  assumes "\<And>k. k \<in> set (txn_keys t) \<Longrightarrow> same_key k m m'" "txn_ends m0 t r m"
  shows "txn_ends m0 t r m'"
proof (cases r)
  case (Inr u)
  have "applied t x m' \<longleftrightarrow> applied t x m" if "x \<in> set (txn_mutations t)" for x
    using that by (intro applied_same assms(1)) (simp add: txn_keys_def)
  with Inr assms(2) assms(1) [unfolded same_key_def] show ?thesis by (simp add: txn_ends_def)
qed (use assms(2) in \<open>simp add: txn_ends_def\<close>)

lemma txn_ends_committed:
  assumes "distinct (txn_keys t)" "\<forall>x \<in> set (txn_mutations t). passes m0 (mutation_key x) (txn_start t)"
  shows "txn_ends m0 t (Inr ()) (fold (commit_key (txn_start t) (txn_commit t)) (txn_keys t)
    (fold (lay (txn_start t) (txn_primary t) (txn_ttl t)) (txn_mutations t) m0))"
    (is "txn_ends _ _ _ (fold _ _ ?m)")
proof -
  have "laid (txn_start t) (txn_primary t) (txn_ttl t) ?m x" if "x \<in> set (txn_mutations t)" for x
    using assms(1) that by (simp add: txn_keys_def lay_all_laid)
  then have "owns ?m (txn_start t) (mutation_key x)" "mutation_op_type x = lock_op (the (m_locks ?m (mutation_key x)))"
    "\<And>k v. x = M_Put k v \<Longrightarrow> m_vals ?m (k, txn_start t) = Some v"
    if "x \<in> set (txn_mutations t)" for x
    using that by (auto simp: laid_def owns_def)
  with assms(2) show ?thesis
    by (auto simp: txn_ends_def applied_def txn_keys_def commit_fold_locks commit_fold_writes split: Mutation.splits)
qed

lemma held_laid:
  assumes "distinct (txn_keys t)"
  shows "held (txn_start t) (set (txn_keys t))
    (fold (lay (txn_start t) (txn_primary t) (txn_ttl t)) (txn_mutations t) m)" (is "held _ _ ?m")
proof -
  have "\<exists>l. m_locks ?m (mutation_key x) = Some l \<and> lock_start_ts l = txn_start t \<and> lock_op l \<noteq> Rollback"
    if "x \<in> set (txn_mutations t)" for x
    using lay_all_laid [of "txn_mutations t" x] assms that
    by (cases x) (auto simp: laid_def txn_keys_def)
  then show ?thesis by (auto simp: held_def txn_keys_def)
qed

lemma rg_txn:
  assumes m: "mine K (set (txn_keys t)) m v" and K: "good_keys K" and t: "startable K m t"
  shows "rg (txn_prog t) (undisturbed K (set (txn_keys t))) (confined K (set (txn_keys t))) v
    (\<lambda>r v'. txn_ends m t r (abs_mvcc v'))" (is "rg _ ?R ?G _ ?Q")
proof -
  let ?ks = "set (txn_keys t)"
  from t have *: "?ks \<subseteq> K" "txn_primary t \<in> K" "distinct (txn_keys t)" "txn_start t \<le> txn_commit t"
    "no_other (txn_start t) ?ks m" by (simp_all add: startable_def)
  have pre: "rg (prewrite_prog (txn_start t) (txn_mutations t) (txn_primary t) (txn_ttl t)) ?R ?G v
      (\<lambda>r v'. \<exists>m'. laid_upto (txn_start t) (txn_primary t) (txn_ttl t) (txn_mutations t) m r m' \<and> mine K ?ks m' v')"
    using rg_prewrite [OF K *(2) m _ *(1,5)] by (simp add: txn_keys_def)
  show ?thesis
    unfolding txn_prog_def
  proof (rule rg_seq, rule rg_conseq [OF pre], goal_cases)
    case (1 r v')
    then obtain m' where m': "laid_upto (txn_start t) (txn_primary t) (txn_ttl t) (txn_mutations t) m r m'"
      "mine K ?ks m' v'" by blast
    show ?case
    proof (cases r)
      case (Inl e)
      with m'(1) show ?thesis by (auto simp: laid_upto_def txn_ends_def txn_keys_def)
    next
      case (Inr u)
      let ?m = "fold (lay (txn_start t) (txn_primary t) (txn_ttl t)) (txn_mutations t) m"
      from Inr m'(1) have eq: "m' = ?m" and ok: "\<forall>x \<in> set (txn_mutations t). passes m (mutation_key x) (txn_start t)"
        by (auto simp: laid_upto_def)
      have "txn_ends m t q (abs_mvcc w)"
        if left: "commit_left K ?ks (txn_start t) (txn_commit t) (txn_keys t) ?m q w" for q w
      proof -
        obtain m2 where m2: "prefix_done (commit_key (txn_start t) (txn_commit t)) (txn_keys t) ?m q m2" "mine K ?ks m2 w"
          using left by (auto simp: commit_left_def)
        have "txn_ends m t q m2"
          using m2(1) txn_ends_committed [OF *(3) ok] by (auto simp: prefix_done_def txn_ends_def)
        then show ?thesis by (rule txn_ends_same [rotated]) (rule mine_key [OF m2(2)])
      qed
      with rg_commit [OF m'(2) *(1,4) order_refl *(3)] held_laid [OF *(3)] Inr eq
      show ?thesis by (auto elim!: rg_conseq)
    qed
  qed
qed

section \<open>Interleaved transactions\<close>

text \<open>The keys of each transaction of a list, a key being counted for the first that names it.\<close>

definition own_keys :: "txn list \<Rightarrow> nat \<Rightarrow> bytes set" where
  "own_keys ts i = (if i < length ts then set (txn_keys (ts ! i)) - (\<Union>j < i. set (txn_keys (ts ! j))) else {})"

lemma own_keys_disjoint: "i \<noteq> j \<Longrightarrow> own_keys ts i \<inter> own_keys ts j = {}"
  by (induction i j rule: linorder_wlog) (auto simp: own_keys_def)

interpretation txns: compatible "\<lambda>i. undisturbed K (own_keys ts i)" "\<lambda>i. confined K (own_keys ts i)" for K ts
  by unfold_locales (rule undisturbed_order confined_undisturbed [OF _ own_keys_disjoint]; assumption)+

lemma distinct_concat_nth:
  "distinct (concat xss) \<Longrightarrow> i < j \<Longrightarrow> j < length xss \<Longrightarrow> set (xss ! i) \<inter> set (xss ! j) = {}"
proof (induction xss arbitrary: i j)
  case (Cons xs xss)
  show ?case
  proof (cases i)
    case 0
    with Cons.prems obtain j' where "j = Suc j'" "xss ! j' \<in> set xss" by (cases j) auto
    with Cons.prems(1) 0 show ?thesis by auto
  next
    case (Suc i')
    with Cons show ?thesis by (cases j) auto
  qed
qed simp

lemma own_keys_separate:
  assumes "distinct (concat (map txn_keys ts))" "i < length ts"
  shows "own_keys ts i = set (txn_keys (ts ! i))"
proof -
  have "set (txn_keys (ts ! j)) \<inter> set (txn_keys (ts ! i)) = {}" if "j < i" for j
    using distinct_concat_nth [OF assms(1) that] assms(2) that by simp
  with assms(2) show ?thesis by (auto simp: own_keys_def)
qed

text \<open>A program that is given enough turns ends, whatever the others do.\<close>

lemma interleave_ends:
  assumes "interleave E sched (ps, s) = (ps', s')" "within 0 (ps ! i) n" "i < length ps" "n \<le> count_list sched i"
  shows "\<exists>a. ps' ! i = Return a"
  using assms
proof (induction sched arbitrary: ps s n)
  case Nil
  then show ?case by (cases "ps ! i") (auto simp: interleave_def)
next
  case (Cons j sched)
  obtain ps1 s1 where st: "step_prog E j (ps, s) = (ps1, s1)" by force
  have run: "interleave E sched (ps1, s1) = (ps', s')" using Cons.prems(1) st by (simp add: interleave_def)
  have len: "i < length ps1" using st Cons.prems(3)
    by (auto simp: step_prog_def split: if_splits prog.splits prod.splits)
  have "within 0 (ps1 ! i) (if j = i then n - 1 else n)"
    using st Cons.prems(2,3) by (auto simp: step_prog_def split: if_splits prog.splits prod.splits)
  from Cons.IH [OF run this len] Cons.prems(4) show ?case by (auto split: if_splits)
qed

definition result_of :: "'a prog \<Rightarrow> 'a option" where
  "result_of p = (case p of Return a \<Rightarrow> Some a | Ask q c \<Rightarrow> None)"

lemma result_of_Some: "result_of p = Some a \<longleftrightarrow> p = Return a"
  by (simp add: result_of_def split: prog.split)

text \<open>C11. Transactions that run at the same time on different keys are isolated from each other.
  Whatever the order of their engine calls and whichever calls fail, the store stays well formed
  and consistent; a transaction that ended without an error has committed all its mutations and
  left the older versions alone, and one that ended with an error was stopped by the engine or by
  what was committed on its keys before any of them started; the other keys are as they were; and
  a transaction that gets twelve turns for each of its mutations has ended. Alone, the program of
  a transaction is its prewrite followed by its commit.\<close>

theorem concurrent_transactions_isolated:
  assumes "fjall E view" "good_keys K" "sound_store K (view s)"
    and "distinct (concat (map txn_keys ts))" "\<forall>t \<in> set ts. startable K (abs_mvcc (view s)) t"
    and "interleave E sched (map txn_prog ts, s) = (ps, s')"
  shows "sound_store K (view s') \<and>
    (\<forall>i < length ts.
       (\<forall>r. result_of (ps ! i) = Some r \<longrightarrow> txn_ends (abs_mvcc (view s)) (ts ! i) r (abs_mvcc (view s'))) \<and>
       (12 * length (txn_mutations (ts ! i)) \<le> count_list sched i \<longrightarrow> result_of (ps ! i) \<noteq> None)) \<and>
    (\<forall>k. k \<notin> set (concat (map txn_keys ts)) \<longrightarrow> same_key k (abs_mvcc (view s)) (abs_mvcc (view s'))) \<and>
    (\<forall>t. run E (txn_prog t) s = txn_exec E t s)"
proof -
  let ?m = "abs_mvcc (view s)"
  let ?I = "\<lambda>v. sound_store K v \<and> (\<forall>k. k \<notin> set (concat (map txn_keys ts)) \<longrightarrow> same_key k ?m (abs_mvcc v))"
  let ?Q = "\<lambda>i r v. txn_ends ?m (ts ! i) r (abs_mvcc v)"
  have start: "rg (map txn_prog ts ! i) (undisturbed K (own_keys ts i)) (confined K (own_keys ts i)) (view s) (?Q i)"
    if "i < length (map txn_prog ts)" for i
    using that assms(2,3,5) rg_txn [of K "ts ! i" ?m "view s"] by (simp add: own_keys_separate [OF assms(4)] mine_def)
  have keeps: "?I v'" if "i < length (map txn_prog ts)" "confined K (own_keys ts i) v v'" "?I v" for i v v'
  proof -
    have "same_key k (abs_mvcc v) (abs_mvcc v')" if "k \<notin> set (concat (map txn_keys ts))" for k
      using that \<open>i < _\<close> \<open>confined K _ v v'\<close> own_keys_separate [OF assms(4), of i]
      by (auto simp: confined_def undisturbed_def)
    with that(2,3) show ?thesis by (auto simp: confined_def undisturbed_def intro: same_key_trans)
  qed
  have init: "?I (view s)" using assms(3) by simp
  have "length ps = length (map txn_prog ts) \<and> ?I (view s') \<and> (\<forall>i < length (map txn_prog ts).
      rg (ps ! i) (undisturbed K (own_keys ts i)) (confined K (own_keys ts i)) (view s') (?Q i))"
    by (rule txns.interleave_rg [where I = ?I and Q = ?Q, OF assms(1,6)]) (erule start, rule init, erule keeps)
  then have inv: "?I (view s')" and ends: "\<And>i. i < length ts \<Longrightarrow>
      rg (ps ! i) (undisturbed K (own_keys ts i)) (confined K (own_keys ts i)) (view s') (?Q i)"
    by simp_all
  have "txn_ends ?m (ts ! i) r (abs_mvcc (view s'))" if "i < length ts" "result_of (ps ! i) = Some r" for i r
    using txns.interleave_result [where Q = ?Q] ends [OF that(1)] that(2) unfolding result_of_Some by metis
  moreover have "result_of (ps ! i) \<noteq> None"
    if "i < length ts" "12 * length (txn_mutations (ts ! i)) \<le> count_list sched i" for i
    using interleave_ends [OF assms(6) _ _ that(2)] within_txn that(1) by (auto simp: result_of_def)
  ultimately show ?thesis using inv by simp
qed

definition example_txns :: "txn list" where
  "example_txns =
     [\<lparr>txn_start = 5, txn_commit = 20, txn_mutations = [M_Put [1] [11], M_Delete [2]], txn_primary = [1], txn_ttl = 3000\<rparr>,
      \<lparr>txn_start = 7, txn_commit = 9, txn_mutations = [M_Put [3] [33]], txn_primary = [3], txn_ttl = 3000\<rparr>]"

theorem concurrent_transactions_isolated_witness:
  "txn_ends (abs_mvcc (mem_view (mem_init []))) (example_txns ! 1) (Inr ())
     (abs_mvcc (mem_view (snd (interleave mem_env (concat (replicate 24 [0, 1])) (map txn_prog example_txns, mem_init [])))))"
proof -
  let ?run = "interleave mem_env (concat (replicate 24 [0, 1])) (map txn_prog example_txns, mem_init [])"
  have "result_of (fst ?run ! 1) = Some (Inr ())" by code_simp
  moreover have "sound_store (set [[1], [2], [3]]) (mem_view (mem_init []))"
    using mem_init_ok by (simp add: sound_store_def)
  moreover have "distinct (concat (map txn_keys example_txns))" by code_simp
  moreover have "\<forall>t \<in> set example_txns. startable (set [[1], [2], [3]]) (abs_mvcc (mem_view (mem_init []))) t"
    by (simp add: example_txns_def startable_def txn_keys_def no_other_def m_locks_abs typed_def mem_view_def mem_init_def)
  moreover have "1 < length example_txns" by code_simp
  ultimately show ?thesis
    using concurrent_transactions_isolated [OF mem.fjall_axioms mem_keys,
        where ts = example_txns and s = "mem_init []" and ps = "fst ?run" and s' = "snd ?run"]
    by (metis prod.collapse)
qed

end
