(* ===== verification/Record_Types.thy ===== *)
theory Record_Types
  imports Rely_Guarantee
begin

text \<open>
  Type soundness of the store: what the coordinator puts into the three partitions. Every batch of
  every operation is well typed, whatever the engine answered before; so the store stays well typed
  under any interleaving of any operations, and every record read from it decodes.
\<close>

section \<open>Well typed batches\<close>

text \<open>A lock under a user key, a write record under a versioned key, a value under a versioned key.\<close>

fun typed_entry :: "partition \<Rightarrow> bytes \<Rightarrow> bytes \<Rightarrow> bool" where
  "typed_entry P_Lock k b \<longleftrightarrow> (\<exists>l. b = lock_to_bytes l)"
| "typed_entry P_Write k b \<longleftrightarrow> (\<exists>uk t r. k = key_encode uk t \<and> b = wr_to_bytes r)"
| "typed_entry P_Default k b \<longleftrightarrow> (\<exists>uk t. k = key_encode uk t)"

lemma typed_entries [simp]:
  "typed_entry P_Lock k (lock_to_bytes l)" "typed_entry P_Write (key_encode uk t) (wr_to_bytes r)"
  "typed_entry P_Default (key_encode uk t) b"
  by auto

declare typed_entry.simps [simp del]

definition well_typed :: "view \<Rightarrow> bool" where
  "well_typed v \<longleftrightarrow> (\<forall>p k b. v p k = Some b \<longrightarrow> typed_entry p k b)"

fun typed_op :: "batch_op \<Rightarrow> bool" where
  "typed_op (Insert p k b) \<longleftrightarrow> typed_entry p k b"
| "typed_op (Remove p k) \<longleftrightarrow> True"

definition typed_batch :: "batch \<Rightarrow> bool" where
  "typed_batch b \<longleftrightarrow> list_all typed_op b"

lemma typed_batch_simps [simp]:
  "typed_batch []" "typed_batch (x # b) \<longleftrightarrow> typed_op x \<and> typed_batch b"
  "typed_batch (b @ b') \<longleftrightarrow> typed_batch b \<and> typed_batch b'"
  by (simp_all add: typed_batch_def)

lemma well_typed_op: "typed_op x \<Longrightarrow> well_typed v \<Longrightarrow> well_typed (apply_op v x)"
  by (cases x) (auto simp: well_typed_def)

lemma well_typed_batch: "typed_batch b \<Longrightarrow> well_typed v \<Longrightarrow> well_typed (apply_batch b v)"
  by (induction b arbitrary: v) (auto intro: well_typed_op)

lemma typed_batches [simp]:
  "typed_batch (stage_mutation st pk ttl mutation)" "typed_batch (commit_key_batch st ct k l)"
  "typed_batch (rollback_key_batch st k lb)" "typed_batch (rollback_batch k st)"
  by (auto simp: stage_mutation_def commit_key_batch_def rollback_key_batch_def rollback_batch_def
      split: Mutation.split option.split sum.split)

lemma gc_scan_typed: "gc_scan sp its lk seen b n = Inr (b', n') \<Longrightarrow> typed_batch b \<Longrightarrow> typed_batch b'"
  by (induction sp its lk seen b n rule: gc_scan.induct)
     (auto simp: Let_def split: sum.splits if_splits option.splits)

section \<open>Programs that write well typed batches\<close>

primrec writes_typed :: "'a prog \<Rightarrow> bool" where
  "writes_typed (Return a) \<longleftrightarrow> True"
| "writes_typed (Ask q c) \<longleftrightarrow> (\<forall>b. q = Call_Commit b \<longrightarrow> typed_batch b) \<and> (\<forall>x. writes_typed (c x))"

text \<open>The results a program may end with.\<close>

primrec returns :: "'a prog \<Rightarrow> 'a \<Rightarrow> bool" where
  "returns (Return a) b \<longleftrightarrow> b = a"
| "returns (Ask q c) b \<longleftrightarrow> (\<exists>x. returns (c x) b)"

lemma returns_bind [simp]: "returns (bind_prog p f) b \<longleftrightarrow> (\<exists>a. returns p a \<and> returns (f a) b)"
  by (induction p) auto

lemma returns_and_then: "returns (and_then p f) (Inr b) \<Longrightarrow> \<exists>a. returns p (Inr a) \<and> returns (f a) (Inr b)"
  unfolding and_then_def returns_bind by (metis Inl_Inr_False obj_sumE returns.simps(1) sum.case)

lemma writes_bind_returns:
  "writes_typed p \<Longrightarrow> (\<And>a. returns p a \<Longrightarrow> writes_typed (f a)) \<Longrightarrow> writes_typed (bind_prog p f)"
proof (induction p)
  case (Ask q c)
  then have "writes_typed (bind_prog (c x) f)" for x by (intro Ask.IH [OF rangeI]) auto
  with Ask.prems(1) show ?case by simp
qed simp

lemma writes_bind: "writes_typed p \<Longrightarrow> (\<And>a. writes_typed (f a)) \<Longrightarrow> writes_typed (bind_prog p f)"
  by (rule writes_bind_returns)

lemma writes_and_then: "writes_typed p \<Longrightarrow> (\<And>a. writes_typed (f a)) \<Longrightarrow> writes_typed (and_then p f)"
  unfolding and_then_def by (rule writes_bind) (auto split: sum.split)

lemma writes_map_err [simp]: "writes_typed p \<Longrightarrow> writes_typed (map_err h p)"
  unfolding map_err_def by (rule writes_bind) simp_all

lemma writes_calls [simp]:
  "writes_typed (get_prog p k)" "writes_typed (range_prog p lo)" "writes_typed (iter_prog p)" "writes_typed now_prog"
  "writes_typed (write_prog b) \<longleftrightarrow> typed_batch b"
  by (simp_all add: get_prog_def range_prog_def iter_prog_def now_prog_def write_prog_def)

lemma writes_commit_batch [simp]: "typed_batch b \<Longrightarrow> writes_typed (commit_batch_prog b)"
  by (simp add: commit_batch_prog_def)

lemmas writes_intros = writes_bind writes_and_then
lemmas writes_splits = sum.split option.split prod.split OpType.split TxnStatus.split MvccError.split

lemma writes_reader [simp]: "writes_typed (reader_scan_prog k ts its)" "writes_typed (reader_find_prog k ts)"
  "writes_typed (reader_get_prog k ts)"
proof -
  show scan: "writes_typed (reader_scan_prog k ts its)" for its
    by (induction k ts its rule: reader_scan_prog.induct) (auto intro!: writes_intros split: writes_splits)
  show find: "writes_typed (reader_find_prog k ts)"
    using scan by (auto simp: reader_find_prog_def intro!: writes_intros)
  show "writes_typed (reader_get_prog k ts)"
    using find by (auto simp: reader_get_prog_def intro!: writes_intros split: writes_splits)
qed

lemma writes_check_txn_status [simp]: "writes_typed (check_txn_status_prog pk st)"
  by (auto simp: check_txn_status_prog_def check_primary_lock_prog_def intro!: writes_intros split: writes_splits)

lemma writes_resolve_lock [simp]: "writes_typed (resolve_lock_prog k l)"
  by (auto simp: resolve_lock_prog_def intro!: writes_intros split: writes_splits)

lemma writes_heartbeat [simp]: "writes_typed (heartbeat_prog pk st ttl)"
  by (auto simp: heartbeat_prog_def intro!: writes_intros split: writes_splits)

lemma writes_coord_get [simp]: "writes_typed (coord_get_prog k ts)"
  by (auto simp: coord_get_prog_def intro!: writes_intros split: writes_splits)

lemma writes_scan_loop [simp]: "writes_typed (scan_loop_prog a b lim ts its l rs)"
  by (induction a b lim ts its l rs rule: scan_loop_prog.induct)
     (auto simp: Let_def intro!: writes_intros split: writes_splits)

lemma writes_prewrite_one [simp]: "writes_typed (prewrite_one_prog st pk ttl mutation)"
  by (auto simp: prewrite_one_prog_def check_write_conflict_prog_def check_lock_prog_def resolve_existing_prog_def
      intro!: writes_intros split: writes_splits)

lemma writes_prewrite [simp]: "writes_typed (prewrite_prog st ms pk ttl)"
  by (induction ms) (auto intro!: writes_intros)

lemma writes_commit_secondaries [simp]: "writes_typed (commit_secondaries_prog st ct ks)"
  by (induction ks) (auto intro!: writes_intros split: writes_splits)

lemma writes_commit [simp]: "writes_typed (commit_prog st ct ks)"
  by (cases ks) (auto intro!: writes_intros split: writes_splits)

lemma writes_rollback [simp]: "writes_typed (rollback_prog st ks)"
  by (induction ks) (auto intro!: writes_intros)

lemma writes_batch_prewrite_loop [simp]: "writes_typed (batch_prewrite_loop_prog st ms pk ttl b)"
  by (induction ms arbitrary: b)
     (auto simp: check_write_conflict_prog_def resolve_existing_prog_def intro!: writes_intros split: writes_splits)

lemma batch_prewrite_loop_typed:
  "returns (batch_prewrite_loop_prog st ms pk ttl b) (Inr b') \<Longrightarrow> typed_batch b \<Longrightarrow> typed_batch b'"
proof (induction ms arbitrary: b)
  case (Cons mutation ms)
  from Cons.prems(1) have "returns (batch_prewrite_loop_prog st ms pk ttl (b @ stage_mutation st pk ttl mutation)) (Inr b')"
    unfolding batch_prewrite_loop_prog.simps by (meson returns_and_then)
  with Cons.IH Cons.prems(2) show ?case by simp
qed simp

lemma writes_and_then_returns:
  "writes_typed p \<Longrightarrow> (\<And>a. returns p (Inr a) \<Longrightarrow> writes_typed (f a)) \<Longrightarrow> writes_typed (and_then p f)"
  unfolding and_then_def by (rule writes_bind_returns) (auto split: sum.split)

lemma writes_batch_prewrite [simp]: "writes_typed (batch_prewrite_prog st ms pk ttl)"
  by (auto simp: batch_prewrite_prog_def dest: batch_prewrite_loop_typed intro!: writes_and_then_returns)

lemma writes_batch_commit_loop [simp]: "writes_typed (batch_commit_loop_prog st ct ks b)"
  by (induction ks arbitrary: b) (auto intro!: writes_intros split: writes_splits)

lemma batch_commit_loop_typed:
  "returns (batch_commit_loop_prog st ct ks b) (Inr b') \<Longrightarrow> typed_batch b \<Longrightarrow> typed_batch b'"
proof (induction ks arbitrary: b)
  case (Cons k ks)
  from returns_and_then [OF Cons.prems(1) [unfolded batch_commit_loop_prog.simps]] Cons.prems(2)
  obtain b2 where "typed_batch b2" "returns (batch_commit_loop_prog st ct ks b2) (Inr b')"
  proof (elim exE conjE)
    fix v
    assume "returns (case v of None \<Rightarrow> batch_commit_loop_prog st ct ks b
        | Some lb \<Rightarrow> (case lock_from_bytes lb of Inl _ \<Rightarrow> Return (Inl (Txn_Mvcc CorruptedState))
            | Inr l \<Rightarrow> batch_commit_loop_prog st ct ks (if lock_start_ts l = st then b @ commit_key_batch st ct k l else b))) (Inr b')"
    then show thesis
      using that [of b] that [of "b @ commit_key_batch st ct k (projr (lock_from_bytes (the v)))"] Cons.prems(2)
      by (cases v; cases "lock_from_bytes (the v)") (simp_all split: if_splits)
  qed
  with Cons.IH show ?case by blast
qed simp

lemma writes_batch_commit [simp]: "writes_typed (batch_commit_prog st ct ks)"
  by (auto simp: batch_commit_prog_def dest: batch_commit_loop_typed intro!: writes_and_then_returns)

lemma writes_gc [simp]: "writes_typed (gc_prog sp)"
proof -
  have "typed_batch b" if "gc_scan sp its None False [] 0 = Inr (b, n)" for its b n
    using gc_scan_typed [OF that] by simp
  then have "writes_typed (commit_batch_prog b)" if "gc_scan sp its None False [] 0 = Inr (b, n)" for its b n
    using that by simp
  then show ?thesis
    by (auto simp: gc_prog_def intro!: writes_intros split: writes_splits)
qed

lemma writes_coord_prog: "writes_typed (coord_prog op)"
  by (cases op) (auto simp: coord_scan_prog_def intro!: writes_bind)

section \<open>Interleaved operations\<close>

lemma writes_typed_rg:
  "writes_typed p \<Longrightarrow> rg p (\<lambda>v v'. well_typed v \<longrightarrow> well_typed v') (\<lambda>v v'. well_typed v \<longrightarrow> well_typed v') v (\<lambda>_ _. True)"
proof (induction p arbitrary: v)
  case (Ask q c)
  have "well_typed v \<longrightarrow> well_typed v'" if "answers v q x v'" for x v v'
    using that Ask.prems by (cases rule: answers.cases) (auto intro: well_typed_batch)
  with Ask show ?case by auto
qed simp

interpretation typed: compatible "\<lambda>_ v v'. well_typed v \<longrightarrow> well_typed v'" "\<lambda>_ v v'. well_typed v \<longrightarrow> well_typed v'"
  by unfold_locales (auto intro!: reflpI transpI)

text \<open>C15. The store is well typed at every moment. Whatever operations of the coordinator run, on
  any keys, in any interleaving of their engine calls and with any of these failing, an entry of
  the lock partition is an encoded lock, an entry of the write partition an encoded record under a
  versioned key, and an entry of the default partition lies under a versioned key; so every record
  and every versioned key decodes. Run to its end, the program of an operation is the operation.\<close>

theorem interleaved_operations_well_typed:
  assumes "fjall E view" "well_typed (view s)" "interleave E sched (map coord_prog ops, s) = (ps, s')"
  shows "well_typed (view s') \<and>
    (\<forall>k b. view s' P_Write k = Some b \<longrightarrow> (\<exists>uk t r. key_decode k = Inr (uk, t) \<and> wr_from_bytes b = Some r)) \<and>
    (\<forall>op. run E (coord_prog op) s = ((), coord_exec E op s))"
proof -
  have "well_typed (view s')"
    using typed.interleave_rg [where I = well_typed and Q = "\<lambda>_ _ _. True", OF assms(1,3)] assms(2)
    by (simp add: writes_typed_rg writes_coord_prog)
  then show ?thesis
    by (fastforce simp: well_typed_def typed_entry.simps coord_prog_exec)
qed

theorem interleaved_operations_well_typed_witness:
  "well_typed (mem_view (snd (interleave mem_env [0, 1, 0, 1, 0, 1, 0, 1, 0, 1, 0, 1]
     (map coord_prog [Op_Prewrite 5 [M_Put [1] [11]] [1] 3000, Op_Rollback 5 [[1]]], mem_init []))))"
proof -
  have "well_typed (mem_view (mem_init []))" by (simp add: well_typed_def mem_view_def mem_init_def)
  from interleaved_operations_well_typed [OF mem.fjall_axioms this surjective_pairing] show ?thesis by blast
qed

end
