(* ===== verification/Concurrent_Splits.thy ===== *)
theory Concurrent_Splits
  imports Node_System
begin

text \<open>
  Split requests that run at the same time. The handler \<^verbatim>\<open>ask_split\<close> locks the region table for each
  of its calls and nothing for the whole, so other requests run between them: a handler is a
  sequence of phases (\<open>split_phase\<close>), one for each of its atomic steps, and the handlers of a list of
  requests take turns in any order. Alone, the phases are the handler \<open>kv_ask_split\<close>.
\<close>

section \<open>The phases of a split request\<close>

datatype ('r, 'e, 'h, 'c) split_phase =
    Asked AskSplitRequest
  | Found AskSplitRequest Region
  | Chosen u64 bytes
  | Allocated u64 bytes u64
  | Split_Done u64 Region Region
  | Created u64 Region Region "NodeError + ('r, 'e, 'h, 'c) MultiRaftNode"
  | Answered AskSplitResponse

fun split_step ::
  "('e, 'h, 'c) raft_pb \<Rightarrow> ('r, 'e, 'h, 'c, 'm) raw_node \<Rightarrow> 's env \<Rightarrow> ('r, 'e, 'h, 'c) split_phase \<Rightarrow>
     ('r, 'e, 'h, 'c) NodeState \<times> 's \<Rightarrow> ('r, 'e, 'h, 'c) split_phase \<times> ('r, 'e, 'h, 'c) NodeState \<times> 's" where
  "split_step pb R E (Asked req) w =
     (case get_region (ns_router (fst w)) (aq_region_id req) of
        None \<Rightarrow> (Answered (split_failed (Region_Missing (aq_region_id req))), w)
      | Some region \<Rightarrow> (Found req region, w))"
| "split_step pb R E (Found req region) w =
     (case choose_split_key E (aq_split_key req) region w of
        (None, w1) \<Rightarrow> (Answered (split_failed (Text ''Could not find split key'')), w1)
      | (Some split_key, w1) \<Rightarrow> (Chosen (aq_region_id req) split_key, w1))"
| "split_step pb R E (Chosen rid split_key) (n, s) =
     (case alloc_region_id n of (new_region_id, n1) \<Rightarrow> (Allocated rid split_key new_region_id, n1, s))"
| "split_step pb R E (Allocated rid split_key new_region_id) (n, s) =
     (case split_region rid split_key new_region_id (ns_router n) of
        (Inl e, router) \<Rightarrow> (Answered (split_failed (Router_Text e)), n\<lparr>ns_router := router\<rparr>, s)
      | (Inr (left, right), router) \<Rightarrow> (Split_Done new_region_id left right, n\<lparr>ns_router := router\<rparr>, s))"
| "split_step pb R E (Split_Done new_region_id left right) (n, s) =
     (case multi_raft_node_new pb R E new_region_id [sc_node_id (ns_config n)] (node_raft_config (ns_config n)) s of
        (new_node, s1) \<Rightarrow> (Created new_region_id left right new_node, n, s1))"
| "split_step pb R E (Created new_region_id left right new_node) (n, s) =
     (Answered \<lparr>ar_new_region_id = new_region_id,
        ar_left_start_key = start_key left, ar_left_end_key = end_key left,
        ar_right_start_key = start_key right, ar_right_end_key = end_key right, ar_error = No_Text\<rparr>,
      n\<lparr>ns_raft_nodes := (case new_node of
           Inr nd \<Rightarrow> (ns_raft_nodes n)(new_region_id \<mapsto> nd) | Inl _ \<Rightarrow> ns_raft_nodes n)\<rparr>, s)"
| "split_step pb R E (Answered resp) w = (Answered resp, w)"

text \<open>Alone, the six steps are the handler.\<close>

fun split_steps ::
  "('e, 'h, 'c) raft_pb \<Rightarrow> ('r, 'e, 'h, 'c, 'm) raw_node \<Rightarrow> 's env \<Rightarrow> nat \<Rightarrow>
     ('r, 'e, 'h, 'c) split_phase \<times> ('r, 'e, 'h, 'c) NodeState \<times> 's \<Rightarrow>
     ('r, 'e, 'h, 'c) split_phase \<times> ('r, 'e, 'h, 'c) NodeState \<times> 's" where
  "split_steps pb R E 0 x = x"
| "split_steps pb R E (Suc k) (p, w) = split_steps pb R E k (split_step pb R E p w)"

lemma split_steps_answered [simp]: "split_steps pb R E k (Answered resp, w) = (Answered resp, w)"
  by (induction k) simp_all

lemma split_steps_handler:
  "split_steps pb R E 6 (Asked q, w) = (case kv_ask_split pb R E q w of
     (Inr resp, w') \<Rightarrow> (Answered resp, w') | (Inl e, w') \<Rightarrow> (Asked q, w'))"
  by (cases w)
     (auto simp: kv_ask_split_def eval_nat_numeral split: option.split prod.split sum.split)

section \<open>Interleaved requests\<close>

definition turn ::
  "('e, 'h, 'c) raft_pb \<Rightarrow> ('r, 'e, 'h, 'c, 'm) raw_node \<Rightarrow> 's env \<Rightarrow> nat \<Rightarrow>
     ('r, 'e, 'h, 'c) split_phase list \<times> ('r, 'e, 'h, 'c) NodeState \<times> 's \<Rightarrow>
     ('r, 'e, 'h, 'c) split_phase list \<times> ('r, 'e, 'h, 'c) NodeState \<times> 's" where
  "turn pb R E i x = (case x of (ps, w) \<Rightarrow>
     if i < length ps then (case split_step pb R E (ps ! i) w of (p, w') \<Rightarrow> (ps[i := p], w')) else (ps, w))"

text \<open>Turns of the split requests, and other requests between them.\<close>

inductive splits_run ::
  "('e, 'h, 'c) raft_pb \<Rightarrow> ('r, 'e, 'h, 'c, 'm) raw_node \<Rightarrow> (bytes \<Rightarrow> 'm option) \<Rightarrow> 's env \<Rightarrow>
     ('r, 'e, 'h, 'c) split_phase list \<times> ('r, 'e, 'h, 'c) NodeState \<times> 's \<Rightarrow>
     ('r, 'e, 'h, 'c) split_phase list \<times> ('r, 'e, 'h, 'c) NodeState \<times> 's \<Rightarrow> bool"
  for pb R pm E x where
  run_init: "splits_run pb R pm E x x"
| run_turn: "splits_run pb R pm E x y \<Longrightarrow> splits_run pb R pm E x (turn pb R E i y)"
| run_other: "splits_run pb R pm E x (ps, w) \<Longrightarrow> (\<And>q'. q \<noteq> Rq_Ask_Split q') \<Longrightarrow>
    splits_run pb R pm E x (ps, node_serve pb R pm E q w)"

section \<open>The invariant\<close>

definition region_ids :: "('r, 'e, 'h, 'c) NodeState \<Rightarrow> u64 set" where
  "region_ids n = region_id ` regions (ns_router n)"

fun new_id :: "('r, 'e, 'h, 'c) split_phase \<Rightarrow> u64 option" where
  "new_id (Allocated rid k a) = Some a"
| "new_id (Split_Done a l r) = Some a"
| "new_id (Created a l r nd) = Some a"
| "new_id (Answered resp) = (if ar_error resp = No_Text then Some (ar_new_region_id resp) else None)"
| "new_id _ = None"

fun before_split :: "('r, 'e, 'h, 'c) split_phase \<Rightarrow> bool" where
  "before_split (Allocated rid k a) \<longleftrightarrow> True"
| "before_split _ \<longleftrightarrow> False"

fun waiting :: "('r, 'e, 'h, 'c) split_phase \<Rightarrow> bool" where
  "waiting (Asked q) \<longleftrightarrow> True"
| "waiting (Found q r) \<longleftrightarrow> True"
| "waiting (Chosen rid k) \<longleftrightarrow> True"
| "waiting _ \<longleftrightarrow> False"

fun created_ok :: "('r, 'e, 'h, 'c) split_phase \<Rightarrow> bool" where
  "created_ok (Created a l r (Inr nd)) \<longleftrightarrow> mr_region_id nd = a"
| "created_ok _ \<longleftrightarrow> True"

text \<open>The identifier a request has taken is in the table exactly after its split.\<close>

definition phase_ok :: "('r, 'e, 'h, 'c) NodeState \<Rightarrow> ('r, 'e, 'h, 'c) split_phase \<Rightarrow> bool" where
  "phase_ok n p \<longleftrightarrow> created_ok p \<and>
     (\<forall>a. new_id p = Some a \<longrightarrow> a < ns_next_region_id n \<and> (a \<in> region_ids n \<longleftrightarrow> \<not> before_split p))"

definition splits_ok :: "('r, 'e, 'h, 'c) split_phase list \<Rightarrow> ('r, 'e, 'h, 'c) NodeState \<Rightarrow> bool" where
  "splits_ok ps n \<longleftrightarrow> node_ok n \<and> unat (ns_next_region_id n) + length (filter waiting ps) < 2 ^ 64 \<and>
     (\<forall>p \<in> set ps. phase_ok n p) \<and>
     (\<forall>i j a. i < length ps \<longrightarrow> j < length ps \<longrightarrow> i \<noteq> j \<longrightarrow> new_id (ps ! i) = Some a \<longrightarrow> new_id (ps ! j) \<noteq> Some a)"

lemma length_filter_update:
  "i < length xs \<Longrightarrow> length (filter P (xs[i := x])) + (if P (xs ! i) then 1 else 0) =
     length (filter P xs) + (if P x then 1 else 0)"
proof (induction xs arbitrary: i)
  case (Cons y ys)
  show ?case
  proof (cases i)
    case (Suc j)
    with Cons.prems Cons.IH [of j] show ?thesis by simp
  qed simp
qed simp

text \<open>A step of one request.\<close>

lemma splits_ok_update:
  assumes ok: "splits_ok ps n" and i: "i < length ps" and n': "node_ok n'" "phase_ok n' p"
    and others: "\<And>j. j < length ps \<Longrightarrow> j \<noteq> i \<Longrightarrow> phase_ok n' (ps ! j)"
    and fresh: "\<And>j a. j < length ps \<Longrightarrow> j \<noteq> i \<Longrightarrow> new_id p = Some a \<Longrightarrow> new_id (ps ! j) \<noteq> Some a"
    and count: "unat (ns_next_region_id n') + (if waiting p then 1 else 0) \<le>
      unat (ns_next_region_id n) + (if waiting (ps ! i) then 1 else 0)"
  shows "splits_ok (ps[i := p]) n'"
proof -
  have old: "unat (ns_next_region_id n) + length (filter waiting ps) < 2 ^ 64"
    "\<And>j k a. j < length ps \<Longrightarrow> k < length ps \<Longrightarrow> j \<noteq> k \<Longrightarrow> new_id (ps ! j) = Some a \<Longrightarrow> new_id (ps ! k) \<noteq> Some a"
    using ok by (auto simp: splits_ok_def)
  have "unat (ns_next_region_id n') + length (filter waiting (ps[i := p])) < 2 ^ 64"
    using old(1) count length_filter_update [OF i, of waiting p] by (simp split: if_splits)
  moreover have "phase_ok n' q" if "q \<in> set (ps[i := p])" for q
    using that n'(2) others i by (auto simp: in_set_conv_nth nth_list_update split: if_splits)
  moreover have "new_id (ps[i := p] ! k) \<noteq> Some a"
    if "j < length ps" "k < length ps" "j \<noteq> k" "new_id (ps[i := p] ! j) = Some a" for j k a
    using that old(2) [of j k a] fresh [of j a] fresh [of k a]
    by (cases "j = i"; cases "k = i") (auto simp: nth_list_update)
  ultimately show ?thesis using n'(1) by (simp add: splits_ok_def)
qed

lemma splits_okD:
  assumes "splits_ok ps n"
  shows "node_ok n" "unat (ns_next_region_id n) + length (filter waiting ps) < 2 ^ 64"
    "j < length ps \<Longrightarrow> phase_ok n (ps ! j)"
    "i < length ps \<Longrightarrow> j < length ps \<Longrightarrow> j \<noteq> i \<Longrightarrow> new_id (ps ! i) = Some a \<Longrightarrow> new_id (ps ! j) \<noteq> Some a"
  using assms by (auto simp: splits_ok_def)

text \<open>Steps that leave the table as it is.\<close>

lemma splits_ok_same:
  assumes ok: "splits_ok ps n" and i: "i < length ps" and "node_ok n'" "created_ok p"
    and "ns_router n' = ns_router n" "ns_next_region_id n' = ns_next_region_id n"
    and "new_id p = None \<or> new_id p = new_id (ps ! i) \<and> before_split p = before_split (ps ! i)"
    and "waiting p \<Longrightarrow> waiting (ps ! i)"
  shows "splits_ok (ps[i := p]) n'"
proof (rule splits_ok_update [OF ok i assms(3)])
  have same: "phase_ok n' q \<longleftrightarrow> phase_ok n q" for q using assms(5,6) by (simp add: phase_ok_def region_ids_def)
  show "phase_ok n' p"
    using assms(4,7) splits_okD(3) [OF ok i] unfolding same by (auto simp: phase_ok_def)
  show "phase_ok n' (ps ! j)" if "j < length ps" for j using splits_okD(3) [OF ok that] unfolding same .
  show "new_id (ps ! j) \<noteq> Some a" if "j < length ps" "j \<noteq> i" "new_id p = Some a" for j a
    using splits_okD(4) [OF ok i that(1,2), of a] assms(7) that(3) by auto
qed (use assms(6,8) in auto)

lemma region_ids_below: "node_ok n \<Longrightarrow> a \<in> region_ids n \<Longrightarrow> a < ns_next_region_id n"
  by (auto simp: node_ok_def region_ids_def)

lemma splits_ok_alloc:
  assumes ok: "splits_ok ps n" and i: "i < length ps" and p: "ps ! i = Chosen rid k"
  shows "splits_ok (ps[i := Allocated rid k (ns_next_region_id n)]) (n\<lparr>ns_next_region_id := ns_next_region_id n + 1\<rparr>)"
proof (rule splits_ok_update [OF ok i])
  let ?n = "n\<lparr>ns_next_region_id := ns_next_region_id n + 1\<rparr>" and ?a = "ns_next_region_id n"
  have "ps ! i \<in> set (filter waiting ps)" using i p nth_mem [OF i] by simp
  then have "0 < length (filter waiting ps)" by (metis length_pos_if_in_set)
  with splits_okD(2) [OF ok] have room: "unat ?a + 1 < 2 ^ 64" by linarith
  note less = less_next(1) [OF _ room] less_next(2) [OF room]
  show "node_ok ?n" using splits_okD(1) [OF ok] less by (auto simp: node_ok_def)
  show "phase_ok ?n (Allocated rid k ?a)"
    using region_ids_below [OF splits_okD(1) [OF ok]] less(2) by (auto simp: phase_ok_def region_ids_def)
  show "phase_ok ?n (ps ! j)" if "j < length ps" for j
    using splits_okD(3) [OF ok that] less(1) by (auto simp: phase_ok_def region_ids_def)
  show "new_id (ps ! j) \<noteq> Some a" if "j < length ps" "new_id (Allocated rid k ?a) = Some a" for j a
    using splits_okD(3) [OF ok that(1)] that(2) by (auto simp: phase_ok_def)
  have "unat (?a + 1) = unat ?a + 1" using room by (subst unat_add_lem [THEN iffD1]) simp_all
  then show "unat (ns_next_region_id ?n) + (if waiting (Allocated rid k ?a) then 1 else 0) \<le>
      unat ?a + (if waiting (ps ! i) then 1 else 0)" by (simp add: p)
qed

text \<open>The split itself: the identifier of the request was not in the table, so the table stays tiled.\<close>

lemma splits_ok_split:
  assumes ok: "splits_ok ps n" and i: "i < length ps" and p: "ps ! i = Allocated rid k a"
    and s: "split_region rid k a (ns_router n) = (Inr (l, r), rt)"
  shows "splits_ok (ps[i := Split_Done a l r]) (n\<lparr>ns_router := rt\<rparr>)"
proof (rule splits_ok_update [OF ok i])
  let ?n = "n\<lparr>ns_router := rt\<rparr>"
  have a: "a < ns_next_region_id n" "a \<notin> region_ids n"
    using splits_okD(3) [OF ok i] p by (auto simp: phase_ok_def)
  then have fresh: "\<forall>r' \<in> regions (ns_router n). region_id r' \<noteq> a" by (auto simp: region_ids_def)
  have n: "node_ok n" and tiled: "tiled (ns_router n)" using splits_okD(1) [OF ok] by (simp_all add: node_ok_def)
  obtain r0 where r0: "get_region (ns_router n) rid = Some r0" "contains_key r0 k" "k \<noteq> start_key r0"
    using s by (rule split_region_accepts)
  obtain rt' where rt': "split_region rid k a (ns_router n) = (Inr (split_left r0 k, split_right r0 k a), rt')" "tiled rt'"
      "regions rt' = regions (ns_router n) - {r0} \<union> {split_left r0 k, split_right r0 k a}"
    by (rule split_region_tiled [OF tiled r0 fresh])
  with s have rt: "rt = rt'" by simp
  have r0_in: "r0 \<in> regions (ns_router n)"
    using r0(1) table_okD(4) [of "ns_router n"] tiled by (simp add: get_region_def tiled_def)
  have ids: "region_ids ?n = insert a (region_ids n)"
    using r0_in by (auto simp: region_ids_def rt rt'(3) split_left_def split_right_def image_iff)
  show "node_ok ?n"
    using n a(1) rt'(2) region_ids_below [OF n] ids
    by (auto simp: node_ok_def rt region_ids_def image_iff set_eq_iff) (metis)
  show "phase_ok ?n (Split_Done a l r)" using a(1) ids by (simp add: phase_ok_def)
  show "phase_ok ?n (ps ! j)" if "j < length ps" "j \<noteq> i" for j
    using splits_okD(3) [OF ok that(1)] splits_okD(4) [OF ok i that, of a] p ids by (auto simp: phase_ok_def)
  show "new_id (ps ! j) \<noteq> Some b" if "j < length ps" "j \<noteq> i" "new_id (Split_Done a l r) = Some b" for j b
    using splits_okD(4) [OF ok i that(1,2), of b] p that(3) by simp
qed (use p in simp)

lemma ar_error_split_failed [simp]: "ar_error (split_failed err) = err"
  by (simp add: split_failed_def)

lemma turn_ok:
  assumes "splits_ok ps (fst w)"
  shows "splits_ok (fst (turn pb R E i (ps, w))) (fst (snd (turn pb R E i (ps, w))))"
proof (cases "i < length ps")
  case i: True
  obtain n s where w: "w = (n, s)" by force
  with assms have ok: "splits_ok ps n" by simp
  have n: "node_ok n" by (rule splits_okD(1) [OF ok])
  note same = splits_ok_same [OF ok i n]
  show ?thesis
  proof (cases "ps ! i")
    case (Asked q)
    with i same show ?thesis by (auto simp: turn_def w split: option.split)
  next
    case (Found q r)
    obtain ko n1 s1 where c: "choose_split_key E (aq_split_key q) r w = (ko, n1, s1)" by (metis prod_cases3)
    moreover have "n1 = n" using choose_split_key_table [of E "aq_split_key q" r w] c w by simp
    ultimately show ?thesis using i same Found by (auto simp: turn_def w split: option.split)
  next
    case (Chosen rid k)
    with i splits_ok_alloc [OF ok i] show ?thesis by (simp add: turn_def w alloc_region_id_def)
  next
    case (Allocated rid k a)
    obtain x rt where x: "split_region rid k a (ns_router n) = (x, rt)" by force
    show ?thesis
    proof (cases x)
      case (Inl e)
      with x split_region_rejects [of rid k a "ns_router n" e] have "rt = ns_router n" by simp
      with i Allocated x Inl same [of "Answered (split_failed (Router_Text e))"] show ?thesis by (simp add: turn_def w)
    next
      case (Inr lr)
      obtain l r where "lr = (l, r)" by force
      with i Allocated x Inr splits_ok_split [OF ok i Allocated, of l r rt] show ?thesis by (simp add: turn_def w)
    qed
  next
    case (Split_Done a l r)
    obtain nd s1 where nd: "multi_raft_node_new pb R E a [sc_node_id (ns_config n)] (node_raft_config (ns_config n)) s = (nd, s1)"
      by force
    then have "created_ok (Created a l r nd)" by (cases nd) (auto dest: multi_raft_node_new_region)
    with i Split_Done nd same [of "Created a l r nd"] show ?thesis by (simp add: turn_def w)
  next
    case (Created a l r nd)
    let ?n = "n\<lparr>ns_raft_nodes := (case nd of Inr x \<Rightarrow> (ns_raft_nodes n)(a \<mapsto> x) | Inl _ \<Rightarrow> ns_raft_nodes n)\<rparr>"
    have "phase_ok n (Created a l r nd)" using splits_okD(3) [OF ok i] Created by simp
    with n have "node_ok ?n" by (cases nd) (auto simp: node_ok_def phase_ok_def split: if_splits)
    from splits_ok_same [OF ok i this, of "fst (split_step pb R E (Created a l r nd) w)"] i Created
    show ?thesis by (simp add: turn_def w)
  next
    case (Answered resp)
    with i ok show ?thesis by (simp add: turn_def w list_update_same_conv [THEN iffD2])
  qed
qed (use assms in \<open>simp add: turn_def\<close>)

lemma run_ok: "splits_run pb R pm E x y \<Longrightarrow> splits_ok (fst x) (fst (snd x)) \<Longrightarrow> splits_ok (fst y) (fst (snd y))"
proof (induction rule: splits_run.induct)
  case (run_turn y i)
  then show ?case using turn_ok [of "fst y" "snd y" pb R E i] by simp
next
  case (run_other ps w q)
  from node_serve_table [OF run_other(2), of w pb R pm E] run_other(3,4) show ?case
    by (auto simp: splits_ok_def same_table_def phase_ok_def region_ids_def)
qed

lemma run_length: "splits_run pb R pm E x y \<Longrightarrow> length (fst y) = length (fst x)"
  by (induction rule: splits_run.induct) (auto simp: turn_def split: prod.split)

section \<open>Property\<close>

text \<open>C22. Concurrent splits. When split requests run at the same time on a node, their steps in any
  order and with other requests between them, and whatever the engine answers, the regions
  partition the key space at every moment and every key is routed to the region that contains it;
  two requests that succeeded made different regions, and both are in the table. Alone, the steps
  of a request are the handler.\<close>

theorem concurrent_splits_partition_keys:
  assumes "node_ok n" "unat (ns_next_region_id n) + length qs < 2 ^ 64"
    and "splits_run pb R pm E (map Asked qs, n, s) (ps, n', s')"
  shows "node_ok n' \<and> (\<exists>r. route_key (ns_router n') key = Inr r \<and> contains_key r key) \<and>
    (\<forall>i < length qs. \<forall>a. ps ! i = Answered a \<longrightarrow> ar_error a = No_Text \<longrightarrow>
       (\<exists>r \<in> regions (ns_router n'). region_id r = ar_new_region_id a) \<and>
       (\<forall>j < length qs. \<forall>b. i \<noteq> j \<longrightarrow> ps ! j = Answered b \<longrightarrow> ar_error b = No_Text \<longrightarrow>
          ar_new_region_id b \<noteq> ar_new_region_id a)) \<and>
    (\<forall>q. split_steps pb R E 6 (Asked q, n, s) = (case kv_ask_split pb R E q (n, s) of
       (Inr resp, w') \<Rightarrow> (Answered resp, w') | (Inl e, w') \<Rightarrow> (Asked q, w')))"
proof -
  have "splits_ok (map Asked qs) n"
    using assms(1,2) by (auto simp: splits_ok_def phase_ok_def)
  with run_ok [OF assms(3)] have ok: "splits_ok ps n'" by simp
  have len: "length ps = length qs" using run_length [OF assms(3)] by simp
  have "tiled (ns_router n')" using splits_okD(1) [OF ok] by (simp add: node_ok_def)
  then obtain r where "route_key (ns_router n') key = Inr r" "contains_key r key" by (rule route_key_tiled)
  moreover have "\<exists>r \<in> regions (ns_router n'). region_id r = ar_new_region_id a"
    if "i < length qs" "ps ! i = Answered a" "ar_error a = No_Text" for i a
    using splits_okD(3) [OF ok, of i] that len by (auto simp: phase_ok_def region_ids_def)
  moreover have "ar_new_region_id b \<noteq> ar_new_region_id a"
    if "i < length qs" "ps ! i = Answered a" "ar_error a = No_Text" "j < length qs" "i \<noteq> j" "ps ! j = Answered b" "ar_error b = No_Text"
    for i j a b
    using splits_okD(4) [OF ok, of i j "ar_new_region_id a"] that len by auto
  ultimately show ?thesis using splits_okD(1) [OF ok] split_steps_handler by blast
qed

definition split_requests :: "AskSplitRequest list" where
  "split_requests = [\<lparr>aq_region_id = 1, aq_split_key = [5]\<rparr>, \<lparr>aq_region_id = 1, aq_split_key = [3]\<rparr>]"

definition split_turns :: "nat list" where
  "split_turns = [0, 1, 0, 1, 1, 0, 0, 1, 1, 0, 0, 1]"

definition split_run where
  "split_run = foldl (\<lambda>y i. turn plain_pb solo mem_env i y) (map Asked split_requests, solo_server (mem_init [])) split_turns"

theorem concurrent_splits_partition_keys_witness:
  "map new_id (fst split_run) = [Some 3, Some 2] \<and> node_ok (fst (snd split_run))"
proof -
  let ?turn = "\<lambda>y i. turn plain_pb solo mem_env i y" and ?w = "solo_server (mem_init [])"
  have "splits_run plain_pb solo Some mem_env (map Asked split_requests, ?w) (foldl ?turn (map Asked split_requests, ?w) is)" for "is"
    by (induction "is" rule: rev_induct) (auto intro: splits_run.intros)
  then have run: "splits_run plain_pb solo Some mem_env (map Asked split_requests, fst ?w, snd ?w)
      (fst split_run, fst (snd split_run), snd (snd split_run))"
    by (simp add: split_run_def)
  have start: "node_ok (fst ?w)" "unat (ns_next_region_id (fst ?w)) + length split_requests < 2 ^ 64"
    using node_state_new_ok [OF solo_server, of "mem_init []"] by (simp_all add: split_requests_def)
  have "map new_id (fst split_run) = [Some 3, Some 2]" by code_simp
  with concurrent_splits_partition_keys [OF start run] show ?thesis by blast
qed

end
