(* ===== verification/Batch_Collector.thy ===== *)
theory Batch_Collector
  imports Client_System
begin

text \<open>
  The batch collector of the client as a system: submitters, two bounded channels, two workers and
  the server, whose steps interleave in any order (\<^verbatim>\<open>crates/client/src/client.rs\<close>). A line is one
  channel with its worker. Shown: every submitted item is in one place, in the order of submission;
  the bounds of the channel and of a batch; that no item gets stuck; and that a line on its own
  computes the function \<open>worker\<close>.
\<close>

section \<open>A channel and its worker\<close>

text \<open>The worker collects a batch, sends a batch one item after the other, or has returned; then
  the items it had collected are dropped.\<close>

datatype 'i mode = Collecting "'i list" | Flushing "'i list" | Stopped "'i list"

record ('i, 'a) line =
  l_queue :: "'i list"
  l_open :: bool
  l_mode :: "'i mode"
  l_answers :: "('i \<times> 'a) list"

text \<open>An item put on the channel, an item taken from it (or its end), the end of the flush
  interval, a call to the server, and the drop of the last sender.\<close>

datatype 'i act = A_Send 'i | A_Receive | A_Timeout | A_Call | A_Drop

definition channel_capacity :: nat where
  "channel_capacity = 1024"

definition collected :: "nat \<Rightarrow> 'i list \<Rightarrow> 'i mode" where
  "collected batch_size items = (if batch_size \<le> length items then Flushing items else Collecting items)"

definition flushed :: "'i list \<Rightarrow> 'i mode" where
  "flushed items = (if items = [] then Collecting [] else Flushing items)"

text \<open>A step that cannot happen in a state is \<open>None\<close>: a send waits while the channel is full, a
  receive while it is empty and open.\<close>

fun line_step ::
  "nat \<Rightarrow> ('i \<Rightarrow> 'w \<Rightarrow> 'a \<times> 'w) \<Rightarrow> 'i act \<Rightarrow> ('i, 'a) line \<times> 'w \<Rightarrow> (('i, 'a) line \<times> 'w) option" where
  "line_step batch_size send (A_Send item) (l, w) =
     (if l_open l \<and> length (l_queue l) < channel_capacity
      then Some (l\<lparr>l_queue := l_queue l @ [item]\<rparr>, w) else None)"
| "line_step batch_size send A_Receive (l, w) =
     (case l_mode l of
        Collecting items \<Rightarrow>
          (case l_queue l of
             item # queue \<Rightarrow> Some (l\<lparr>l_queue := queue, l_mode := collected batch_size (items @ [item])\<rparr>, w)
           | [] \<Rightarrow> if l_open l then None else Some (l\<lparr>l_mode := Stopped items\<rparr>, w))
      | _ \<Rightarrow> None)"
| "line_step batch_size send A_Timeout (l, w) =
     (case l_mode l of Collecting items \<Rightarrow> Some (l\<lparr>l_mode := flushed items\<rparr>, w) | _ \<Rightarrow> None)"
| "line_step batch_size send A_Call (l, w) =
     (case l_mode l of
        Flushing (item # items) \<Rightarrow>
          (case send item w of (res, w') \<Rightarrow>
             Some (l\<lparr>l_mode := flushed items, l_answers := l_answers l @ [(item, res)]\<rparr>, w'))
      | _ \<Rightarrow> None)"
| "line_step batch_size send A_Drop (l, w) = Some (l\<lparr>l_open := False\<rparr>, w)"

fun line_run ::
  "nat \<Rightarrow> ('i \<Rightarrow> 'w \<Rightarrow> 'a \<times> 'w) \<Rightarrow> 'i act list \<Rightarrow> ('i, 'a) line \<times> 'w \<Rightarrow> (('i, 'a) line \<times> 'w) option" where
  "line_run batch_size send [] x = Some x"
| "line_run batch_size send (a # acts) x = Option.bind (line_step batch_size send a x) (line_run batch_size send acts)"

definition new_line :: "('i, 'a) line" where
  "new_line = \<lparr>l_queue = [], l_open = True, l_mode = Collecting [], l_answers = []\<rparr>"

section \<open>The collector\<close>

record BatchCollector =
  prewrite_line :: "(PrewriteItem, ClientError + unit) line"
  commit_line :: "(CommitItem, ClientError + unit) line"

definition collector_new :: BatchCollector where
  "collector_new = \<lparr>prewrite_line = new_line, commit_line = new_line\<rparr>"

definition send_prewrite :: "'w stubs \<Rightarrow> PrewriteItem \<Rightarrow> 'w \<Rightarrow> (ClientError + unit) \<times> 'w" where
  "send_prewrite S item =
     client_batch_prewrite S (pi_start_ts item) (pi_mutations item) (pi_primary_key item) (pi_lock_ttl item)"

definition send_commit :: "'w stubs \<Rightarrow> CommitItem \<Rightarrow> 'w \<Rightarrow> (ClientError + unit) \<times> 'w" where
  "send_commit S item = client_batch_commit S (ci_start_ts item) (ci_commit_ts item) (ci_keys item)"

text \<open>Between the calls of the collector the server may change in any way.\<close>

datatype 'w label = Prewrite_Line "PrewriteItem act" | Commit_Line "CommitItem act" | Others 'w

fun collector_step :: "'w stubs \<Rightarrow> nat \<Rightarrow> 'w label \<Rightarrow> BatchCollector \<times> 'w \<Rightarrow> (BatchCollector \<times> 'w) option" where
  "collector_step S batch_size (Prewrite_Line a) (c, w) =
     map_option (\<lambda>(l, w'). (c\<lparr>prewrite_line := l\<rparr>, w')) (line_step batch_size (send_prewrite S) a (prewrite_line c, w))"
| "collector_step S batch_size (Commit_Line a) (c, w) =
     map_option (\<lambda>(l, w'). (c\<lparr>commit_line := l\<rparr>, w')) (line_step batch_size (send_commit S) a (commit_line c, w))"
| "collector_step S batch_size (Others w') (c, w) = Some (c, w')"

inductive collector_reach :: "'w stubs \<Rightarrow> nat \<Rightarrow> 'w label list \<Rightarrow> BatchCollector \<times> 'w \<Rightarrow> bool" for S batch_size where
  reach_new: "collector_reach S batch_size [] (collector_new, w)"
| reach_more: "collector_reach S batch_size labels x \<Longrightarrow> collector_step S batch_size label x = Some y \<Longrightarrow>
    collector_reach S batch_size (labels @ [label]) y"

text \<open>What the submitter of the \<open>i\<close>-th item of a line has got: the answer, an error when the worker
  returned before sending the item, nothing yet.\<close>

definition submitted_result :: "nat \<Rightarrow> ('i, ClientError + unit) line \<Rightarrow> (ClientError + unit) option" where
  "submitted_result i l =
     (if i < length (l_answers l) then Some (snd (l_answers l ! i))
      else case l_mode l of Stopped _ \<Rightarrow> Some (Inl Ce_ChannelClosed) | _ \<Rightarrow> None)"

section \<open>Items are kept in order\<close>

fun sends :: "'i act list \<Rightarrow> 'i list" where
  "sends [] = []"
| "sends (A_Send i # acts) = i # sends acts"
| "sends (_ # acts) = sends acts"

definition held_items :: "'i mode \<Rightarrow> 'i list" where
  "held_items m = (case m of Collecting is \<Rightarrow> is | Flushing is \<Rightarrow> is | Stopped is \<Rightarrow> is)"

fun mode_ok :: "nat \<Rightarrow> ('i, 'a) line \<Rightarrow> 'i mode \<Rightarrow> bool" where
  "mode_ok n l (Collecting is) \<longleftrightarrow> length is < max 1 n"
| "mode_ok n l (Flushing is) \<longleftrightarrow> is \<noteq> [] \<and> length is \<le> max 1 n"
| "mode_ok n l (Stopped is) \<longleftrightarrow> length is < max 1 n \<and> \<not> l_open l \<and> l_queue l = []"

definition line_ok :: "nat \<Rightarrow> 'i list \<Rightarrow> ('i, 'a) line \<Rightarrow> bool" where
  "line_ok n sent l \<longleftrightarrow> sent = map fst (l_answers l) @ held_items (l_mode l) @ l_queue l \<and>
     length (l_queue l) \<le> channel_capacity \<and> mode_ok n l (l_mode l)"

lemma sends_append [simp]: "sends (acts @ acts') = sends acts @ sends acts'"
  by (induction acts rule: sends.induct) simp_all

lemma held_items_simps [simp]:
  "held_items (Collecting is) = is" "held_items (Flushing is) = is" "held_items (Stopped is) = is"
  "held_items (flushed is) = is" "held_items (collected n is) = is"
  by (simp_all add: held_items_def flushed_def collected_def)

lemma line_ok_new: "line_ok n [] new_line"
  by (simp add: line_ok_def new_line_def)

lemma line_ok_answers: "line_ok n sent l \<Longrightarrow> i < length (l_answers l) \<Longrightarrow> fst (l_answers l ! i) = sent ! i"
  by (simp add: line_ok_def nth_append)

lemma mode_ok_flushed [simp]: "mode_ok n l (flushed is) \<longleftrightarrow> length is \<le> max 1 n"
  by (auto simp: flushed_def)

lemma mode_ok_collected [simp]: "is \<noteq> [] \<Longrightarrow> mode_ok n l (collected n is) \<longleftrightarrow> length is \<le> max 1 n"
  by (auto simp: collected_def)

lemma line_step_ok:
  assumes "line_step n send a (l, w) = Some (l', w')" "line_ok n sent l"
  shows "line_ok n (sent @ sends [a]) l'"
proof (cases a)
  case A_Receive
  with assms show ?thesis
    by (auto simp: line_ok_def split: mode.splits list.splits if_splits)
next
  case A_Call
  with assms show ?thesis
    by (auto simp: line_ok_def split: mode.splits list.splits prod.splits if_splits)
next
  case (A_Send i)
  with assms show ?thesis
    by (cases "l_mode l") (auto simp: line_ok_def split: if_splits)
next
  case A_Drop
  with assms show ?thesis
    by (cases "l_mode l") (auto simp: line_ok_def)
qed (use assms in \<open>auto simp: line_ok_def split: mode.splits\<close>)

fun prewrite_acts :: "'w label list \<Rightarrow> PrewriteItem act list" where
  "prewrite_acts [] = []"
| "prewrite_acts (Prewrite_Line a # labels) = a # prewrite_acts labels"
| "prewrite_acts (_ # labels) = prewrite_acts labels"

fun commit_acts :: "'w label list \<Rightarrow> CommitItem act list" where
  "commit_acts [] = []"
| "commit_acts (Commit_Line a # labels) = a # commit_acts labels"
| "commit_acts (_ # labels) = commit_acts labels"

lemma acts_append [simp]:
  "prewrite_acts (labels @ labels') = prewrite_acts labels @ prewrite_acts labels'"
  "commit_acts (labels @ labels') = commit_acts labels @ commit_acts labels'"
  by (induction labels rule: prewrite_acts.induct) (simp_all)

lemma reach_line_ok:
  "collector_reach S n labels x \<Longrightarrow>
     line_ok n (sends (prewrite_acts labels)) (prewrite_line (fst x)) \<and>
     line_ok n (sends (commit_acts labels)) (commit_line (fst x))"
proof (induction rule: collector_reach.induct)
  case (reach_more labels x label y)
  then show ?case
    by (cases x; cases label) (auto dest: line_step_ok)
qed (simp add: collector_new_def line_ok_new)

section \<open>No item gets stuck\<close>

lemma line_run_append:
  "line_run n send (acts @ acts') x = Option.bind (line_run n send acts x) (line_run n send acts')"
  by (induction acts arbitrary: x) (auto split: bind_splits)

text \<open>The calls of a batch.\<close>

lemma line_run_calls:
  "l_mode l = flushed items \<Longrightarrow> \<exists>w' out. map fst out = items \<and> line_run n send (replicate (length items) A_Call) (l, w) =
     Some (l\<lparr>l_mode := Collecting [], l_answers := l_answers l @ out\<rparr>, w')"
proof (induction items arbitrary: l w)
  case Nil
  then show ?case by (intro exI [of _ w] exI [of _ "[]"]) (simp add: flushed_def)
next
  case (Cons i items)
  obtain r w1 where s: "send i w = (r, w1)" by force
  let ?l = "l\<lparr>l_mode := flushed items, l_answers := l_answers l @ [(i, r)]\<rparr>"
  from Cons.IH [of ?l w1] obtain w' out where "map fst out = items" "line_run n send (replicate (length items) A_Call) (?l, w1) =
      Some (?l\<lparr>l_mode := Collecting [], l_answers := l_answers ?l @ out\<rparr>, w')" by auto
  with Cons.prems s show ?case
    by (intro exI [of _ w'] exI [of _ "(i, r) # out"]) (simp add: flushed_def)
qed

text \<open>The line can answer everything it holds: the steps are its own, and at most three for each item.\<close>

definition drains :: "nat \<Rightarrow> ('i \<Rightarrow> 'w \<Rightarrow> 'a \<times> 'w) \<Rightarrow> ('i, 'a) line \<Rightarrow> 'w \<Rightarrow> bool" where
  "drains n send l w \<longleftrightarrow> (\<exists>acts l' w'. sends acts = [] \<and> line_run n send acts (l, w) = Some (l', w') \<and>
     length acts \<le> 3 * length (held_items (l_mode l) @ l_queue l) \<and> l_queue l' = [] \<and> l_mode l' = Collecting [] \<and>
     map fst (l_answers l') = map fst (l_answers l) @ held_items (l_mode l) @ l_queue l)"

lemma sends_calls [simp]: "sends (replicate k A_Call) = []"
  by (induction k) simp_all

text \<open>A batch sent, and then the rest.\<close>

lemma drains_batch:
  assumes "l_mode l = flushed items" "l_queue l = q"
    and "\<And>l' w'. l_queue l' = q \<Longrightarrow> l_mode l' = Collecting [] \<Longrightarrow> drains n send l' w'"
  shows "\<exists>acts l' w'. sends acts = [] \<and> line_run n send acts (l, w) = Some (l', w') \<and>
     length acts \<le> length items + 3 * length q \<and> l_queue l' = [] \<and> l_mode l' = Collecting [] \<and>
     map fst (l_answers l') = map fst (l_answers l) @ items @ q"
proof -
  obtain out w1 where out: "map fst out = items" "line_run n send (replicate (length items) A_Call) (l, w) =
      Some (l\<lparr>l_mode := Collecting [], l_answers := l_answers l @ out\<rparr>, w1)" (is "_ = Some (?l, _)")
    using line_run_calls [OF assms(1), of n send w] by blast
  have "drains n send ?l w1" by (rule assms(3)) (simp_all add: assms(2))
  then obtain acts l' w' where rest: "sends acts = []" "line_run n send acts (?l, w1) = Some (l', w')"
    "length acts \<le> 3 * length q" "l_queue l' = []" "l_mode l' = Collecting []"
    "map fst (l_answers l') = map fst (l_answers l) @ items @ q"
    using out(1) assms(2) by (auto simp: drains_def)
  with out(2) show ?thesis
    by (intro exI [of _ "replicate (length items) A_Call @ acts"] exI [of _ l'] exI [of _ w']) (simp add: line_run_append)
qed

lemma line_drains_collecting: "l_mode l = Collecting items \<Longrightarrow> drains n send l w"
proof (induction "l_queue l" arbitrary: l items w)
  case (Nil l items w)
  have idle: "drains n send l' w'" if "l_queue l' = []" "l_mode l' = Collecting []" for l' w'
    unfolding drains_def using that by (intro exI [of _ "[]"]) simp
  let ?l = "l\<lparr>l_mode := flushed items\<rparr>"
  have "l_mode ?l = flushed items" "l_queue ?l = []" using Nil.hyps by simp_all
  from drains_batch [OF this idle, of w] obtain acts l' w' where rest:
    "sends acts = []" "line_run n send acts (?l, w) = Some (l', w')" "length acts \<le> length items"
    "l_queue l' = []" "l_mode l' = Collecting []" "map fst (l_answers l') = map fst (l_answers l) @ items"
    by auto
  show ?case
  proof (cases items)
    case Nil
    with \<open>[] = l_queue l\<close> \<open>l_mode l = _\<close> idle show ?thesis by simp
  next
    case (Cons i items')
    with rest \<open>[] = l_queue l\<close> \<open>l_mode l = _\<close> show ?thesis
      unfolding drains_def by (intro exI [of _ "A_Timeout # acts"] exI [of _ l'] exI [of _ w']) simp
  qed
next
  case (Cons i q l items w)
  let ?l = "l\<lparr>l_queue := q, l_mode := flushed (items @ [i])\<rparr>"
  have "drains n send l' w'" if "l_queue l' = q" "l_mode l' = Collecting []" for l' w'
    using Cons.hyps(1) that by simp
  moreover have "l_mode ?l = flushed (items @ [i])" "l_queue ?l = q" by simp_all
  ultimately obtain acts l' w' where rest:
    "sends acts = []" "line_run n send acts (?l, w) = Some (l', w')" "length acts \<le> length (items @ [i]) + 3 * length q"
    "l_queue l' = []" "l_mode l' = Collecting []" "map fst (l_answers l') = map fst (l_answers ?l) @ (items @ [i]) @ q"
    using drains_batch [of ?l "items @ [i]" q n send w] by blast
  let ?acts = "A_Receive # (if n \<le> Suc (length items) then [] else [A_Timeout]) @ acts"
  have "line_run n send ?acts (l, w) = Some (l', w')"
    using Cons.hyps(2) [symmetric] Cons.prems rest(2) by (simp add: collected_def flushed_def)
  with rest Cons.hyps(2) [symmetric] Cons.prems show ?case
    unfolding drains_def by (intro exI [of _ ?acts] exI [of _ l'] exI [of _ w']) simp
qed

lemma line_drains:
  assumes "line_ok n sent l" "\<forall>is. l_mode l \<noteq> Stopped is"
  shows "drains n send l w"
proof (cases "l_mode l")
  case (Flushing items)
  with assms(1) have mode: "l_mode l = flushed items" by (simp add: line_ok_def flushed_def)
  have "drains n send l' w'" if "l_queue l' = l_queue l" "l_mode l' = Collecting []" for l' w'
    using that(2) by (rule line_drains_collecting)
  from drains_batch [OF mode refl this, of w] obtain acts l' w' where
    "sends acts = []" "line_run n send acts (l, w) = Some (l', w')" "length acts \<le> length items + 3 * length (l_queue l)"
    "l_queue l' = []" "l_mode l' = Collecting []" "map fst (l_answers l') = map fst (l_answers l) @ items @ l_queue l"
    by blast
  with Flushing show ?thesis
    unfolding drains_def by (intro exI [of _ acts] exI [of _ l'] exI [of _ w']) simp
next
  case (Collecting items)
  then show ?thesis by (rule line_drains_collecting)
qed (simp add: assms(2))

section \<open>A line on its own is the worker\<close>

lemma worker_snoc:
  assumes "worker n send evs items w = (out, p, w')" "Closed \<notin> set evs"
  shows "worker n send (evs @ [Closed]) items w = (out, p, w')"
    and "flush send p w' = (out2, w2) \<Longrightarrow> worker n send (evs @ [Timeout]) items w = (out @ out2, [], w2)"
    and "flush send (p @ [i]) w' = (out2, w2) \<Longrightarrow> worker n send (evs @ [Recv i]) items w =
      (if n \<le> length (p @ [i]) then (out @ out2, [], w2) else (out, p @ [i], w'))"
  using assms
  by (induction n send evs items w arbitrary: out p w' rule: worker.induct) (auto split: prod.splits if_splits)

lemma worker_receives:
  "worker n send evs items w = (out, p, w') \<Longrightarrow> items @ received evs = map fst out @ p"
proof (induction n send evs items w arbitrary: out p w' rule: worker.induct)
  case (3 n send evs items w)
  then show ?case using flush_items [of send items w] by (auto split: prod.splits)
next
  case (4 n send i evs items w)
  then show ?case using flush_items [of send "items @ [i]" w] by (auto split: prod.splits if_splits)
qed simp_all

text \<open>The state of a line is that of the worker after some events; a batch being sent is one the
  worker has sent already.\<close>

definition as_worker ::
  "nat \<Rightarrow> ('i \<Rightarrow> 'w \<Rightarrow> 'a \<times> 'w) \<Rightarrow> 'w \<Rightarrow> ('i, 'a) line \<times> 'w \<Rightarrow> 'i event list \<Rightarrow> bool" where
  "as_worker n send w0 x evs \<longleftrightarrow> (case x of (l, w) \<Rightarrow> (case l_mode l of
     Collecting items \<Rightarrow> Closed \<notin> set evs \<and> worker n send evs [] w0 = (l_answers l, items, w)
   | Flushing items \<Rightarrow> Closed \<notin> set evs \<and>
       (case flush send items w of (out, w') \<Rightarrow> worker n send evs [] w0 = (l_answers l @ out, [], w'))
   | Stopped items \<Rightarrow> worker n send evs [] w0 = (l_answers l, items, w)))"

lemma line_step_worker:
  assumes "line_step n send a x = Some y" "as_worker n send w0 x evs"
  shows "\<exists>evs'. as_worker n send w0 y evs'"
proof -
  obtain l w where x: "x = (l, w)" by force
  show ?thesis
  proof (cases a)
    case A_Timeout
    with assms(1) x obtain items where items: "l_mode l = Collecting items" "y = (l\<lparr>l_mode := flushed items\<rparr>, w)"
      by (auto split: mode.splits)
    obtain out w' where out: "flush send items w = (out, w')" by force
    from assms(2) items(1) x have "Closed \<notin> set evs" "worker n send evs [] w0 = (l_answers l, items, w)"
      by (simp_all add: as_worker_def)
    with worker_snoc(2) [OF this(2,1) out] have "as_worker n send w0 y (evs @ [Timeout])"
      using items(2) out by (auto simp: as_worker_def flushed_def)
    then show ?thesis ..
  next
    case A_Receive
    with assms(1) x obtain items where items: "l_mode l = Collecting items"
      by (auto split: mode.splits)
    from assms(2) items(1) x have evs: "Closed \<notin> set evs" "worker n send evs [] w0 = (l_answers l, items, w)"
      by (simp_all add: as_worker_def)
    show ?thesis
    proof (cases "l_queue l")
      case Nil
      with assms(1) x A_Receive items have "y = (l\<lparr>l_mode := Stopped items\<rparr>, w)" by (simp split: if_splits)
      with worker_snoc(1) [OF evs(2,1)] have "as_worker n send w0 y (evs @ [Closed])" by (simp add: as_worker_def)
      then show ?thesis ..
    next
      case (Cons i q)
      obtain out w' where out: "flush send (items @ [i]) w = (out, w')" by force
      from Cons assms(1) x A_Receive items
      have y: "y = (l\<lparr>l_queue := q, l_mode := collected n (items @ [i])\<rparr>, w)" by simp
      from worker_snoc(3) [OF evs(2,1) out] evs(1) out have "as_worker n send w0 y (evs @ [Recv i])"
        unfolding y by (auto simp: as_worker_def collected_def)
      then show ?thesis ..
    qed
  next
    case A_Call
    with assms x have "as_worker n send w0 y evs"
      by (auto simp: as_worker_def flushed_def split: mode.splits list.splits prod.splits if_splits)
    then show ?thesis ..
  next
    case (A_Send i)
    with assms x have "as_worker n send w0 y evs"
      by (cases "l_mode l") (auto simp: as_worker_def split: if_splits)
    then show ?thesis ..
  next
    case A_Drop
    with assms x have "as_worker n send w0 y evs"
      by (cases "l_mode l") (auto simp: as_worker_def)
    then show ?thesis ..
  qed
qed

lemma line_run_ok:
  "line_run n send acts (new_line, w0) = Some x \<Longrightarrow> line_ok n (sends acts) (fst x)"
proof (induction acts arbitrary: x rule: rev_induct)
  case Nil
  then show ?case by (auto simp: line_ok_new)
next
  case (snoc a acts)
  from snoc.prems obtain l w where y: "line_run n send acts (new_line, w0) = Some (l, w)" "line_step n send a (l, w) = Some x"
    by (auto simp: line_run_append split: bind_splits)
  with snoc.IH [OF y(1)] line_step_ok [of n send a l w "fst x" "snd x"] show ?case by simp
qed

lemma line_run_worker:
  "line_run n send acts (new_line, w0) = Some x \<Longrightarrow> \<exists>evs. as_worker n send w0 x evs"
proof (induction acts arbitrary: x rule: rev_induct)
  case Nil
  then show ?case by (intro exI [of _ "[]"]) (auto simp: as_worker_def new_line_def)
next
  case (snoc a acts)
  from snoc.prems obtain y where y: "line_run n send acts (new_line, w0) = Some y" "line_step n send a y = Some x"
    by (auto simp: line_run_append split: bind_splits)
  from snoc.IH [OF y(1)] line_step_worker [OF y(2)] show ?case by blast
qed

section \<open>Properties\<close>

text \<open>C33. The batch collector loses and reorders nothing while it runs. However its submitters, its
  two workers and the server interleave, on either line the items submitted are those answered,
  then those in the batch, then those on the channel, in the order of submission; the channel holds
  at most 1024 items and a batch at most \<open>batch_size\<close> of them; a submitter gets the answer to its
  own item; a worker that has not returned can answer everything with steps of its own, three for
  each item; and one that has returned had an empty channel without senders.\<close>

theorem collector_keeps_items:
  assumes "collector_reach S n labels (c, w)"
  shows "(let sent = sends (prewrite_acts labels); l = prewrite_line c in line_ok n sent l \<and>
      (\<forall>i < length (l_answers l). fst (l_answers l ! i) = sent ! i) \<and>
      ((\<forall>is. l_mode l \<noteq> Stopped is) \<longrightarrow> drains n (send_prewrite S) l w)) \<and>
    (let sent = sends (commit_acts labels); l = commit_line c in line_ok n sent l \<and>
      (\<forall>i < length (l_answers l). fst (l_answers l ! i) = sent ! i) \<and>
      ((\<forall>is. l_mode l \<noteq> Stopped is) \<longrightarrow> drains n (send_commit S) l w))"
proof -
  from reach_line_ok [OF assms] have ok: "line_ok n (sends (prewrite_acts labels)) (prewrite_line c)"
    "line_ok n (sends (commit_acts labels)) (commit_line c)" by simp_all
  then show ?thesis
    using line_drains [OF ok(1), where send = "send_prewrite S" and w = w]
      line_drains [OF ok(2), where send = "send_commit S" and w = w] line_ok_answers [OF ok(1)] line_ok_answers [OF ok(2)]
    by (simp add: Let_def)
qed

definition example_item :: PrewriteItem where
  "example_item = \<lparr>pi_start_ts = 5, pi_mutations = [([1], Some [11])], pi_primary_key = [1], pi_lock_ttl = 3000\<rparr>"

theorem collector_keeps_items_witness:
  "drains 2 (send_prewrite solo_stubs)
     \<lparr>l_queue = [example_item], l_open = True, l_mode = Collecting [example_item], l_answers = []\<rparr> (solo_server (mem_init []))"
proof -
  let ?S = solo_stubs and ?w = "solo_server (mem_init [])"
  let ?l = "\<lambda>q m. collector_new\<lparr>prewrite_line := \<lparr>l_queue = q, l_open = True, l_mode = m, l_answers = []\<rparr>\<rparr>"
  have "collector_reach ?S 2 [] (collector_new, ?w)" by (rule reach_new)
  from reach_more [OF this, of "Prewrite_Line (A_Send example_item)" "(?l [example_item] (Collecting []), ?w)"]
  have "collector_reach ?S 2 [Prewrite_Line (A_Send example_item)] (?l [example_item] (Collecting []), ?w)"
    by (simp add: collector_new_def new_line_def channel_capacity_def)
  from reach_more [OF this, of "Prewrite_Line A_Receive" "(?l [] (Collecting [example_item]), ?w)"]
  have "collector_reach ?S 2 [Prewrite_Line (A_Send example_item), Prewrite_Line A_Receive]
      (?l [] (Collecting [example_item]), ?w)"
    by (simp add: collector_new_def new_line_def collected_def)
  from reach_more [OF this, of "Prewrite_Line (A_Send example_item)" "(?l [example_item] (Collecting [example_item]), ?w)"]
  have "collector_reach ?S 2 [Prewrite_Line (A_Send example_item), Prewrite_Line A_Receive, Prewrite_Line (A_Send example_item)]
      (?l [example_item] (Collecting [example_item]), ?w)"
    by (simp add: collector_new_def new_line_def channel_capacity_def)
  from collector_keeps_items [OF this] show ?thesis by (simp add: Let_def)
qed

text \<open>A line of the collector that is alone with the server computes the function \<open>worker\<close>, on events
  that receive the submitted items in their order, those still on the channel apart; a batch that
  is being sent is one the worker has sent.\<close>

lemma collector_line_is_worker:
  assumes "line_run n send acts (new_line, w0) = Some (l, w)"
  shows "\<exists>evs. received evs @ l_queue l = sends acts \<and> (case l_mode l of
     Collecting items \<Rightarrow> worker n send evs [] w0 = (l_answers l, items, w)
   | Flushing items \<Rightarrow> worker n send evs [] w0 =
       (l_answers l @ fst (flush send items w), [], snd (flush send items w))
   | Stopped items \<Rightarrow> worker n send evs [] w0 = (l_answers l, items, w))"
proof -
  from line_run_worker [OF assms] obtain evs where evs: "as_worker n send w0 (l, w) evs" ..
  have "sends acts = map fst (l_answers l) @ held_items (l_mode l) @ l_queue l"
    using line_run_ok [OF assms] by (simp add: line_ok_def)
  moreover have "flush send xs w = (out, w') \<Longrightarrow> map fst out = xs" for xs out w'
    using flush_items [of send xs w] by simp
  ultimately have "received evs @ l_queue l = sends acts"
    using evs
    by (auto simp: as_worker_def worker_receives [where evs = evs and items = "[]", simplified]
        split: mode.splits prod.splits)
  with evs show ?thesis by (auto simp: as_worker_def split: mode.splits prod.splits)
qed

lemma collector_line_is_worker_example:
  "\<exists>evs. received evs = [1, 2] \<and> worker 2 (\<lambda>i (w :: nat list). (i, i # w)) evs [] [] = ([(1, 1), (2, 2)], [], [2, 1])"
proof -
  have "line_run 2 (\<lambda>i (w :: nat list). (i, i # w)) [A_Send 1, A_Receive, A_Send 2, A_Receive, A_Call, A_Send 3] (new_line, []) =
      Some (\<lparr>l_queue = [3], l_open = True, l_mode = Flushing [2], l_answers = [(1, 1)]\<rparr>, [1])"
    by (simp add: new_line_def channel_capacity_def collected_def flushed_def)
  from collector_line_is_worker [OF this] show ?thesis by simp
qed

end
