(* ===== verification/Client_Errors.thy ===== *)
theory Client_Errors
  imports Client_System
begin

text \<open>
  What a client is told when one of its writing calls fails, through the client library, the
  handlers and the coordinator: the status, the error in it, and what the failed call has left
  in the store.
\<close>

section \<open>The writing calls\<close>

datatype write_call =
    W_Prewrite u64 "(bytes \<times> bytes option) list" bytes u64
  | W_Commit u64 u64 "bytes list"
  | W_Batch_Prewrite u64 "(bytes \<times> bytes option) list" bytes u64
  | W_Batch_Commit u64 u64 "bytes list"
  | W_Rollback u64 "bytes list"

fun client_call :: "'w stubs \<Rightarrow> write_call \<Rightarrow> 'w \<Rightarrow> (ClientError + unit) \<times> 'w" where
  "client_call S (W_Prewrite st ms pk ttl) = client_txn_prewrite S st ms pk ttl"
| "client_call S (W_Commit st ct ks) = client_txn_commit S st ct ks"
| "client_call S (W_Batch_Prewrite st ms pk ttl) = client_batch_prewrite S st ms pk ttl"
| "client_call S (W_Batch_Commit st ct ks) = client_batch_commit S st ct ks"
| "client_call S (W_Rollback st ks) = client_txn_rollback S st ks"

fun call_keys :: "write_call \<Rightarrow> bytes set" where
  "call_keys (W_Prewrite st ms pk ttl) = insert pk (fst ` set ms)"
| "call_keys (W_Commit st ct ks) = set ks"
| "call_keys (W_Batch_Prewrite st ms pk ttl) = insert pk (fst ` set ms)"
| "call_keys (W_Batch_Commit st ct ks) = set ks"
| "call_keys (W_Rollback st ks) = set ks"

fun call_start :: "write_call \<Rightarrow> u64" where
  "call_start (W_Prewrite st ms pk ttl) = st"
| "call_start (W_Commit st ct ks) = st"
| "call_start (W_Batch_Prewrite st ms pk ttl) = st"
| "call_start (W_Batch_Commit st ct ks) = st"
| "call_start (W_Rollback st ks) = st"

section \<open>What a failed call reports and leaves\<close>

text \<open>The reasons for which a prewrite fails.\<close>

definition refused :: "u64 \<Rightarrow> (bytes \<times> bytes option) list \<Rightarrow> TxnError \<Rightarrow> bool" where
  "refused st ms e \<longleftrightarrow> txn_io e \<or> e = TransactionRolledBack \<or>
     (\<exists>k \<in> fst ` set ms. e = KeyLocked k \<or> e = WriteConflict k st)"

fun call_failed :: "write_call \<Rightarrow> mvcc \<Rightarrow> ClientError \<Rightarrow> mvcc \<Rightarrow> bool" where
  "call_failed (W_Prewrite st ms pk ttl) m err m' \<longleftrightarrow>
     (\<exists>e. err = Ce_Status (Status_Aborted e) \<and> refused st ms e) \<and>
     (\<forall>k t r. committed m k t r \<longrightarrow> committed m' k t r)"
| "call_failed (W_Commit st ct ks) m err m' \<longleftrightarrow>
     err = Ce_Status (Status_Internal TransactionRolledBack) \<and> m' = m \<or>
     (\<exists>e n. err = Ce_Status (Status_Internal e) \<and> txn_io e \<and> m' = fold (commit_key st ct) (take n ks) m)"
| "call_failed (W_Batch_Prewrite st ms pk ttl) m err m' \<longleftrightarrow>
     (\<exists>e. err = Ce_Status (Status_Aborted e) \<and> refused st ms e) \<and> quiet st m m'"
| "call_failed (W_Batch_Commit st ct ks) m err m' \<longleftrightarrow>
     (\<exists>e. err = Ce_Status (Status_Internal e) \<and> txn_io e) \<and> m' = m"
| "call_failed (W_Rollback st ks) m err m' \<longleftrightarrow>
     (\<exists>e n. err = Ce_Status (Status_Internal e) \<and> txn_io e \<and> m' = fold (rollback_key st) (take n ks) m)"

lemma prewrites_failed:
  assumes "prewrites st pk ttl mutations m (Inl e) m'"
  shows "txn_io e \<or> e = TransactionRolledBack \<or>
      (\<exists>x \<in> set mutations. e = KeyLocked (mutation_key x) \<or> e = WriteConflict (mutation_key x) st)"
  using assms
  by (induction mutations m "Inl e :: TxnError + unit" m' rule: prewrites.induct) (auto simp: prewrite_error_def)

lemma committed_lay [simp]: "committed (lay st pk ttl x m) = committed m"
  by (simp add: committed_def fun_eq_iff)

lemma prewrites_committed: "prewrites st pk ttl mutations m r m' \<Longrightarrow> committed m k t w \<Longrightarrow> committed m' k t w"
  by (induction rule: prewrites.induct) (auto dest: quietD(8))

section \<open>The calls as coordinator operations\<close>

lemma client_batch_prewrite_node:
  "client_batch_prewrite (node_stubs pb R E) st ms pk ttl (n, s) =
     (case batch_prewrite E st (map client_mutation ms) pk ttl s of
        (Inl e, s') \<Rightarrow> (Inl (Ce_Status (Status_Aborted e)), n, s')
      | (Inr _, s') \<Rightarrow> (Inr (), n, s'))"
  by (auto simp: client_batch_prewrite_def rpc_def node_stubs_def kv_batch_prewrite_def on_engine_eq comp_def
      split: prod.split sum.split)

lemma client_batch_commit_node:
  "client_batch_commit (node_stubs pb R E) st ct ks (n, s) =
     (case batch_commit E st ct ks s of
        (Inl e, s') \<Rightarrow> (Inl (Ce_Status (Status_Internal e)), n, s')
      | (Inr _, s') \<Rightarrow> (Inr (), n, s'))"
  by (auto simp: client_batch_commit_def rpc_def node_stubs_def kv_batch_commit_def on_engine_eq
      split: prod.split sum.split)

lemma client_txn_rollback_node:
  "client_txn_rollback (node_stubs pb R E) st ks (n, s) =
     (case rollback E st ks s of
        (Inl e, s') \<Rightarrow> (Inl (Ce_Status (Status_Internal e)), n, s')
      | (Inr _, s') \<Rightarrow> (Inr (), n, s'))"
  by (auto simp: client_txn_rollback_def rpc_def node_stubs_def Node_Service.txn_rollback_def on_engine_eq
      split: prod.split sum.split)

lemma refused_mutations:
  "refused st ms e \<longleftrightarrow> txn_io e \<or> e = TransactionRolledBack \<or>
     (\<exists>x \<in> set (map client_mutation ms). e = KeyLocked (mutation_key x) \<or> e = WriteConflict (mutation_key x) st)"
  by (simp add: refused_def)

context fjall
begin

lemma commit_failed:
  assumes "commit E st ct ks s = (Inl e, s')" "wf_store K (view s)" "set ks \<subseteq> K"
  shows "e = TransactionRolledBack \<and> view s' = view s \<or>
    txn_io e \<and> (\<exists>n. abs_mvcc (view s') = fold (commit_key st ct) (take n ks) (abs_mvcc (view s)))"
proof (cases ks)
  case (Cons pk keys)
  with assms(3) have "pk \<in> K" "set keys \<subseteq> K" by simp_all
  from commit_prefix [OF assms(1) [unfolded Cons] assms(2) this] show ?thesis
    unfolding Cons prefix_done_def by (auto split: if_splits intro: exI [of _ 0])
qed (use assms(1) in simp)

lemma batch_prewrite_failed:
  assumes "batch_prewrite E st (map client_mutation ms) pk ttl s = (Inl e, s')"
    and "good_keys K" "fst ` set ms \<subseteq> K" "pk \<in> K" "wf_store K (view s)"
    and "si_inv (abs_mvcc (view s))" "settled st (abs_mvcc (view s))"
  shows "refused st ms e \<and> quiet st (abs_mvcc (view s)) (abs_mvcc (view s'))"
proof -
  have "mutation_key ` set (map client_mutation ms) \<subseteq> K" using assms(3) by (simp add: image_image)
  from assms(1,2) this assms(4-7) show ?thesis
    unfolding refused_mutations by (cases rule: batch_prewrite_cases) (auto simp: prewrite_error_def simp del: set_map)
qed

lemma prewrite_failed:
  assumes "prewrite E st (map client_mutation ms) pk ttl s = (Inl e, s')"
    and "good_keys K" "fst ` set ms \<subseteq> K" "pk \<in> K" "wf_store K (view s)"
    and "si_inv (abs_mvcc (view s))" "settled st (abs_mvcc (view s))"
  shows "refused st ms e \<and> (committed (abs_mvcc (view s)) k t r \<longrightarrow> committed (abs_mvcc (view s')) k t r)"
proof -
  have "mutation_key ` set (map client_mutation ms) \<subseteq> K" using assms(3) by (simp add: image_image)
  from prewrite_refines [OF assms(1,2) this assms(4-7)]
  show ?thesis unfolding refused_mutations by (blast dest: prewrites_failed prewrites_committed)
qed

end

section \<open>Property\<close>

text \<open>C18. What a client learns from a failed call. A prewrite fails with the status Aborted, for an
  engine failure, a rollback of the transaction, or a lock or a newer commit on one of its keys; it
  removes nothing committed, and a batch prewrite changes nothing of the transaction at all. A
  commit, a batch commit and a rollback fail with the status Internal. When a commit reports that
  the transaction was rolled back, nothing has changed; for all three an engine failure leaves the
  keys before the failure done and the others untouched, which for a batch commit means none. No
  call reports a corrupted record, and none changes anything of the node but its engine.\<close>

theorem client_call_errors:
  assumes "fjall E view" "good_keys K" "call_keys c \<subseteq> K" "wf_store K (view s)"
    and "si_inv (abs_mvcc (view s))" "settled (call_start c) (abs_mvcc (view s))"
    and "client_call (node_stubs pb R E) c (n, s) = (Inl err, n', s')"
  shows "n' = n \<and> call_failed c (abs_mvcc (view s)) err (abs_mvcc (view s'))"
proof (cases c)
  case (W_Prewrite st ms pk ttl)
  with assms(7) obtain e where e: "prewrite E st (map client_mutation ms) pk ttl s = (Inl e, s')"
      "err = Ce_Status (Status_Aborted e)" "n' = n"
    by (auto simp: client_txn_prewrite_node split: prod.splits sum.splits)
  from fjall.prewrite_failed [OF assms(1) e(1) assms(2) _ _ assms(4,5)] assms(3,6) W_Prewrite e show ?thesis by simp
next
  case (W_Commit st ct ks)
  with assms(7) obtain e where e: "commit E st ct ks s = (Inl e, s')" "err = Ce_Status (Status_Internal e)" "n' = n"
    by (auto simp: client_txn_commit_node split: prod.splits sum.splits)
  from fjall.commit_failed [OF assms(1) e(1) assms(4)] assms(3) W_Commit e show ?thesis by auto
next
  case (W_Batch_Prewrite st ms pk ttl)
  with assms(7) obtain e where e: "batch_prewrite E st (map client_mutation ms) pk ttl s = (Inl e, s')"
      "err = Ce_Status (Status_Aborted e)" "n' = n"
    by (auto simp: client_batch_prewrite_node split: prod.splits sum.splits)
  from fjall.batch_prewrite_failed [OF assms(1) e(1) assms(2) _ _ assms(4,5)] assms(3,6) W_Batch_Prewrite e
  show ?thesis by simp
next
  case (W_Batch_Commit st ct ks)
  with assms(7) obtain e where e: "batch_commit E st ct ks s = (Inl e, s')" "err = Ce_Status (Status_Internal e)" "n' = n"
    by (auto simp: client_batch_commit_node split: prod.splits sum.splits)
  from fjall.batch_commit_atomic [OF assms(1) e(1) assms(4)] assms(3) W_Batch_Commit e show ?thesis by auto
next
  case (W_Rollback st ks)
  with assms(7) obtain e where e: "rollback E st ks s = (Inl e, s')" "err = Ce_Status (Status_Internal e)" "n' = n"
    by (auto simp: client_txn_rollback_node split: prod.splits sum.splits)
  from fjall.rollback_prefix [OF assms(1) e(1) assms(4)] assms(3) W_Rollback e show ?thesis
    by (auto simp: prefix_done_def)
qed

theorem client_call_errors_witness:
  "\<exists>n' s'. client_call solo_stubs (W_Commit 5 20 [[1], [2]]) (solo_server (mem_init [])) =
       (Inl (Ce_Status (Status_Internal TransactionRolledBack)), n', s') \<and>
     abs_mvcc (mem_view s') = abs_mvcc (mem_view (mem_init []))"
proof -
  let ?w = "solo_server (mem_init [])"
  let ?c = "W_Commit 5 20 [[1], [2]]"
  obtain n' s' where w': "snd (client_call solo_stubs ?c ?w) = (n', s')" by force
  have "fst (client_call solo_stubs ?c ?w) = Inl (Ce_Status (Status_Internal TransactionRolledBack))" by code_simp
  with w' have run: "client_call solo_stubs ?c (fst ?w, snd ?w) =
      (Inl (Ce_Status (Status_Internal TransactionRolledBack)), n', s')"
    by (metis prod.collapse)
  have start: "wf_store (set [[1], [2], [3]]) (mem_view (snd ?w))" "si_inv (abs_mvcc (mem_view (snd ?w)))"
      "settled (call_start ?c) (abs_mvcc (mem_view (snd ?w)))"
    using mem_init_ok by (simp_all add: solo_server_view)
  have "call_keys ?c \<subseteq> set [[1], [2], [3]]" by simp
  from client_call_errors [OF mem.fjall_axioms mem_keys this start run [unfolded solo_stubs_def]] run
  show ?thesis by (auto simp: solo_server_view)
qed

end
