(* ===== verification/Node_Main.thy ===== *)
theory Node_Main
  imports Node_Service
begin

text \<open>
  \<^verbatim>\<open>node/src/main.rs\<close>: the configuration a server starts with, from the command line and an
  optional configuration file. Reading the file, the crate \<^verbatim>\<open>toml\<close> and the parser of socket
  addresses are parameters; addresses and paths are strings. Serving the three services is a
  call of the crate \<^verbatim>\<open>tonic\<close>.
\<close>

record Args =
  args_node_id :: u64
  args_addr :: string
  args_data_dir :: string
  args_config :: "string option"

definition args_default :: Args where
  "args_default = \<lparr>args_node_id = 1, args_addr = ''127.0.0.1:50051'', args_data_dir = ''./data/node-1'', args_config = None\<rparr>"

record ConfigFile =
  cf_node_id :: "u64 option"
  cf_grpc_addr :: "string option"
  cf_storage_path :: "string option"

datatype MainError = Main_Io string | Main_Toml string | Main_Addr string | Main_Storage StorageError

definition or_else :: "'a option \<Rightarrow> 'a \<Rightarrow> 'a" where
  "or_else x0 d = (case x0 of Some x \<Rightarrow> x | None \<Rightarrow> d)"

definition server_config_of :: "u64 \<Rightarrow> string \<Rightarrow> string \<Rightarrow> ServerConfig" where
  "server_config_of node_id addr data_dir =
     server_config_default\<lparr>sc_node_id := node_id, sc_addr := addr, sc_data_dir := data_dir\<rparr>"

definition main_config ::
  "(string \<Rightarrow> string + string) \<Rightarrow> (string \<Rightarrow> string + ConfigFile) \<Rightarrow> (string \<Rightarrow> string option) \<Rightarrow> Args \<Rightarrow>
     MainError + ServerConfig" where
  "main_config read_to_string from_toml parse_addr args =
     (case args_config args of
        None \<Rightarrow> Inr (server_config_of (args_node_id args) (args_addr args) (args_data_dir args))
      | Some path \<Rightarrow>
          (case read_to_string path of
             Inl e \<Rightarrow> Inl (Main_Io e)
           | Inr content \<Rightarrow>
               (case from_toml content of
                  Inl e \<Rightarrow> Inl (Main_Toml e)
                | Inr parsed \<Rightarrow>
                    (case cf_grpc_addr parsed of
                       None \<Rightarrow> Inr (server_config_of (or_else (cf_node_id parsed) (args_node_id args)) (args_addr args)
                                 (or_else (cf_storage_path parsed) (args_data_dir args)))
                     | Some g_addr \<Rightarrow>
                         (case parse_addr g_addr of
                            None \<Rightarrow> Inl (Main_Addr g_addr)
                          | Some addr \<Rightarrow>
                              Inr (server_config_of (or_else (cf_node_id parsed) (args_node_id args)) addr
                                (or_else (cf_storage_path parsed) (args_data_dir args))))))))"

text \<open>Start-up: the configuration, then the node.\<close>

definition main_start ::
  "('e, 'h, 'c) raft_pb \<Rightarrow> ('r, 'e, 'h, 'c, 'm) raw_node \<Rightarrow> 's env \<Rightarrow> (string \<Rightarrow> StorageConfig \<Rightarrow> StorageError + 's) \<Rightarrow>
     (string \<Rightarrow> string + string) \<Rightarrow> (string \<Rightarrow> string + ConfigFile) \<Rightarrow> (string \<Rightarrow> string option) \<Rightarrow> Args \<Rightarrow>
     (MainError + ('r, 'e, 'h, 'c) NodeState \<times> 's) option" where
  "main_start pb R E open_with_config read_to_string from_toml parse_addr args =
     (case main_config read_to_string from_toml parse_addr args of
        Inl e \<Rightarrow> Some (Inl e)
      | Inr config \<Rightarrow>
          map_option (\<lambda>r. case r of Inl e \<Rightarrow> Inl (Main_Storage e) | Inr w \<Rightarrow> Inr w)
            (node_state_new pb R E open_with_config config))"

section \<open>Facts\<close>

text \<open>A setting of the file wins over the command line, and what the file leaves out comes from
  the command line; tick and storage settings are always the defaults.\<close>

lemma main_config_ok:
  assumes "main_config rd tm pa args = Inr cfg"
  shows "sc_storage_config cfg = storage_config_default" "sc_raft_tick_ms cfg = 100"
    and "args_config args = None \<Longrightarrow> sc_node_id cfg = args_node_id args \<and> sc_addr cfg = args_addr args \<and>
      sc_data_dir cfg = args_data_dir args"
    and "args_config args = Some path \<Longrightarrow> rd path = Inr content \<Longrightarrow> tm content = Inr f \<Longrightarrow>
      sc_node_id cfg = or_else (cf_node_id f) (args_node_id args) \<and>
      sc_data_dir cfg = or_else (cf_storage_path f) (args_data_dir args) \<and>
      (cf_grpc_addr f = None \<longrightarrow> sc_addr cfg = args_addr args) \<and>
      (\<forall>a. cf_grpc_addr f = Some a \<longrightarrow> pa a = Some (sc_addr cfg))"
  using assms
  by (auto simp: main_config_def server_config_of_def server_config_default_def split: option.splits sum.splits)

lemma main_start_node:
  "main_start pb R E op rd tm pa args = Some (Inr w) \<longleftrightarrow>
     (\<exists>cfg. main_config rd tm pa args = Inr cfg \<and> node_state_new pb R E op cfg = Some (Inr w))"
  by (auto simp: main_start_def map_option_case split: sum.splits option.splits)

end
