(* ===== verification/Engine_Open.thy ===== *)
theory Engine_Open
  imports Storage_Engine
begin

text \<open>
  Opening the engine (\<^verbatim>\<open>open_with_config\<close> and \<^verbatim>\<open>open\<close> of \<^verbatim>\<open>storage/src/engine.rs\<close>). Here the
  engine crate is seen through its keyspace and partition handles (record \<open>keyspace_lib\<close>), and the
  calls of the record \<open>env\<close> are calls on the handles of a \<open>StorageEngine\<close> (\<open>engine_env\<close>). What the
  crate documents of a keyspace is the locale \<open>keyspace_crate\<close>; with it, an engine that
  \<open>open_with_config\<close> returned satisfies the locale \<open>fjall\<close>, because its three handles are of
  different partitions.
\<close>

section \<open>The crate\<close>

datatype 'p handle_op = H_Insert 'p bytes bytes | H_Remove 'p bytes

record ('k, 'p) keyspace_lib =
  lib_open :: "string \<Rightarrow> KeyspaceOptions \<Rightarrow> fjall_error + 'k"
  lib_open_partition :: "string \<Rightarrow> u32 \<Rightarrow> 'k \<Rightarrow> (fjall_error + 'p) \<times> 'k"
  lib_get :: "'p \<Rightarrow> bytes \<Rightarrow> 'k \<Rightarrow> (fjall_error + bytes option) \<times> 'k"
  lib_range_from :: "'p \<Rightarrow> bytes \<Rightarrow> 'k \<Rightarrow> items \<times> 'k"
  lib_iter :: "'p \<Rightarrow> 'k \<Rightarrow> items \<times> 'k"
  lib_commit :: "'p handle_op list \<Rightarrow> 'k \<Rightarrow> (fjall_error + unit) \<times> 'k"
  lib_now :: "'k \<Rightarrow> u64 \<times> 'k"

text \<open>The contents of a keyspace, by the names of its partitions.\<close>

type_synonym dir = "string \<Rightarrow> bytes \<Rightarrow> bytes option"

fun dir_op :: "('p \<Rightarrow> string) \<Rightarrow> dir \<Rightarrow> 'p handle_op \<Rightarrow> dir" where
  "dir_op name d (H_Insert h k x) = d(name h := (d (name h))(k \<mapsto> x))"
| "dir_op name d (H_Remove h k) = d(name h := (d (name h))(k := None))"

locale keyspace_crate =
  fixes L :: "('k, 'p) keyspace_lib" and contents :: "'k \<Rightarrow> dir" and name :: "'p \<Rightarrow> string"
  assumes open_partition_name: "lib_open_partition L p sz k = (Inr h, k') \<Longrightarrow> name h = p"
    and open_partition_keeps: "lib_open_partition L p sz k = (r, k') \<Longrightarrow> contents k' = contents k"
    and lib_get_keeps: "lib_get L h key k = (g, k') \<Longrightarrow> contents k' = contents k"
    and lib_get_value: "lib_get L h key k = (Inr v, k') \<Longrightarrow> v = contents k (name h) key"
    and lib_range_keeps: "lib_range_from L h lo k = (its, k') \<Longrightarrow> contents k' = contents k"
    and lib_range_yields: "lib_range_from L h lo k = (its, k') \<Longrightarrow>
      \<exists>kvs. yields its kvs \<and> scan_of (contents k (name h)) lo kvs"
    and lib_iter_keeps: "lib_iter L h k = (its, k') \<Longrightarrow> contents k' = contents k"
    and lib_iter_yields: "lib_iter L h k = (its, k') \<Longrightarrow>
      \<exists>kvs. yields its kvs \<and> scan_of (contents k (name h)) [] kvs"
    and lib_commit_ok: "lib_commit L b k = (Inr u, k') \<Longrightarrow> contents k' = foldl (dir_op name) (contents k) b"
    and lib_commit_err: "lib_commit L b k = (Inl e, k') \<Longrightarrow> contents k' = contents k"
    and lib_now_keeps: "lib_now L k = (t, k') \<Longrightarrow> contents k' = contents k"

section \<open>The engine\<close>

definition PARTITION_DEFAULT :: string where "PARTITION_DEFAULT = ''default''"

definition PARTITION_LOCK :: string where "PARTITION_LOCK = ''lock''"

definition PARTITION_WRITE :: string where "PARTITION_WRITE = ''write''"

record ('k, 'p) StorageEngine =
  keyspace :: 'k
  p_default :: 'p
  p_lock :: 'p
  p_write :: 'p

definition open_with_config ::
  "('k, 'p) keyspace_lib \<Rightarrow> string \<Rightarrow> StorageConfig \<Rightarrow> StorageError + ('k, 'p) StorageEngine" where
  "open_with_config L path config =
     (case lib_open L path (keyspace_options config) of
        Inl e \<Rightarrow> Inl (Storage_Fjall e)
      | Inr k \<Rightarrow>
          (let sz = ko_max_memtable_size (keyspace_options config) in
           case lib_open_partition L PARTITION_DEFAULT sz k of
             (Inl e, _) \<Rightarrow> Inl (Storage_Fjall e)
           | (Inr h_default, k1) \<Rightarrow>
               (case lib_open_partition L PARTITION_LOCK sz k1 of
                  (Inl e, _) \<Rightarrow> Inl (Storage_Fjall e)
                | (Inr h_lock, k2) \<Rightarrow>
                    (case lib_open_partition L PARTITION_WRITE sz k2 of
                       (Inl e, _) \<Rightarrow> Inl (Storage_Fjall e)
                     | (Inr h_write, k3) \<Rightarrow>
                         Inr \<lparr>keyspace = k3, p_default = h_default, p_lock = h_lock, p_write = h_write\<rparr>))))"

definition engine_open :: "('k, 'p) keyspace_lib \<Rightarrow> string \<Rightarrow> StorageError + ('k, 'p) StorageEngine" where
  "engine_open L path = open_with_config L path storage_config_default"

fun partition_handle :: "('k, 'p) StorageEngine \<Rightarrow> partition \<Rightarrow> 'p" where
  "partition_handle eng P_Default = p_default eng"
| "partition_handle eng P_Lock = p_lock eng"
| "partition_handle eng P_Write = p_write eng"

fun on_handle :: "('k, 'p) StorageEngine \<Rightarrow> batch_op \<Rightarrow> 'p handle_op" where
  "on_handle eng (Insert p k x) = H_Insert (partition_handle eng p) k x"
| "on_handle eng (Remove p k) = H_Remove (partition_handle eng p) k"

text \<open>The calls of the code on an engine.\<close>

definition engine_env :: "('k, 'p) keyspace_lib \<Rightarrow> ('k, 'p) StorageEngine \<Rightarrow> 'k env" where
  "engine_env L eng =
     \<lparr>fj_get = (\<lambda>p. lib_get L (partition_handle eng p)),
      fj_range_from = (\<lambda>p. lib_range_from L (partition_handle eng p)),
      fj_iter = (\<lambda>p. lib_iter L (partition_handle eng p)),
      fj_commit = (\<lambda>b. lib_commit L (map (on_handle eng) b)),
      sys_now = lib_now L\<rparr>"

section \<open>The opened engine\<close>

fun partition_name :: "partition \<Rightarrow> string" where
  "partition_name P_Default = PARTITION_DEFAULT"
| "partition_name P_Lock = PARTITION_LOCK"
| "partition_name P_Write = PARTITION_WRITE"

definition dir_view :: "dir \<Rightarrow> view" where
  "dir_view d p = d (partition_name p)"

lemma partition_name_eq [simp]: "partition_name p = partition_name q \<longleftrightarrow> p = q"
  by (cases p; cases q) (simp_all add: PARTITION_DEFAULT_def PARTITION_LOCK_def PARTITION_WRITE_def)

lemma dir_view_op:
  assumes "\<And>p. name (partition_handle eng p) = partition_name p"
  shows "dir_view (dir_op name d (on_handle eng x)) = apply_op (dir_view d) x"
  by (cases x) (auto simp: dir_view_def assms fun_eq_iff)

lemma dir_view_ops:
  assumes "\<And>p. name (partition_handle eng p) = partition_name p"
  shows "dir_view (foldl (dir_op name) d (map (on_handle eng) b)) = apply_batch b (dir_view d)"
  by (induction b arbitrary: d) (simp_all add: dir_view_op [where name = name, OF assms])

text \<open>An open that succeeded has made its four calls, in the order of the code.\<close>

lemma open_with_config_Inr:
  assumes "open_with_config L path config = Inr eng"
  obtains k0 k1 k2 where "lib_open L path (keyspace_options config) = Inr k0"
    and "lib_open_partition L PARTITION_DEFAULT (max_memtable_size_bytes config) k0 = (Inr (p_default eng), k1)"
    and "lib_open_partition L PARTITION_LOCK (max_memtable_size_bytes config) k1 = (Inr (p_lock eng), k2)"
    and "lib_open_partition L PARTITION_WRITE (max_memtable_size_bytes config) k2 = (Inr (p_write eng), keyspace eng)"
  using assms
  by (auto simp: open_with_config_def keyspace_options_def Let_def split: sum.splits prod.splits)

context keyspace_crate
begin

lemma open_names:
  assumes "open_with_config L path config = Inr eng"
  shows "name (partition_handle eng p) = partition_name p"
  using assms by (rule open_with_config_Inr) (cases p; simp add: open_partition_name)

lemma open_keeps:
  assumes "open_with_config L path config = Inr eng" "lib_open L path (keyspace_options config) = Inr k0"
  shows "contents (keyspace eng) = contents k0"
  using assms(1) by (rule open_with_config_Inr) (use assms(2) open_partition_keeps in fastforce)

lemma open_fjall:
  assumes "open_with_config L path config = Inr eng"
  shows "fjall (engine_env L eng) (\<lambda>k. dir_view (contents k))"
proof -
  note names = open_names [OF assms]
  show ?thesis
  proof
    fix b k u k'
    assume "fj_commit (engine_env L eng) b k = (Inr u, k')"
    then have "contents k' = foldl (dir_op name) (contents k) (map (on_handle eng) b)"
      by (auto simp: engine_env_def dest: lib_commit_ok)
    then show "dir_view (contents k') = apply_batch b (dir_view (contents k))"
      by (simp add: dir_view_ops [where name = name, OF names])
  next
    fix p lo k its k'
    assume "fj_range_from (engine_env L eng) p lo k = (its, k')"
    then show "\<exists>kvs. yields its kvs \<and> scan_of (dir_view (contents k) p) lo kvs"
      using lib_range_yields [of "partition_handle eng p" lo k] by (simp add: engine_env_def dir_view_def names)
  next
    fix p k its k'
    assume "fj_iter (engine_env L eng) p k = (its, k')"
    then show "\<exists>kvs. yields its kvs \<and> scan_of (dir_view (contents k) p) [] kvs"
      using lib_iter_yields [of "partition_handle eng p" k] by (simp add: engine_env_def dir_view_def names)
  qed (auto simp: engine_env_def dir_view_def names
      dest: lib_get_keeps lib_get_value lib_range_keeps lib_iter_keeps lib_commit_err lib_now_keeps)
qed

end

section \<open>A keyspace in memory\<close>

text \<open>A keyspace whose handles are the names of its partitions, and which finds the contents \<open>d\<close>
  when it is opened.\<close>

type_synonym named_db = "string \<Rightarrow> (bytes \<times> bytes) list"

fun named_op :: "named_db \<Rightarrow> string handle_op \<Rightarrow> named_db" where
  "named_op d (H_Insert h k x) = d(h := (k, x) # d h)"
| "named_op d (H_Remove h k) = d(h := filter (\<lambda>kv. fst kv \<noteq> k) (d h))"

definition named_lib :: "named_db \<Rightarrow> (named_db, string) keyspace_lib" where
  "named_lib d =
     \<lparr>lib_open = (\<lambda>_ _. Inr d),
      lib_open_partition = (\<lambda>p _ k. (Inr p, k)),
      lib_get = (\<lambda>h key k. (Inr (map_of (k h) key), k)),
      lib_range_from = (\<lambda>h lo k. (map Inr (filter (\<lambda>kv. lo \<le> fst kv) (mem_entries (k h))), k)),
      lib_iter = (\<lambda>h k. (map Inr (mem_entries (k h)), k)),
      lib_commit = (\<lambda>b k. (Inr (), foldl named_op k b)),
      lib_now = (\<lambda>k. (0, k))\<rparr>"

definition named_contents :: "named_db \<Rightarrow> dir" where
  "named_contents k p = map_of (k p)"

lemma named_contents_op: "named_contents (named_op k x) = dir_op (\<lambda>h. h) (named_contents k) x"
  by (cases x) (auto simp: named_contents_def map_of_filter_neq fun_eq_iff)

lemma named_contents_ops: "named_contents (foldl named_op k b) = foldl (dir_op (\<lambda>h. h)) (named_contents k) b"
  by (induction b arbitrary: k) (simp_all add: named_contents_op)

interpretation named: keyspace_crate "named_lib d" named_contents "\<lambda>h. h" for d
  by unfold_locales
     (auto simp: named_lib_def named_contents_ops, auto simp: named_contents_def intro: scan_of_filter scan_of_mem_entries)

section \<open>Property\<close>

text \<open>C23. Opening the engine. When the crate behaves as documented, an engine that
  \<^verbatim>\<open>open_with_config\<close> returned gives the three independent partitions the rest of the code works
  with, and they hold what the keyspace held when it was opened, so nothing is lost over a restart;
  an open that failed reports the error of the crate.\<close>

theorem open_with_config_engine:
  assumes "keyspace_crate L contents name"
  shows "case open_with_config L path config of
      Inl err \<Rightarrow> \<exists>e. err = Storage_Fjall e
    | Inr eng \<Rightarrow> fjall (engine_env L eng) (\<lambda>k. dir_view (contents k)) \<and>
        (\<exists>k0. lib_open L path (keyspace_options config) = Inr k0 \<and> contents (keyspace eng) = contents k0)"
proof (cases "open_with_config L path config")
  case (Inl err)
  then show ?thesis by (auto simp: open_with_config_def Let_def split: sum.splits prod.splits)
next
  case (Inr eng)
  then obtain k0 where "lib_open L path (keyspace_options config) = Inr k0" by (rule open_with_config_Inr)
  with Inr keyspace_crate.open_fjall [OF assms Inr] keyspace_crate.open_keeps [OF assms Inr] show ?thesis by simp
qed

theorem open_with_config_engine_witness:
  "fjall (engine_env (named_lib (\<lambda>_. []))
       \<lparr>keyspace = (\<lambda>_. []), p_default = ''default'', p_lock = ''lock'', p_write = ''write''\<rparr>)
     (\<lambda>k. dir_view (named_contents k))"
  using open_with_config_engine [OF named.keyspace_crate_axioms, of "\<lambda>_. []" "''data''" storage_config_default]
  by (simp add: open_with_config_def named_lib_def PARTITION_DEFAULT_def PARTITION_LOCK_def PARTITION_WRITE_def)

end
