(* ===== verification/Server_Start.thy ===== *)
theory Server_Start
  imports Node_Main Node_System Engine_Open
begin

text \<open>
  The server from its start (\<^verbatim>\<open>node/src/main.rs\<close>): configuration, opening the engine, building the
  node, and the requests its three services then answer on the one node they share. What the
  services keep of the store holds from the data directory on, over any number of restarts.
\<close>

section \<open>Start-up\<close>

definition main_serve ::
  "('k, 'p) keyspace_lib \<Rightarrow> ('e, 'h, 'c) raft_pb \<Rightarrow> ('r, 'e, 'h, 'c, 'm) raw_node \<Rightarrow>
     (string \<Rightarrow> string + string) \<Rightarrow> (string \<Rightarrow> string + ConfigFile) \<Rightarrow> (string \<Rightarrow> string option) \<Rightarrow> Args \<Rightarrow>
     (MainError + ('k, 'p) StorageEngine \<times> ('r, 'e, 'h, 'c) NodeState \<times> 'k) option" where
  "main_serve L pb R read_to_string from_toml parse_addr args =
     (case main_config read_to_string from_toml parse_addr args of
        Inl e \<Rightarrow> Some (Inl e)
      | Inr config \<Rightarrow>
          (case open_with_config L (sc_data_dir config) (sc_storage_config config) of
             Inl e \<Rightarrow> Some (Inl (Main_Storage e))
           | Inr eng \<Rightarrow>
               map_option (map_sum Main_Storage (Pair eng))
                 (node_state_new pb R (engine_env L eng) (\<lambda>_ _. Inr (keyspace eng)) config)))"

text \<open>A start is the start of \<open>Node_Main\<close> with the opened engine in place of the parameter.\<close>

lemma map_sum_Inr: "map_sum f g x = Inr y \<longleftrightarrow> (\<exists>z. x = Inr z \<and> y = g z)"
  by (cases x) auto

lemma main_serve_start:
  "main_serve L pb R rd tm pa args = Some (Inr (eng, w)) \<longleftrightarrow>
     (\<exists>config. main_config rd tm pa args = Inr config \<and>
        open_with_config L (sc_data_dir config) (sc_storage_config config) = Inr eng \<and>
        main_start pb R (engine_env L eng) (\<lambda>_ _. Inr (keyspace eng)) rd tm pa args = Some (Inr w))"
  by (auto simp: main_serve_def main_start_node map_sum_Inr split: sum.splits)

context fjall
begin

lemma node_state_new_view:
  assumes "node_state_new pb R E op cfg = Some (Inr w)" "op (sc_data_dir cfg) (sc_storage_config cfg) = Inr s"
  shows "view (snd w) = view s"
proof -
  obtain now s1 where now: "sys_now E s = (now, s1)" by force
  obtain r s2 where r: "multi_raft_node_new pb R E 1 [sc_node_id cfg] (node_raft_config cfg) s1 = (r, s2)" by force
  from assms now r have "snd w = s2" by (auto simp: node_state_new_def split: sum.splits)
  with r multi_raft_node_new_keeps [of pb R 1 "[sc_node_id cfg]" "node_raft_config cfg" s1] now_keeps [OF now] show ?thesis
    by simp
qed

end

lemma main_serve_fjall:
  assumes "keyspace_crate L contents name" "main_serve L pb R rd tm pa args = Some (Inr (eng, w))"
  obtains config k0 where "main_config rd tm pa args = Inr config"
    and "lib_open L (sc_data_dir config) (keyspace_options (sc_storage_config config)) = Inr k0"
    and "fjall (engine_env L eng) (\<lambda>k. dir_view (contents k))"
    and "dir_view (contents (snd w)) = dir_view (contents k0)"
    and "node_state_new pb R (engine_env L eng) (\<lambda>_ _. Inr (keyspace eng)) config = Some (Inr w)"
proof -
  obtain config where cfg: "main_config rd tm pa args = Inr config"
      "open_with_config L (sc_data_dir config) (sc_storage_config config) = Inr eng"
      "node_state_new pb R (engine_env L eng) (\<lambda>_ _. Inr (keyspace eng)) config = Some (Inr w)"
    using assms(2) by (auto simp: main_serve_start main_start_node)
  obtain k0 where k0: "lib_open L (sc_data_dir config) (keyspace_options (sc_storage_config config)) = Inr k0"
    using cfg(2) by (rule open_with_config_Inr)
  have fj: "fjall (engine_env L eng) (\<lambda>k. dir_view (contents k))"
    by (rule keyspace_crate.open_fjall [OF assms(1) cfg(2)])
  have "dir_view (contents (snd w)) = dir_view (contents (keyspace eng))"
    by (rule fjall.node_state_new_view [OF fj cfg(3)]) simp
  with keyspace_crate.open_keeps [OF assms(1) cfg(2) k0] that [OF cfg(1) k0 fj _ cfg(3)] show ?thesis by simp
qed

lemma initial_route: "route_key (insert_region (region_new 1 [] [] ps) router_new) key = Inr (region_new 1 [] [] ps)"
  unfolding route_key_iff [OF initial_tiled]
  by (simp add: regions_def insert_region_def router_new_def region_new_def contains_key_def)

lemma node_state_new_router:
  "node_state_new pb R E op cfg = Some (Inr w) \<Longrightarrow>
     ns_router (fst w) = insert_region (region_new 1 [] [] [sc_node_id (ns_config (fst w))]) router_new"
  by (auto simp: node_state_new_def split: sum.splits prod.splits)

section \<open>Property\<close>

text \<open>C4. The server from its start. When a server starts on a data directory whose three partitions
  are well formed and consistent, it starts with exactly their contents and with one region for
  all keys. Wherever the engine then fails, the partitions stay well formed and consistent under
  the requests of clients that respect the conditions \<open>request_ok\<close> (keys of the workload, commits no
  earlier than the start, prewrites only when no transaction that committed at or after the start
  has locks left), so the server can stop at any moment and start again on what it leaves. Under
  any requests at all, fewer than there are region identifiers, the region table stays a
  partition of the keys.\<close>

theorem server_start_sound:
  assumes "keyspace_crate L contents name" "good_keys K" "main_config rd tm pa args = Inr config"
    and "lib_open L (sc_data_dir config) (keyspace_options (sc_storage_config config)) = Inr k0"
    and "wf_store K (dir_view (contents k0))" "si_inv (abs_mvcc (dir_view (contents k0)))"
    and "main_serve L pb R rd tm pa args = Some (Inr (eng, w0))"
    and "served pb R pm (engine_env L eng) (\<lambda>k. dir_view (contents k)) K w0 w"
  shows "dir_view (contents (snd w0)) = dir_view (contents k0) \<and> node_ok (fst w0) \<and>
    route_key (ns_router (fst w0)) key = Inr (region_new 1 [] [] [sc_node_id (ns_config (fst w0))]) \<and>
    wf_store K (dir_view (contents (snd w))) \<and> si_inv (abs_mvcc (dir_view (contents (snd w)))) \<and>
    (length qs + 2 < 2 ^ 64 \<longrightarrow> node_ok (fst (node_serves pb R pm (engine_env L eng) qs w0)))"
proof -
  from assms(1,7) obtain config' k where cfg: "main_config rd tm pa args = Inr config'"
      "lib_open L (sc_data_dir config') (keyspace_options (sc_storage_config config')) = Inr k"
      "fjall (engine_env L eng) (\<lambda>k. dir_view (contents k))" "dir_view (contents (snd w0)) = dir_view (contents k)"
      "node_state_new pb R (engine_env L eng) (\<lambda>_ _. Inr (keyspace eng)) config' = Some (Inr w0)"
    by (rule main_serve_fjall)
  from cfg(1,2) assms(3,4) have k: "k = k0" by simp
  with cfg(4) assms(5,6) have start: "wf_store K (dir_view (contents (snd w0)))" "si_inv (abs_mvcc (dir_view (contents (snd w0))))"
    by simp_all
  from runs_si [OF fjall.served_runs [OF cfg(3) assms(8,2)] start]
  have "wf_store K (dir_view (contents (snd w))) \<and> si_inv (abs_mvcc (dir_view (contents (snd w))))" .
  moreover have "node_ok (fst (node_serves pb R pm (engine_env L eng) qs w0))" if "length qs + 2 < 2 ^ 64"
    using node_serves_ok [OF node_state_new_ok(1) [OF cfg(5)], of qs pb R pm "engine_env L eng"]
      node_state_new_ok(2) [OF cfg(5)] that by simp
  ultimately show ?thesis
    using cfg(4) k node_state_new_ok(1) [OF cfg(5)]
    by (simp add: node_state_new_router [OF cfg(5)] initial_route)
qed

definition example_start where
  "example_start = main_serve (named_lib (\<lambda>_. [])) plain_pb solo (\<lambda>_. Inl ''no file'') (\<lambda>_. Inl ''no table'') (\<lambda>_. None) args_default"

lemma empty_dir_view: "dir_view (named_contents (\<lambda>_. [])) = mem_view (mem_init [])"
  by (simp add: dir_view_def named_contents_def mem_view_def mem_init_def fun_eq_iff)

theorem server_start_sound_witness:
  "\<exists>eng w. example_start = Some (Inr (eng, w)) \<and>
     si_inv (abs_mvcc (dir_view (named_contents (snd (node_serves plain_pb solo Some (engine_env (named_lib (\<lambda>_. [])) eng) server_run w)))))"
proof -
  have "\<exists>x. example_start = Some (Inr x)"
    by (simp add: example_start_def main_serve_def main_config_def args_default_def open_with_config_def named_lib_def
        node_state_new_def multi_raft_node_new_def solo_def engine_env_def split: prod.split)
  then obtain eng w where s: "example_start = Some (Inr (eng, w))" by (metis surj_pair)
  let ?E = "engine_env (named_lib (\<lambda>_. [])) eng" and ?v = "\<lambda>k. dir_view (named_contents k)"
  let ?K = "set [[1], [2], [3] :: bytes]"
  note run = s [unfolded example_start_def]
  have open_empty: "lib_open (named_lib (\<lambda>_. [])) path opts = Inr k0 \<longleftrightarrow> k0 = (\<lambda>_. [])" for path opts k0
    by (auto simp: named_lib_def)
  obtain k0 and config :: ServerConfig where "lib_open (named_lib (\<lambda>_. [])) (sc_data_dir config) (keyspace_options (sc_storage_config config)) = Inr k0"
      "?v (snd w) = ?v k0"
    by (rule main_serve_fjall [OF named.keyspace_crate_axioms run]) blast
  then have "settled 5 (abs_mvcc (?v (snd w)))" using mem_init_ok(3) by (simp add: open_empty empty_dir_view)
  then have srv: "served plain_pb solo Some ?E ?v ?K w (node_serves plain_pb solo Some ?E server_run w)"
    unfolding node_serves_def server_run_def foldl.simps
    by (intro served_step served_init) (simp_all add: decode_mutation_def)
  have found: "lib_open (named_lib (\<lambda>_. [])) path opts = Inr (\<lambda>_. [])" for path opts
    by (simp add: open_empty)
  obtain config where cfg: "main_config (\<lambda>_. Inl ''no file'') (\<lambda>_. Inl ''no table'') (\<lambda>_. None) args_default = Inr config"
    by (simp add: main_config_def args_default_def)
  have "wf_store ?K (?v (\<lambda>_. []))" "si_inv (abs_mvcc (?v (\<lambda>_. [])))"
    using mem_init_ok by (simp_all add: empty_dir_view)
  from server_start_sound [OF named.keyspace_crate_axioms mem_keys cfg found this run srv] s show ?thesis by blast
qed

end
