(* ===== verification/Spec2Isabelle.thy ===== *)
theory Spec2Isabelle
  imports Counterexamples Region_Module Concurrent_Txns Record_Types Concurrent_Splits Batch_Collector Client_Errors Server_Start
begin

text \<open>
  A verification development of a key-value store with multi-version transactions (two-phase
  commit after Percolator), a region table and Raft groups. The crates are under
  \<^verbatim>\<open>src/crates\<close>, the messages under \<^verbatim>\<open>src/proto\<close>.

  \<^bold>\<open>The program.\<close> A node keeps everything in one storage engine (the crate \<^verbatim>\<open>fjall\<close>) with three
  partitions: values (DEFAULT), locks (LOCK) and write records (WRITE). The transaction
  coordinator works on these partitions: \<^verbatim>\<open>prewrite\<close> locks keys and stores values, \<^verbatim>\<open>commit\<close> turns
  locks into write records, \<^verbatim>\<open>rollback\<close> leaves marks, reads meet locks of other transactions and
  have them resolved by the state of their primary key. Timestamps come from a hybrid logical
  clock. A router maps keys to regions; each region has a Raft group whose log is mirrored in
  DEFAULT. Three gRPC services expose the coordinator, region splitting and Raft messages; a
  client library and a command line tool call them.

  \<^bold>\<open>Storage\<close> (\<^verbatim>\<open>storage/src\<close>).
  \<^item> \<open>Kv_Prelude\<close>: machine types, big-endian bytes, the order of byte strings, collections of
    rewrite rules.
  \<^item> \<open>Fjall_Engine\<close>: the engine as a parameter, a record \<open>'s env\<close> of the calls the code makes. The
    locale \<open>fjall\<close> states what is documented: reads return the contents, scans are ordered up to
    their first error, batches are atomic, every call may fail. \<open>fjall_reliable\<close> adds that none
    fails. Both are interpreted on an in-memory engine \<open>mem_env\<close>, the first also on \<open>flaky_env\<close>,
    which fails on a schedule.
  \<^item> \<open>Mvcc_Codec\<close> (\<^verbatim>\<open>lock.rs\<close>, \<^verbatim>\<open>mvcc/mod.rs\<close>, \<^verbatim>\<open>mvcc/key.rs\<close>): the byte encodings, their round trips and
    the order of versioned keys; locales \<open>byte_codec\<close> and \<open>versioned_keys\<close>.
  \<^item> \<open>Mvcc_State\<close>: the abstract store (maps of locks, records and values), the well-formedness
    \<open>wf_store\<close> of the bytes, and how batches act on the abstraction.
  \<^item> \<open>Storage_Engine\<close>, \<open>Storage_Gc\<close> (\<^verbatim>\<open>config.rs\<close>, \<^verbatim>\<open>engine.rs\<close>): batches, region queries, garbage
    collection and what it removes and keeps.
  \<^item> \<open>Engine_Open\<close> (\<^verbatim>\<open>engine.rs\<close>): opening the keyspace and its three partitions. The crate is seen
    through its handles (record \<open>keyspace_lib\<close>, locale \<open>keyspace_crate\<close>); an opened engine satisfies
    the locale \<open>fjall\<close>.
  \<^item> \<open>Mvcc_Reader\<close> (\<^verbatim>\<open>mvcc/reader.rs\<close>): the snapshot read equals its specification on the abstract
    store.

  \<^bold>\<open>Transactions\<close> (\<^verbatim>\<open>txn-coordinator/src\<close>).
  \<^item> \<open>Mvcc_Steps\<close>: the atomic steps of the abstract store and the invariant \<open>si_inv\<close> of snapshot
    isolation (lifetimes of committed writes on a key do not overlap, locks are newer than
    commits), kept by every step.
  \<^item> \<open>Hlc\<close> (\<^verbatim>\<open>hlc.rs\<close>): the clock; timestamps increase while the counter fits 16 bits.
  \<^item> \<open>Lock_Resolver\<close> (\<^verbatim>\<open>lock_resolver.rs\<close>): status and resolution refine the relations
    \<open>status_spec\<close> and \<open>resolve_spec\<close> at the readings of the wall clock they take.
  \<^item> \<open>Coordinator\<close> (\<^verbatim>\<open>coordinator.rs\<close>): the operations. \<open>Txn_Commit\<close>, \<open>Txn_Prewrite\<close>, \<open>Txn_Reads\<close>
    and \<open>Txn_Scan\<close> show, for every outcome including engine failures, which steps they take.
  \<^item> \<open>Txn_System\<close>: any sequence of operations (\<open>reachable\<close>), and the properties of the coordinator;
    \<open>Txn_Progress\<close>: transactions on open keys get through.

  \<^item> \<open>Shared_Engine\<close>, \<open>Interleaving\<close>: an operation among others on a shared engine. The operations are
    functions of the engine, so interleaving is an engine whose contents change between the calls
    and during scans (locale \<open>fjall_shared\<close>, with a bound on the changes; \<open>fjall\<close> is the case without
    any). Reads, commits and prewrites are shown correct under the bound each of them needs;
    \<open>busy_env\<close> is an engine with a schedule of other jobs.
  \<^item> \<open>Engine_Program\<close>: the operations once more, as programs that make one engine call at a time (suffix
    \<open>_prog\<close>); run to its end, each is the operation. \<open>Engine_Calls\<close> bounds the calls of every operation
    over all answers of the engine. \<open>Record_Types\<close> shows that every batch they write is well typed.
  \<^item> \<open>Rely_Guarantee\<close>, \<open>Concurrent_Txns\<close>: several programs interleaved call by call (\<open>interleave\<close>), and
    rules for reasoning about each on its own; the locale \<open>compatible\<close> says when the statements about
    the parts hold of the whole. Whole transactions on different keys are isolated.

  \<^bold>\<open>Regions and Raft\<close> (\<^verbatim>\<open>raft-engine/src\<close>).
  \<^item> \<open>Router\<close> (\<^verbatim>\<open>router.rs\<close>): the table with its two indices over the locale \<open>ordered_map\<close>; \<open>tiled\<close>
    says that the regions partition the keys, splitting keeps it. \<open>Region_Module\<close> (\<^verbatim>\<open>region/\<close>): an
    older table that no crate uses.
  \<^item> \<open>Raft_Store\<close>, \<open>Raft_Log\<close>, \<open>Raft_Durable\<close> (\<^verbatim>\<open>store.rs\<close>): the log in memory and in the engine, lookups
    on contiguous logs, and what a restart reads back. The protobuf types of the crate \<^verbatim>\<open>raft\<close> are
    the parameter \<open>raft_pb\<close> with the law \<open>raft_codec\<close> (parsing inverts serialising).
  \<^item> \<open>Raft_Node\<close>, \<open>Raft_Group\<close> (\<^verbatim>\<open>node.rs\<close>, \<^verbatim>\<open>config.rs\<close>): a member of a group. \<^verbatim>\<open>RawNode\<close> is the
    parameter \<open>raw_node\<close>; what is needed of it is stated of the readies a node processes: they follow its
    log without a gap or replace its end (\<open>ready_follows\<close>), and for recovery do not shorten it
    (\<open>ready_recoverable\<close>; \<open>raft_stale_suffix_returns\<close> shows what happens otherwise). The instances
    \<open>solo\<close> and \<open>scripted\<close> are a group with one voter and a follower.

  \<^bold>\<open>Server and client\<close> (\<^verbatim>\<open>node/src\<close>, \<^verbatim>\<open>client/src\<close>).
  \<^item> \<open>Node_Service\<close> (\<^verbatim>\<open>server.rs\<close>, \<^verbatim>\<open>service.rs\<close>): the node and all handlers. \<open>Node_System\<close>: sequences of
    requests keep snapshot isolation and the table. \<open>Concurrent_Splits\<close>: split requests interleaved
    step by step keep the table. \<open>Node_Main\<close> (\<^verbatim>\<open>main.rs\<close>): the configuration.
    \<open>Server_Start\<close>: the server from its command line and data directory on.
  \<^item> \<open>Client\<close>, \<open>Client_System\<close> (\<^verbatim>\<open>client.rs\<close>, \<^verbatim>\<open>bin/kv-cli.rs\<close>): the calls over the generated stubs (the
    parameter \<open>stubs\<close>), connected to a node by \<open>node_stubs\<close>; the workers of the batch collector over
    any sequence of their events; the commands. \<open>Client_Errors\<close>: what a failed call reports and leaves.
  \<^item> \<open>Batch_Collector\<close> (\<^verbatim>\<open>client.rs\<close>): submitters, bounded channels, workers and server in any
    interleaving; items are kept in order and none gets stuck.
  \<^item> \<open>Counterexamples\<close>: runs that violate a property when a hypothesis is dropped.

  \<^bold>\<open>Conventions.\<close> Integers are words of their width and wrap. \<^verbatim>\<open>Result\<close> is a sum with the error on
  the left; indexing panics and \<^verbatim>\<open>expect\<close> are values. An operation returns its result with the
  state it leaves, also on errors. Loops are structural recursion on the items they visit, so
  every definition is total and no fuel is used; \<open>Engine_Calls\<close> bounds the engine calls. Wall clock
  readings come from the record of engine calls (\<open>sys_now\<close>), for the command line tool from an
  argument. Error texts are represented by the errors they display.

  \<^bold>\<open>Hypotheses of the theorems.\<close> \<open>good_keys K\<close>: no key of the workload is a prefix of another, and
  lengths fit 32 bits; without it the versions of one key hide those of another, and a scan that
  starts at a prefix of a stored key misses it. \<open>settled st\<close>: no
  transaction that committed at or after \<open>st\<close> has left locks; without it \<open>prewrite\<close> can lose an
  update. \<open>request_ok\<close>, \<open>op_ok\<close>: what clients respect, the two conditions above and a commit timestamp
  not below the start timestamp. \<open>fjall\<close> or \<open>fjall_reliable\<close>: the engine as documented, with or without failures. The
  theory \<open>Counterexamples\<close> shows what the code does without the first three.

  \<^bold>\<open>Not modelled.\<close> The code takes no latches. Sequences of operations and of requests run them one at
  a time; what holds of interleaved ones is shown per operation in \<open>Interleaving\<close>, for whole
  transactions on different keys in \<open>Concurrent_Txns\<close>, for the encoding of the store in
  \<open>Record_Types\<close> and for split requests in \<open>Concurrent_Splits\<close>, and the races that remain are in \<open>Counterexamples\<close>. The updates of the region table
  and of the clock, which the code guards by locks, are atomic. Fairness of the runtime, fsync and
  crashes inside the engine are left out. The crates \<^verbatim>\<open>fjall\<close>, \<^verbatim>\<open>raft\<close>, \<^verbatim>\<open>protobuf\<close>, \<^verbatim>\<open>tonic\<close>, \<^verbatim>\<open>tokio\<close>,
  \<^verbatim>\<open>serde_json\<close>, \<^verbatim>\<open>toml\<close> and \<^verbatim>\<open>clap\<close> are not part of the sources; what the code calls of the first three,
  of \<^verbatim>\<open>serde_json\<close> and of \<^verbatim>\<open>toml\<close> is a parameter, the channels of \<^verbatim>\<open>tokio\<close> are bounded queues, and the
  others only transport or parse (opening a channel is a parameter of \<open>client_connect\<close>). Logging and printing are left out, as are the
  generated code of \<^verbatim>\<open>proto\<close>, the tests and the benchmark under \<^verbatim>\<open>simulation\<close>, and the enumeration
  \<^verbatim>\<open>TxnAction\<close>, which nothing uses.
\<close>

end
